(* ===== verification/Prelude.thy ===== *)
theory Prelude
  imports Main "HOL-Library.Word" "HOL-Library.Char_ord" "HOL-Library.List_Lexorder"
begin

text \<open>
  Shared vocabulary of the development: the machine types of the C++ sources, the ways in which
  the process can stop abnormally, sequencing of computations that may stop, the conversion
  between \<open>char\<close> and \<open>uint8_t\<close>, checked access to raw buffers, and the lemma collections
  the component theories extend.

  The program is built with \<^verbatim>\<open>-fno-exceptions\<close> and without \<^verbatim>\<open>NDEBUG\<close> (src/Makefile), so a
  failed \<open>JSON_ASSERT\<close>, every \<open>JSON_THROW\<close> and an exception leaving the standard library all end
  the process.  They are the constructors of \<open>failure\<close>; a computation that may stop has a
  result of type \<open>failure + 'a\<close>.
\<close>

unbundle bit_operations_syntax

named_theorems byte_simps "reading and writing bytes and characters"
named_theorems result_simps "sequencing of computations that may stop the process"
named_theorems buffer_simps "checked reads and writes of raw buffers"

type_synonym byte = "8 word"
type_synonym u32 = "32 word"
type_synonym u64 = "64 word"

section \<open>Abnormal termination\<close>

datatype failure =
    Assertion_failed      \<comment> \<open>\<open>JSON_ASSERT\<close>, that is \<open>assert\<close>\<close>
  | Type_error nat        \<comment> \<open>\<open>JSON_THROW(type_error::create(id, ...))\<close>\<close>
  | Json_out_of_range nat \<comment> \<open>\<open>JSON_THROW(out_of_range::create(id, ...))\<close>\<close>
  | Parse_error nat string \<comment> \<open>\<open>JSON_THROW(parse_error::create(id, ...))\<close> with its message\<close>
  | Std_out_of_range      \<comment> \<open>\<open>std::vector::at\<close> outside the vector\<close>
  | Std_length_error      \<comment> \<open>a \<open>std::vector\<close> of a size that is too large\<close>
  | Runtime_error         \<comment> \<open>\<open>throw std::runtime_error\<close> (demo/c++)\<close>
  | Undefined_behaviour   \<comment> \<open>an access outside an object or to a terminator\<close>

definition ebind :: "failure + 'a \<Rightarrow> ('a \<Rightarrow> failure + 'b) \<Rightarrow> failure + 'b" where
  "ebind m f = (case m of Inl e \<Rightarrow> Inl e | Inr x \<Rightarrow> f x)"

definition json_assert :: "bool \<Rightarrow> failure + unit" where
  "json_assert b = (if b then Inr () else Inl Assertion_failed)"

lemma ebind_Inl [simp, result_simps]: "ebind (Inl e) f = Inl e"
  by (simp add: ebind_def)

lemma ebind_Inr [simp, result_simps]: "ebind (Inr x) f = f x"
  by (simp add: ebind_def)

lemma ebind_eq_Inr [result_simps]: "ebind m f = Inr y \<longleftrightarrow> (\<exists>x. m = Inr x \<and> f x = Inr y)"
  by (cases m) auto

lemma ebind_eq_Inl [result_simps]:
  "ebind m f = Inl e \<longleftrightarrow> m = Inl e \<or> (\<exists>x. m = Inr x \<and> f x = Inl e)"
  by (cases m) auto

lemma ebind_cong [fundef_cong]:
  "m = m' \<Longrightarrow> (\<And>x. m' = Inr x \<Longrightarrow> f x = f' x) \<Longrightarrow> ebind m f = ebind m' f'"
  by (cases m') auto

lemma ebind_assoc: "ebind (ebind m f) g = ebind m (\<lambda>x. ebind (f x) g)"
  by (cases m) auto

lemma ebind_return: "ebind m (\<lambda>x. Inr x) = m"
  by (cases m) auto

lemma json_assert_True [simp, result_simps]: "json_assert True = Inr ()"
  by (simp add: json_assert_def)

lemma json_assert_Inr [result_simps]: "json_assert b = Inr u \<longleftrightarrow> b"
  by (simp add: json_assert_def)

section \<open>Characters as bytes\<close>

definition byte_of :: "char \<Rightarrow> byte" where
  "byte_of c = of_char c"

definition char_of_byte :: "byte \<Rightarrow> char" where
  "char_of_byte b = char_of (unat b)"

abbreviation bytes_of :: "string \<Rightarrow> byte list" where
  "bytes_of s \<equiv> map byte_of s"

abbreviation string_of_bytes :: "byte list \<Rightarrow> string" where
  "string_of_bytes bs \<equiv> map char_of_byte bs"

lemma byte_of_nat: "byte_of c = word_of_nat (of_char c)"
proof -
  have "(of_nat (of_char c :: nat) :: byte) = of_char c"
    by (cases c) (simp add: of_char_def horner_sum_simps)
  then show ?thesis by (simp add: byte_of_def)
qed

lemma unat_byte_of [byte_simps]: "unat (byte_of c) = of_char c"
  by (simp add: byte_of_nat unat_of_nat)

lemma char_of_byte_of [simp, byte_simps]: "char_of_byte (byte_of c) = c"
  by (simp add: char_of_byte_def unat_byte_of)

lemma unat_byte_less [byte_simps]: "unat (b :: byte) < 256"
proof -
  have "unat b < 2 ^ LENGTH(8)" by (rule unsigned_less)
  then show ?thesis by simp
qed

lemma byte_of_char_of_byte [simp, byte_simps]: "byte_of (char_of_byte b) = b"
  by (simp add: byte_of_nat char_of_byte_def unat_byte_less)

lemma string_of_bytes_of [simp]: "string_of_bytes (bytes_of s) = s"
  by (induction s) auto

lemma bytes_of_string_of [simp]: "bytes_of (string_of_bytes bs) = bs"
  by (induction bs) auto

lemma map_char_of_byte_of [simp]: "map (char_of_byte \<circ> byte_of) s = s"
  by (simp add: comp_def)

lemma map_byte_of_char_of [simp]: "map (byte_of \<circ> char_of_byte) bs = bs"
  by (simp add: comp_def)

lemma byte_of_inject [simp]: "byte_of c = byte_of d \<longleftrightarrow> c = d"
  by (metis char_of_byte_of)

text \<open>A decision procedure for facts about one byte: check the 256 values.\<close>

lemma all_bytes: "(\<forall>b::byte. P b) \<longleftrightarrow> (\<forall>n\<in>set [0..<256]. P (word_of_nat n))"
proof
  assume all: "\<forall>n\<in>set [0..<256]. P (word_of_nat n)"
  show "\<forall>b::byte. P b"
  proof
    fix b :: byte
    have "unat b \<in> set [0..<256]" using unat_byte_less [of b] by simp
    with all have "P (word_of_nat (unat b))" by blast
    then show "P b" by simp
  qed
qed blast

lemma small_byte_cases:
  assumes "\<forall>n\<in>set [0..<64]. P (word_of_nat n)" and "(b :: byte) < 64"
  shows "P b"
proof -
  have "unat b \<in> set [0..<64]" using assms(2) by (simp add: word_less_nat_alt)
  with assms(1) have "P (word_of_nat (unat b))" by blast
  then show ?thesis by simp
qed

text \<open>Equations between bytes, bit by bit.\<close>

lemma bit_byte_beyond [byte_simps]: "8 \<le> n \<Longrightarrow> bit (x :: byte) n = False"
  using bit_imp_le_length [of x n] by auto

lemma byte_eqI:
  assumes "\<And>n. n \<in> {0, 1, Suc (Suc 0), Suc (Suc (Suc 0)), 4, 5, 6, 7} \<Longrightarrow> bit x n = bit y n"
  shows "x = (y :: byte)"
  using assms by (intro bit_word_eqI) (auto simp: numeral_eq_Suc less_Suc_eq)

lemmas byte_bits =
  bit_simps bit_byte_beyond numeral_2_eq_2 [symmetric] numeral_3_eq_3 [symmetric]

section \<open>Raw buffers\<close>

text \<open>
  A \<open>char\<close> array or the storage of a \<open>std::string\<close> written by index.  An index outside the storage
  is undefined behaviour.
\<close>

definition buf_put :: "'a list \<Rightarrow> nat \<Rightarrow> 'a \<Rightarrow> failure + 'a list" where
  "buf_put out i v = (if i < length out then Inr (out[i := v]) else Inl Undefined_behaviour)"

definition buf_get :: "'a list \<Rightarrow> nat \<Rightarrow> failure + 'a" where
  "buf_get out i = (if i < length out then Inr (out ! i) else Inl Undefined_behaviour)"

lemma buf_put_append [simp, buffer_simps]:
  "i = length pre \<Longrightarrow> buf_put (pre @ x # post) i v = Inr (pre @ v # post)"
  by (simp add: buf_put_def)

lemma buf_get_append [simp, buffer_simps]:
  "i = length pre \<Longrightarrow> buf_get (pre @ x # post) i = Inr x"
  by (simp add: buf_get_def)

lemma buf_put_Inr_length [buffer_simps]: "buf_put out i v = Inr out' \<Longrightarrow> length out' = length out"
  by (auto simp: buf_put_def split: if_splits)

lemma buf_put_ok [buffer_simps]: "i < length out \<Longrightarrow> buf_put out i v = Inr (out[i := v])"
  by (simp add: buf_put_def)

lemma buf_get_ok [buffer_simps]: "i < length out \<Longrightarrow> buf_get out i = Inr (out ! i)"
  by (simp add: buf_get_def)

section \<open>Lists\<close>

lemma quad_induct [case_names Nil one two three more]:
  assumes "P []" and "\<And>a. P [a]" and "\<And>a b. P [a, b]" and "\<And>a b c. P [a, b, c]"
    and "\<And>a b c d xs. P xs \<Longrightarrow> P (a # b # c # d # xs)"
  shows "P xs"
  using assms by induction_schema (pat_completeness, lexicographic_order)

end
