(* ===== verification/Base64.thy ===== *)
theory Base64
  imports Prelude
begin

text \<open>
  The codec of \<^verbatim>\<open>src/src/common/encoding/base64.cpp\<close>: the two alphabets, the two encoders and the
  two decoders, loop by loop, on the string the code writes.  The decoders also write the terminator
  of that string, \<open>out[out.size()]\<close>: by the rules of \<open>std::string\<close> this is defined only if the
  value written is zero, and every other value is undefined behaviour.
\<close>

section \<open>Alphabets\<close>

definition base64_chars :: string where
  "base64_chars = ''ABCDEFGHIJKLMNOPQRSTUVWXYZabcdefghijklmnopqrstuvwxyz0123456789+/''"

definition to_base64_char :: "byte \<Rightarrow> char" where
  "to_base64_char b = (if b < 64 then base64_chars ! unat b else CHR ''?'')"

definition from_base64 :: "char \<Rightarrow> byte option" where
  "from_base64 c =
     (if CHR ''A'' \<le> c \<and> c \<le> CHR ''Z'' then Some (byte_of c - byte_of CHR ''A'')
      else if CHR ''a'' \<le> c \<and> c \<le> CHR ''z'' then Some (byte_of c - byte_of CHR ''a'' + 26)
      else if CHR ''0'' \<le> c \<and> c \<le> CHR ''9'' then Some (byte_of c - byte_of CHR ''0'' + 52)
      else if c = CHR ''-'' \<or> c = CHR ''_'' then Some (if c = CHR ''-'' then 62 else 63)
      else None)"

definition base64url_chars :: string where
  "base64url_chars = ''ABCDEFGHIJKLMNOPQRSTUVWXYZabcdefghijklmnopqrstuvwxyz0123456789-_''"

definition to_base64url_char :: "byte \<Rightarrow> char" where
  "to_base64url_char b = (if b < 64 then base64url_chars ! unat b else CHR ''?'')"

definition from_base64url :: "char \<Rightarrow> byte option" where
  "from_base64url c =
     (if CHR ''A'' \<le> c \<and> c \<le> CHR ''Z'' then Some (byte_of c - byte_of CHR ''A'')
      else if CHR ''a'' \<le> c \<and> c \<le> CHR ''z'' then Some (byte_of c - byte_of CHR ''a'' + 26)
      else if CHR ''0'' \<le> c \<and> c \<le> CHR ''9'' then Some (byte_of c - byte_of CHR ''0'' + 52)
      else if c = CHR ''-'' \<or> c = CHR ''_'' then Some (if c = CHR ''-'' then 62 else 63)
      else None)"

section \<open>Decoders\<close>

text \<open>
  The variables of the decoding loop.  \<open>d_out\<close> holds the characters of \<open>out\<close>, which are of type \<open>char\<close>;
  \<open>|=\<close> works on their bits.
\<close>

record decoder =
  d_out :: "byte list"
  d_out_idx :: nat
  d_carry :: bool
  d_bits_to_read :: byte
  d_final_shift :: byte

text \<open>
  \<open>out[i]\<close> of a \<open>std::string\<close>: at \<open>i = size()\<close> it denotes a zero character that may be read and may be
  overwritten by zero only; beyond that there is no character.
\<close>

definition str_get :: "byte list \<Rightarrow> nat \<Rightarrow> failure + byte" where
  "str_get out i =
     (if i < length out then Inr (out ! i) else if i = length out then Inr 0 else Inl Undefined_behaviour)"

definition str_put :: "byte list \<Rightarrow> nat \<Rightarrow> byte \<Rightarrow> failure + byte list" where
  "str_put out i v =
     (if i < length out then Inr (out[i := v])
      else if i = length out \<and> v = 0 then Inr out else Inl Undefined_behaviour)"

definition str_or :: "byte list \<Rightarrow> nat \<Rightarrow> byte \<Rightarrow> failure + byte list" where
  "str_or out i v = ebind (str_get out i) (\<lambda>x. str_put out i (x OR v))"

text \<open>
  One iteration of the loop: \<open>Inr None\<close> is the early \<open>return std::nullopt\<close>.  The two decoders have
  the same body but for the character table they consult, which is the parameter \<open>from\<close>.
\<close>

definition decode_step :: "(char \<Rightarrow> byte option) \<Rightarrow> char \<Rightarrow> decoder \<Rightarrow> failure + decoder option"
where
  "decode_step from c st =
     (if d_bits_to_read st = 6 then
        (case from c of
           None \<Rightarrow> Inr None
         | Some val \<Rightarrow>
             ebind (str_or (d_out st) (d_out_idx st)
                      (push_bit (if d_carry st then 0 else 2) (val AND 0x3F)))
               (\<lambda>out. Inr (Some (st\<lparr>d_out := out,
                  d_out_idx := d_out_idx st + (if d_carry st then 1 else 0),
                  d_bits_to_read := (if d_carry st then 6 else 2),
                  d_final_shift := (if d_carry st then 0 else 2),
                  d_carry := False\<rparr>))))
      else if d_bits_to_read st = 2 then
        (case from c of
           None \<Rightarrow> Inr None
         | Some val \<Rightarrow>
             ebind (str_or (d_out st) (d_out_idx st) (drop_bit 4 (val AND 0x30)))
               (\<lambda>out. ebind (str_or out (d_out_idx st + 1) (push_bit 4 (val AND 0x0F)))
                 (\<lambda>out. Inr (Some (st\<lparr>d_out := out, d_out_idx := d_out_idx st + 1,
                    d_bits_to_read := 4, d_final_shift := 4\<rparr>)))))
      else if d_bits_to_read st = 4 then
        (case from c of
           None \<Rightarrow> Inr None
         | Some val \<Rightarrow>
             ebind (str_or (d_out st) (d_out_idx st) (drop_bit 2 (val AND 0x3C)))
               (\<lambda>out. ebind (str_or out (d_out_idx st + 1) (push_bit 6 (val AND 0x03)))
                 (\<lambda>out. Inr (Some (st\<lparr>d_out := out, d_out_idx := d_out_idx st + 1,
                    d_carry := True, d_bits_to_read := 6, d_final_shift := 6\<rparr>)))))
      else Inr None)"

fun decode_loop :: "(char \<Rightarrow> byte option) \<Rightarrow> string \<Rightarrow> decoder \<Rightarrow> failure + decoder option" where
  "decode_loop from [] st = Inr (Some st)"
| "decode_loop from (c # cs) st =
     ebind (decode_step from c st)
       (\<lambda>r. case r of None \<Rightarrow> Inr None | Some st' \<Rightarrow> decode_loop from cs st')"

text \<open>
  The string when the function returns: \<open>out[out_idx] >>= final_shift\<close> shifts a \<open>char\<close>, which is
  signed.
\<close>

definition decode_storage :: "(char \<Rightarrow> byte option) \<Rightarrow> string \<Rightarrow> failure + byte list option" where
  "decode_storage from base64 =
     (let char_count = (length base64 * 6) div 8 in
      if char_count = 0 then Inr (Some [])
      else
        ebind (decode_loop from base64
                 \<lparr>d_out = replicate char_count 0, d_out_idx = 0, d_carry = False,
                  d_bits_to_read = 6, d_final_shift = 0\<rparr>)
          (\<lambda>r. case r of
                 None \<Rightarrow> Inr None
               | Some st \<Rightarrow>
                   ebind (str_get (d_out st) (d_out_idx st))
                     (\<lambda>x. ebind (str_put (d_out st) (d_out_idx st)
                                   (signed_drop_bit (unat (d_final_shift st)) x))
                       (\<lambda>out. Inr (Some out)))))"

definition decode_base64 :: "string \<Rightarrow> failure + string option" where
  "decode_base64 base64 =
     ebind (decode_storage from_base64 base64) (\<lambda>r. Inr (map_option (\<lambda>out. string_of_bytes out) r))"

definition decode_base64url :: "string \<Rightarrow> failure + string option" where
  "decode_base64url base64 =
     ebind (decode_storage from_base64url base64) (\<lambda>r. Inr (map_option (\<lambda>out. string_of_bytes out) r))"

section \<open>Encoders\<close>

record encoder =
  e_out :: string
  e_out_idx :: nat
  e_carry :: byte
  e_carry_bits :: byte

definition encode_base64_step :: "byte \<Rightarrow> encoder \<Rightarrow> failure + encoder option" where
  "encode_base64_step b st =
     (if e_carry_bits st = 0 then
        ebind (buf_put (e_out st) (e_out_idx st) (to_base64_char (drop_bit 2 (b AND 0xFC))))
          (\<lambda>out. Inr (Some (st\<lparr>e_out := out, e_out_idx := e_out_idx st + 1,
             e_carry := push_bit 4 (b AND 0x03), e_carry_bits := 2\<rparr>)))
      else if e_carry_bits st = 2 then
        ebind (buf_put (e_out st) (e_out_idx st)
                 (to_base64url_char (e_carry st OR drop_bit 4 (b AND 0xF0))))
          (\<lambda>out. Inr (Some (st\<lparr>e_out := out, e_out_idx := e_out_idx st + 1,
             e_carry := push_bit 2 (b AND 0x0F), e_carry_bits := 4\<rparr>)))
      else if e_carry_bits st = 4 then
        ebind (buf_put (e_out st) (e_out_idx st)
                 (to_base64_char (e_carry st OR drop_bit 6 (b AND 0xC0))))
          (\<lambda>out. ebind (buf_put out (e_out_idx st + 1) (to_base64_char (b AND 0x3F)))
            (\<lambda>out. Inr (Some (st\<lparr>e_out := out, e_out_idx := e_out_idx st + 2,
               e_carry := 0, e_carry_bits := 0\<rparr>))))
      else Inr None)"

definition encode_base64url_step :: "byte \<Rightarrow> encoder \<Rightarrow> failure + encoder option" where
  "encode_base64url_step b st =
     (if e_carry_bits st = 0 then
        ebind (buf_put (e_out st) (e_out_idx st) (to_base64url_char (drop_bit 2 (b AND 0xFC))))
          (\<lambda>out. Inr (Some (st\<lparr>e_out := out, e_out_idx := e_out_idx st + 1,
             e_carry := push_bit 4 (b AND 0x03), e_carry_bits := 2\<rparr>)))
      else if e_carry_bits st = 2 then
        ebind (buf_put (e_out st) (e_out_idx st)
                 (to_base64url_char (e_carry st OR drop_bit 4 (b AND 0xF0))))
          (\<lambda>out. Inr (Some (st\<lparr>e_out := out, e_out_idx := e_out_idx st + 1,
             e_carry := push_bit 2 (b AND 0x0F), e_carry_bits := 4\<rparr>)))
      else if e_carry_bits st = 4 then
        ebind (buf_put (e_out st) (e_out_idx st)
                 (to_base64url_char (e_carry st OR drop_bit 6 (b AND 0xC0))))
          (\<lambda>out. ebind (buf_put out (e_out_idx st + 1) (to_base64url_char (b AND 0x3F)))
            (\<lambda>out. Inr (Some (st\<lparr>e_out := out, e_out_idx := e_out_idx st + 2,
               e_carry := 0, e_carry_bits := 0\<rparr>))))
      else Inr None)"

fun encode_loop :: "(byte \<Rightarrow> encoder \<Rightarrow> failure + encoder option) \<Rightarrow> byte list \<Rightarrow> encoder
    \<Rightarrow> failure + encoder option" where
  "encode_loop step [] st = Inr (Some st)"
| "encode_loop step (b # bs) st =
     ebind (step b st)
       (\<lambda>r. case r of None \<Rightarrow> Inr None | Some st' \<Rightarrow> encode_loop step bs st')"

text \<open>The trailing \<open>while (out_idx < char_count)\<close>.\<close>

function encode_flush :: "(byte \<Rightarrow> char) \<Rightarrow> nat \<Rightarrow> string \<Rightarrow> nat \<Rightarrow> byte \<Rightarrow> failure + string" where
  "encode_flush to_char char_count out out_idx carry =
     (if out_idx < char_count
      then ebind (buf_put out out_idx (to_char carry))
             (\<lambda>out. encode_flush to_char char_count out (out_idx + 1) 0)
      else Inr out)"
  by pat_completeness auto
termination
  by (relation "measure (\<lambda>(_, char_count, _, out_idx, _). char_count - out_idx)") auto

declare encode_flush.simps [simp del]

definition encode_base64 :: "string \<Rightarrow> failure + string option" where
  "encode_base64 data =
     (let char_count = (length data * 8 + 5) div 6;
          padding = length data mod 3 in
      if length data = 0 then Inr (Some [])
      else
        ebind (encode_loop encode_base64_step (bytes_of data)
                 \<lparr>e_out = replicate char_count (char_of_byte 0), e_out_idx = 0,
                  e_carry = 0, e_carry_bits = 0\<rparr>)
          (\<lambda>r. case r of
                 None \<Rightarrow> Inr None
               | Some st \<Rightarrow>
                   ebind (encode_flush to_base64_char char_count (e_out st) (e_out_idx st) (e_carry st))
                     (\<lambda>out. Inr (Some (out @ replicate padding CHR ''='')))))"

definition encode_base64url :: "string \<Rightarrow> failure + string option" where
  "encode_base64url data =
     (let char_count = (length data * 8 + 5) div 6 in
      if length data = 0 then Inr (Some [])
      else
        ebind (encode_loop encode_base64url_step (bytes_of data)
                 \<lparr>e_out = replicate char_count (char_of_byte 0), e_out_idx = 0,
                  e_carry = 0, e_carry_bits = 0\<rparr>)
          (\<lambda>r. case r of
                 None \<Rightarrow> Inr None
               | Some st \<Rightarrow>
                   ebind (encode_flush to_base64url_char char_count (e_out st) (e_out_idx st)
                            (e_carry st))
                     (\<lambda>out. Inr (Some out))))"

section \<open>The reference encoding\<close>

text \<open>RFC 4648, block by block: the sextets of a byte string.\<close>

fun sextets :: "byte list \<Rightarrow> byte list" where
  "sextets [] = []"
| "sextets [a] = [drop_bit 2 a, push_bit 4 (a AND 3)]"
| "sextets [a, b] =
     [drop_bit 2 a, push_bit 4 (a AND 3) OR drop_bit 4 b, push_bit 2 (b AND 15)]"
| "sextets (a # b # c # bs) =
     [drop_bit 2 a, push_bit 4 (a AND 3) OR drop_bit 4 b,
      push_bit 2 (b AND 15) OR drop_bit 6 c, c AND 63] @ sextets bs"

text \<open>The bits of a byte and of a sextet, most significant first.\<close>

definition byte_msb_bits :: "byte \<Rightarrow> bool list" where
  "byte_msb_bits b = map (bit b) [7, 6, 5, 4, 3, 2, 1, 0]"

definition sextet_bits :: "byte \<Rightarrow> bool list" where
  "sextet_bits b = map (bit b) [5, 4, 3, 2, 1, 0]"

lemma length_sextets: "length (sextets bs) = (length bs * 8 + 5) div 6"
  by (induction bs rule: sextets.induct) auto

lemma high_bits_clear: "\<not> bit (x :: byte) 6 \<Longrightarrow> \<not> bit x 7 \<Longrightarrow> x < 64"
proof -
  assume "\<not> bit x 6" "\<not> bit x 7"
  then have x: "x = take_bit 6 x"
    by (intro byte_eqI) (auto simp: byte_bits)
  have "unat (take_bit 6 x) = take_bit 6 (unat x)"
    by (simp only: unsigned_take_bit_eq)
  then have "unat (take_bit 6 x) < 64"
    by (simp add: take_bit_eq_mod)
  with x show ?thesis by (simp add: word_less_nat_alt)
qed

lemma sextets_small: "x \<in> set (sextets bs) \<Longrightarrow> x < 64"
  by (induction bs rule: sextets.induct) (auto intro: high_bits_clear simp: byte_bits)

lemma sextet_block_bits:
  "sextet_bits (drop_bit 2 a) @ sextet_bits (push_bit 4 (a AND 3) OR drop_bit 4 b) @
   sextet_bits (push_bit 2 (b AND 15) OR drop_bit 6 c) @ sextet_bits (c AND 63) =
   byte_msb_bits a @ byte_msb_bits b @ byte_msb_bits c"
  by (simp add: sextet_bits_def byte_msb_bits_def byte_bits)

lemma sextets_bits:
  "concat (map sextet_bits (sextets bs)) =
   concat (map byte_msb_bits bs) @ replicate (6 * length (sextets bs) - 8 * length bs) False"
proof (induction bs rule: sextets.induct)
  case (2 a)
  have "replicate 4 False = [False, False, False, False]"
    by (simp add: numeral_eq_Suc)
  then show ?case by (simp add: sextet_bits_def byte_msb_bits_def byte_bits)
next
  case (3 a b)
  have "replicate 2 False = [False, False]"
    by (simp add: numeral_eq_Suc)
  then show ?case by (simp add: sextet_bits_def byte_msb_bits_def byte_bits)
next
  case (4 a b c bs)
  then show ?case using sextet_block_bits [of a b c] by simp
qed simp
section \<open>The encoder implements the reference\<close>

lemma url_masks:
  "drop_bit 2 (a :: byte) AND 63 = drop_bit 2 a"
  "drop_bit 4 (a :: byte) AND 15 = drop_bit 4 a"
  "drop_bit 6 (a :: byte) AND 3 = drop_bit 6 a"
  by (rule byte_eqI, auto simp: byte_bits)+

lemma encode_loop_block:
  "encode_loop encode_base64url_step (a # b # c # bs)
     \<lparr>e_out = pre @ w # x # y # z # post, e_out_idx = length pre, e_carry = 0, e_carry_bits = 0\<rparr> =
   encode_loop encode_base64url_step bs
     \<lparr>e_out = (pre @ map to_base64url_char (sextets [a, b, c])) @ post,
      e_out_idx = length (pre @ map to_base64url_char (sextets [a, b, c])),
      e_carry = 0, e_carry_bits = 0\<rparr>"
  by (simp add: encode_base64url_step_def buf_put_def url_masks list_update_append)

lemma encode_loop_flush:
  assumes "length post = length (sextets bs)" and "n = length pre + length post"
  shows
  "ebind (encode_loop encode_base64url_step bs
            \<lparr>e_out = pre @ post, e_out_idx = length pre, e_carry = 0, e_carry_bits = 0\<rparr>)
     (\<lambda>r. case r of
            None \<Rightarrow> Inr None
          | Some st \<Rightarrow> ebind (encode_flush to_base64url_char n (e_out st)
                               (e_out_idx st) (e_carry st)) (\<lambda>out. Inr (Some out))) =
   Inr (Some (pre @ map to_base64url_char (sextets bs)))"
  using assms
proof (induction bs arbitrary: pre post rule: sextets.induct)
  case 1
  then show ?case by (simp add: encode_flush.simps)
next
  case (2 a)
  then obtain x y where "post = [x, y]"
    by (auto simp: length_Suc_conv)
  with "2.prems" show ?case
    by (simp add: encode_base64url_step_def buf_put_def url_masks list_update_append encode_flush.simps)
next
  case (3 a b)
  then obtain x y z where "post = [x, y, z]"
    by (auto simp: length_Suc_conv)
  with "3.prems" show ?case
    by (simp add: encode_base64url_step_def buf_put_def url_masks list_update_append encode_flush.simps)
next
  case (4 a b c bs)
  then obtain w x y z post' where post: "post = w # x # y # z # post'"
    by (auto simp: length_Suc_conv)
  let ?pre = "pre @ map to_base64url_char (sextets [a, b, c])"
  from "4.prems" have "length post' = length (sextets bs)" "n = length ?pre + length post'"
    by (simp_all add: post)
  from "4.IH" [OF this] show ?case
    unfolding post encode_loop_block by simp
qed

lemma encode_base64url_sextets:
  "encode_base64url data = Inr (Some (map to_base64url_char (sextets (bytes_of data))))"
proof (cases "data = []")
  case True
  then show ?thesis by (simp add: encode_base64url_def)
next
  case False
  let ?n = "(length data * 8 + 5) div 6"
  have "length (replicate ?n (char_of_byte 0)) = length (sextets (bytes_of data))"
    by (simp add: length_sextets)
  from encode_loop_flush [OF this, of ?n "[]"] False show ?thesis
    by (simp add: encode_base64url_def Let_def)
qed

section \<open>What the decoders compute\<close>

text \<open>
  What the loop accumulates, as a function of the sextets: the characters of the output and, last, the value
  that goes to the terminator.
\<close>

fun cells :: "byte list \<Rightarrow> byte list" where
  "cells [] = [0]"
| "cells [v0] = [push_bit 2 (v0 AND 0x3F)]"
| "cells [v0, v1] = [push_bit 2 (v0 AND 0x3F) OR drop_bit 4 (v1 AND 0x30), push_bit 4 (v1 AND 0x0F)]"
| "cells [v0, v1, v2] =
     [push_bit 2 (v0 AND 0x3F) OR drop_bit 4 (v1 AND 0x30),
      push_bit 4 (v1 AND 0x0F) OR drop_bit 2 (v2 AND 0x3C), push_bit 6 (v2 AND 0x03)]"
| "cells (v0 # v1 # v2 # v3 # vs) =
     [push_bit 2 (v0 AND 0x3F) OR drop_bit 4 (v1 AND 0x30),
      push_bit 4 (v1 AND 0x0F) OR drop_bit 2 (v2 AND 0x3C),
      push_bit 6 (v2 AND 0x03) OR (v3 AND 0x3F)] @ cells vs"

fun sextet_values :: "(char \<Rightarrow> byte option) \<Rightarrow> string \<Rightarrow> byte list option" where
  "sextet_values from [] = Some []"
| "sextet_values from (c # cs) =
     (case from c of
        None \<Rightarrow> None
      | Some v \<Rightarrow> (case sextet_values from cs of None \<Rightarrow> None | Some vs \<Rightarrow> Some (v # vs)))"

lemma length_cells: "length (cells vs) = length vs * 6 div 8 + 1"
  by (induction vs rule: cells.induct) auto

lemma cells_not_Nil [simp]: "cells vs \<noteq> []"
  by (induction vs rule: cells.induct) auto

lemma str_or_inside [simp]:
  "i = length pre \<Longrightarrow> str_or (pre @ x # post) i v = Inr (pre @ (x OR v) # post)"
  "i = Suc (length pre) \<Longrightarrow> str_or (pre @ y # x # post) i v = Inr (pre @ y # (x OR v) # post)"
  "i = Suc (Suc (length pre)) \<Longrightarrow> str_or (pre @ y # z # x # post) i v = Inr (pre @ y # z # (x OR v) # post)"
  by (simp_all add: str_or_def str_get_def str_put_def nth_append list_update_append)

lemma str_or_terminator [simp]:
  "i = length out \<Longrightarrow> str_or out i v = (if v = 0 then Inr out else Inl Undefined_behaviour)"
  by (simp add: str_or_def str_get_def str_put_def)

lemma decode_block_reject:
  assumes "from a = None \<or> from b = None \<or> from c = None \<or> from d = None"
  shows "decode_loop from (a # b # c # d # cs)
     \<lparr>d_out = pre @ 0 # 0 # 0 # post, d_out_idx = length pre, d_carry = False,
      d_bits_to_read = 6, d_final_shift = 0\<rparr> = Inr None"
  using assms by (auto simp: decode_step_def split: option.split)

lemma decode_block_accept:
  assumes "from a = Some v0" "from b = Some v1" "from c = Some v2" "from d = Some v3"
  shows "decode_loop from (a # b # c # d # cs)
     \<lparr>d_out = pre @ 0 # 0 # 0 # post, d_out_idx = length pre, d_carry = False,
      d_bits_to_read = 6, d_final_shift = 0\<rparr> =
   decode_loop from cs
     \<lparr>d_out = (pre @ butlast (cells [v0, v1, v2, v3])) @ post, d_out_idx = length (pre @ butlast (cells [v0, v1, v2, v3])),
      d_carry = False, d_bits_to_read = 6, d_final_shift = 0\<rparr>"
  using assms by (simp add: decode_step_def)

lemma replicate_2: "replicate 2 x = [x, x]"
  by (simp add: numeral_2_eq_2)

lemma decode_loop_values:
  "decode_loop from cs
     \<lparr>d_out = pre @ replicate (length cs * 6 div 8) 0, d_out_idx = length pre, d_carry = False,
      d_bits_to_read = 6, d_final_shift = 0\<rparr> =
   (case sextet_values from cs of
      None \<Rightarrow> Inr None
    | Some vs \<Rightarrow>
        if last (cells vs) = 0
        then Inr (Some
          \<lparr>d_out = pre @ butlast (cells vs), d_out_idx = length pre + length cs * 6 div 8,
           d_carry = (length cs mod 4 = 3),
           d_bits_to_read = [6, 2, 4, 6] ! (length cs mod 4),
           d_final_shift = [0, 2, 4, 6] ! (length cs mod 4)\<rparr>)
        else Inl Undefined_behaviour)"
proof (induction cs arbitrary: pre rule: quad_induct)
  case (one a)
  then show ?case by (cases "from a") (simp_all add: decode_step_def)
next
  case (two a b)
  then show ?case by (cases "from a"; cases "from b") (simp_all add: decode_step_def)
next
  case (three a b c)
  then show ?case by (cases "from a"; cases "from b"; cases "from c") (simp_all add: decode_step_def replicate_2)
next
  case (more a b c d cs)
  have len: "(24 + length cs * 6) div 8 = 3 + 3 * length cs div 4" by arith
  have "length (a # b # c # d # cs) * 6 div 8 = Suc (Suc (Suc (length cs * 6 div 8)))" by simp
  then have rep: "replicate (length (a # b # c # d # cs) * 6 div 8) (0 :: byte) = 0 # 0 # 0 # replicate (length cs * 6 div 8) 0"
    by simp
  show ?case
  proof (cases "from a = None \<or> from b = None \<or> from c = None \<or> from d = None")
    case True
    moreover from True have "sextet_values from (a # b # c # d # cs) = None" by (auto split: option.splits)
    ultimately show ?thesis unfolding rep using decode_block_reject [OF True, of cs pre] by simp
  next
    case False
    then obtain v0 v1 v2 v3
      where v: "from a = Some v0" "from b = Some v1" "from c = Some v2" "from d = Some v3"
      by auto
    show ?thesis
      unfolding rep decode_block_accept [OF v] more.IH
      by (cases "sextet_values from cs") (simp_all add: v len)
  qed
qed simp

lemma length_sextet_values: "sextet_values from cs = Some vs \<Longrightarrow> length vs = length cs"
  by (induction cs arbitrary: vs) (auto split: option.splits)

text \<open>The result of a decoder, defined by the sextets alone.\<close>

definition decoded :: "(char \<Rightarrow> byte option) \<Rightarrow> string \<Rightarrow> failure + string option" where
  "decoded from s =
     (if length s < 2 then Inr (Some [])
      else
        (case sextet_values from s of
           None \<Rightarrow> Inr None
         | Some vs \<Rightarrow>
             if last (cells vs) = 0 then Inr (Some (string_of_bytes (butlast (cells vs)))) else Inl Undefined_behaviour))"

lemma decode_result:
  "ebind (decode_storage from s) (\<lambda>r. Inr (map_option (\<lambda>out. string_of_bytes out) r)) = decoded from s"
proof (cases "length s < 2")
  case True
  then have "length s * 6 div 8 = 0" by arith
  with True show ?thesis by (simp add: decode_storage_def decoded_def)
next
  case False
  then have "length s * 6 div 8 \<noteq> 0" by arith
  then show ?thesis
    using decode_loop_values [of "from" s "[]"] False
    by (auto simp: decode_storage_def decoded_def Let_def str_get_def str_put_def length_cells length_sextet_values
        split: option.splits)
qed

lemma decode_base64url_decoded: "decode_base64url s = decoded from_base64url s"
  by (simp add: decode_base64url_def decode_result)

lemma decode_base64_decoded: "decode_base64 s = decoded from_base64 s"
  by (simp add: decode_base64_def decode_result)

text \<open>
  Read as bits, the characters of the output are the sextets up to the last whole byte, and the value for
  the terminator holds the bits that are left over.
\<close>

definition sextets_msb :: "byte list \<Rightarrow> bool list" where
  "sextets_msb vs = concat (map sextet_bits vs)"

definition whole_bits :: "'a list \<Rightarrow> nat" where
  "whole_bits vs = 8 * (length vs * 6 div 8)"

lemma byte_zero: "x = (0 :: byte) \<longleftrightarrow> (\<forall>n\<in>{0, 1, 2, 3, 4, 5, 6, 7}. \<not> bit x n)"
  using byte_eqI [of x 0] by (auto simp: numeral_2_eq_2 [symmetric] numeral_3_eq_3 [symmetric])

lemma cells_bits:
  "concat (map byte_msb_bits (butlast (cells vs))) = take (whole_bits vs) (sextets_msb vs) \<and>
   (last (cells vs) \<noteq> 0 \<longleftrightarrow> True \<in> set (drop (whole_bits vs) (sextets_msb vs)))"
proof (induction vs rule: cells.induct)
  case (5 v0 v1 v2 v3 vs)
  let ?b = "butlast (cells [v0, v1, v2, v3])"
  have w: "whole_bits (v0 # v1 # v2 # v3 # vs) = 24 + whole_bits vs" unfolding whole_bits_def list.size by arith
  have b: "concat (map byte_msb_bits ?b) = sextets_msb [v0, v1, v2, v3]"
    by (simp add: sextets_msb_def sextet_bits_def byte_msb_bits_def byte_bits)
  have l: "length (sextets_msb [v0, v1, v2, v3]) = 24" by (simp add: sextets_msb_def sextet_bits_def)
  have a: "sextets_msb (v0 # v1 # v2 # v3 # vs) = sextets_msb [v0, v1, v2, v3] @ sextets_msb vs"
    by (simp add: sextets_msb_def)
  have "cells (v0 # v1 # v2 # v3 # vs) = ?b @ cells vs" by simp
  then show ?case using 5 b l by (simp add: w a butlast_append del: cells.simps)
qed (auto simp: whole_bits_def sextets_msb_def sextet_bits_def byte_msb_bits_def byte_bits byte_zero)

text \<open>The texts on which \<open>decode_base64\<close> writes a one into the terminator.\<close>

definition leaves_bits :: "string \<Rightarrow> bool" where
  "leaves_bits s \<longleftrightarrow> 2 \<le> length s \<and>
     (case sextet_values from_base64 s of
        None \<Rightarrow> False
      | Some vs \<Rightarrow> True \<in> set (drop (8 * (length s * 6 div 8)) (concat (map sextet_bits vs))))"

lemma decode_base64_undefined: "decode_base64 s = Inl e \<longleftrightarrow> e = Undefined_behaviour \<and> leaves_bits s"
proof (cases "sextet_values from_base64 s")
  case (Some vs)
  then have "length vs = length s" by (rule length_sextet_values)
  then show ?thesis
    using Some cells_bits [of vs]
    by (auto simp: decode_base64_decoded decoded_def leaves_bits_def whole_bits_def sextets_msb_def)
qed (simp add: decode_base64_decoded decoded_def leaves_bits_def)

section \<open>Round trips\<close>

lemma cells_sextets: "cells (sextets bs) = bs @ [0]"
proof (induction bs rule: sextets.induct)
  case (4 a b c bs)
  have "butlast (cells (sextets [a, b, c])) = [a, b, c]"
    by (auto intro!: byte_eqI simp: byte_bits)
  with 4 show ?case by simp
qed (auto intro!: byte_eqI simp: byte_bits)

text \<open>
  A character table and its inverse on sextets: what a decoder needs to read back what an
  encoder wrote.
\<close>

locale sextet_alphabet =
  fixes enc :: "byte \<Rightarrow> char" and dec :: "char \<Rightarrow> byte option"
  assumes dec_enc: "b < 64 \<Longrightarrow> dec (enc b) = Some b"
begin

lemma sextet_values_enc: "\<forall>v\<in>set vs. v < 64 \<Longrightarrow> sextet_values dec (map enc vs) = Some vs"
  by (induction vs) (auto simp: dec_enc)

lemma decoded_sextets: "decoded dec (map enc (sextets bs)) = Inr (Some (string_of_bytes bs))"
proof (cases bs)
  case Nil
  then show ?thesis by (simp add: decoded_def)
next
  case (Cons a bs')
  then have "\<not> length (sextets bs) < 2"
    by (simp add: length_sextets)
  then show ?thesis
    by (simp add: decoded_def sextet_values_enc sextets_small cells_sextets)
qed

end

lemma from_base64url_to: "b < 64 \<Longrightarrow> from_base64url (to_base64url_char b) = Some b"
  by (rule small_byte_cases) code_simp

lemma from_base64_eq: "from_base64 = from_base64url"
  by (rule ext) (simp only: from_base64_def from_base64url_def)

interpretation url: sextet_alphabet to_base64url_char from_base64url
  by unfold_locales (rule from_base64url_to)

section \<open>What the padded encoder computes\<close>

text \<open>
  \<open>encode_base64\<close> emits the second character of a block through the URL-safe table and appends
  \<open>length mod 3\<close> padding characters.
\<close>

fun base64_blocks :: "byte list \<Rightarrow> string" where
  "base64_blocks [] = []"
| "base64_blocks [a] = map to_base64_char (sextets [a])"
| "base64_blocks [a, b] =
     [to_base64_char (drop_bit 2 a), to_base64url_char (push_bit 4 (a AND 3) OR drop_bit 4 b),
      to_base64_char (push_bit 2 (b AND 15))]"
| "base64_blocks (a # b # c # bs) =
     [to_base64_char (drop_bit 2 a), to_base64url_char (push_bit 4 (a AND 3) OR drop_bit 4 b),
      to_base64_char (push_bit 2 (b AND 15) OR drop_bit 6 c), to_base64_char (c AND 63)]
     @ base64_blocks bs"

lemma length_base64_blocks: "length (base64_blocks bs) = (length bs * 8 + 5) div 6"
  by (induction bs rule: base64_blocks.induct) auto

lemma encode_base64_block:
  "encode_loop encode_base64_step (a # b # c # bs)
     \<lparr>e_out = pre @ w # x # y # z # post, e_out_idx = length pre, e_carry = 0, e_carry_bits = 0\<rparr> =
   encode_loop encode_base64_step bs
     \<lparr>e_out = (pre @ base64_blocks [a, b, c]) @ post,
      e_out_idx = length (pre @ base64_blocks [a, b, c]),
      e_carry = 0, e_carry_bits = 0\<rparr>"
  by (simp add: encode_base64_step_def buf_put_def url_masks list_update_append)

lemma encode_base64_flush:
  assumes "length post = length (base64_blocks bs)" and "n = length pre + length post"
  shows
  "ebind (encode_loop encode_base64_step bs
            \<lparr>e_out = pre @ post, e_out_idx = length pre, e_carry = 0, e_carry_bits = 0\<rparr>)
     (\<lambda>r. case r of
            None \<Rightarrow> Inr None
          | Some st \<Rightarrow> ebind (encode_flush to_base64_char n (e_out st)
                               (e_out_idx st) (e_carry st))
                         (\<lambda>out. Inr (Some (out @ replicate p CHR ''=''))))=
   Inr (Some (pre @ base64_blocks bs @ replicate p CHR ''=''))"
  using assms
proof (induction bs arbitrary: pre post rule: base64_blocks.induct)
  case 1
  then show ?case by (simp add: encode_flush.simps)
next
  case (2 a)
  then obtain x y where "post = [x, y]"
    by (auto simp: length_Suc_conv)
  with "2.prems" show ?case
    by (simp add: encode_base64_step_def buf_put_def url_masks list_update_append encode_flush.simps)
next
  case (3 a b)
  then obtain x y z where "post = [x, y, z]"
    by (auto simp: length_Suc_conv)
  with "3.prems" show ?case
    by (simp add: encode_base64_step_def buf_put_def url_masks list_update_append encode_flush.simps)
next
  case (4 a b c bs)
  then obtain w x y z post' where post: "post = w # x # y # z # post'"
    by (auto simp: length_Suc_conv)
  let ?pre = "pre @ base64_blocks [a, b, c]"
  from "4.prems" have "length post' = length (base64_blocks bs)" "n = length ?pre + length post'"
    by (simp_all add: post)
  from "4.IH" [OF this] show ?case
    unfolding post encode_base64_block by simp
qed

lemma encode_base64_result:
  "encode_base64 data =
   Inr (Some (base64_blocks (bytes_of data) @ replicate (length data mod 3) CHR ''=''))"
proof (cases "data = []")
  case True
  then show ?thesis by (simp add: encode_base64_def)
next
  case False
  let ?n = "(length data * 8 + 5) div 6"
  have "length (replicate ?n (char_of_byte 0)) = length (base64_blocks (bytes_of data))"
    by (simp add: length_base64_blocks)
  from encode_base64_flush [OF this, of ?n "[]" "length data mod 3"] False show ?thesis
    by (simp add: encode_base64_def Let_def)
qed

lemma sextet_values_None: "c \<in> set s \<Longrightarrow> from c = None \<Longrightarrow> sextet_values from s = None"
  by (induction s) (auto split: option.splits)

lemma sextet_values_None_iff: "sextet_values from s = None \<longleftrightarrow> (\<exists>c\<in>set s. from c = None)"
  by (induction s) (auto split: option.splits)

lemma base64_chars_no_pad: "to_base64_char b \<noteq> CHR ''=''" "to_base64url_char b \<noteq> CHR ''=''"
proof -
  have "\<forall>b. to_base64_char b \<noteq> CHR ''='' \<and> to_base64url_char b \<noteq> CHR ''=''" unfolding all_bytes by code_simp
  then show "to_base64_char b \<noteq> CHR ''=''" "to_base64url_char b \<noteq> CHR ''=''" by blast+
qed

lemma base64_blocks_no_pad: "CHR ''='' \<notin> set (base64_blocks bs)"
  by (induction bs rule: base64_blocks.induct) (auto simp: base64_chars_no_pad base64_chars_no_pad [symmetric])

section \<open>Properties\<close>

text \<open>C25. Whatever \<open>encode_base64url\<close> produces, \<open>decode_base64url\<close> reads back, byte for byte; so does
  \<open>decode_base64\<close>, which is the decoder the identifiers are read with.  Neither direction can
  leave its storage or give up.\<close>

theorem base64url_roundtrip:
  "\<exists>s. encode_base64url data = Inr (Some s) \<and> decode_base64url s = Inr (Some data) \<and>
       decode_base64 s = Inr (Some data)"
  by (simp add: encode_base64url_sextets decode_base64url_decoded decode_base64_decoded
      from_base64_eq url.decoded_sextets)

text \<open>C26. \<open>encode_base64url\<close> is the RFC 4648 encoding without padding: its characters, read as six bits
  each, are the bits of the input followed by fewer than six zero bits.\<close>

theorem encode_base64url_bits:
  "\<exists>vs. encode_base64url data = Inr (Some (map to_base64url_char vs)) \<and>
        list_all (\<lambda>v. v < 64) vs \<and>
        (\<exists>k<6. concat (map sextet_bits vs) =
               concat (map byte_msb_bits (bytes_of data)) @ replicate k False)"
proof -
  let ?vs = "sextets (bytes_of data)"
  have "6 * length ?vs - 8 * length (bytes_of data) < 6"
    by (simp add: length_sextets)
  then show ?thesis
    by (intro exI [of _ ?vs]) (auto simp: encode_base64url_sextets list_all_iff sextets_small sextets_bits)
qed

text \<open>C27. \<open>decode_base64url\<close> on every string.  A string of less than two characters yields the empty string unread.
  Otherwise it is rejected exactly if a character is outside the alphabet; if not, its
  characters are read as six bits each, the whole bytes among these bits are the output, and the bits
  left over must be zero: a one among them is stored into the terminator of the result, which is undefined behaviour.\<close>

theorem decode_base64url_exact:
  "case decode_base64url s of
     Inr (Some out) \<Rightarrow>
       length s < 2 \<and> out = '''' \<or>
       2 \<le> length s \<and> (\<exists>vs. sextet_values from_base64url s = Some vs \<and>
         concat (map byte_msb_bits (bytes_of out)) = take (8 * (length s * 6 div 8)) (concat (map sextet_bits vs)) \<and>
         True \<notin> set (drop (8 * (length s * 6 div 8)) (concat (map sextet_bits vs))))
   | Inr None \<Rightarrow> 2 \<le> length s \<and> (\<exists>c\<in>set s. from_base64url c = None)
   | Inl e \<Rightarrow> e = Undefined_behaviour \<and> 2 \<le> length s \<and> (\<exists>vs. sextet_values from_base64url s = Some vs \<and>
       True \<in> set (drop (8 * (length s * 6 div 8)) (concat (map sextet_bits vs))))"
proof (cases "length s < 2")
  case False
  show ?thesis
  proof (cases "sextet_values from_base64url s")
    case None
    with False show ?thesis
      by (simp add: decode_base64url_decoded decoded_def sextet_values_None_iff [symmetric])
  next
    case (Some vs)
    then have "length vs = length s" by (rule length_sextet_values)
    with Some False show ?thesis
      using cells_bits [of vs] by (auto simp: decode_base64url_decoded decoded_def whole_bits_def sextets_msb_def)
  qed
qed (simp add: decode_base64url_decoded decoded_def)

text \<open>C28. \<open>encode_base64\<close> writes four characters for three bytes, rounded up, none of them a padding character, and then \<open>length mod 3\<close>
  padding characters: one where RFC 4648 has two and two where it has one.  So an input whose length is not a multiple
  of three gets a text whose length is not a multiple of four, and \<open>decode_base64\<close>, which knows
  no padding, rejects it.\<close>

theorem encode_base64_padding:
  "\<exists>str. encode_base64 data = Inr (Some (str @ replicate (length data mod 3) CHR ''='')) \<and>
     length str = (8 * length data + 5) div 6 \<and> CHR ''='' \<notin> set str \<and>
     (length data mod 3 \<noteq> 0 \<longrightarrow>
        \<not> 4 dvd length str + length data mod 3 \<and>
        decode_base64 (str @ replicate (length data mod 3) CHR ''='') = Inr None)"
proof -
  let ?p = "replicate (length data mod 3) CHR ''=''"
  let ?s = "base64_blocks (bytes_of data) @ ?p"
  have len: "length (base64_blocks (bytes_of data)) = (8 * length data + 5) div 6"
    by (simp add: length_base64_blocks mult.commute)
  have "\<not> 4 dvd length (base64_blocks (bytes_of data)) + length data mod 3 \<and> decode_base64 ?s = Inr None"
    if pos: "length data mod 3 \<noteq> 0"
  proof
    have "length data mod 3 = 1 \<or> length data mod 3 = 2" using pos by arith
    then show "\<not> 4 dvd length (base64_blocks (bytes_of data)) + length data mod 3" unfolding len by presburger
    have "CHR ''='' \<in> set ?s" using pos by (simp add: in_set_replicate)
    moreover have "from_base64 CHR ''='' = None" by code_simp
    ultimately have "sextet_values from_base64 ?s = None" by (rule sextet_values_None)
    moreover have "\<not> length ?s < 2" unfolding length_append len length_replicate using pos by arith
    ultimately show "decode_base64 ?s = Inr None"
      by (simp only: decode_base64_decoded decoded_def if_False option.case)
  qed
  then show ?thesis
    using len base64_blocks_no_pad
    by (intro exI [of _ "base64_blocks (bytes_of data)"] conjI impI) (simp_all add: encode_base64_result)
qed

theorem encode_base64_padding_witness:
  "encode_base64 ''M'' = Inr (Some ''TQ='') \<and> \<not> 4 dvd length ''TQ='' \<and> decode_base64 ''TQ='' = Inr None"
proof -
  have e: "encode_base64 ''M'' = Inr (Some ''TQ='')" by code_simp
  obtain str where t: "encode_base64 ''M'' = Inr (Some (str @ ''=''))"
      "\<not> 4 dvd length str + 1" "decode_base64 (str @ ''='') = Inr None"
    using encode_base64_padding [of "''M''"] by auto
  then have "str = ''TQ''" using e by simp
  with t e show ?thesis by simp
qed

end
