(* ===== verification/Json_Value.thy ===== *)
theory Json_Value
  imports Prelude
begin

text \<open>
  JSON values of the bundled library \<^verbatim>\<open>src/src/ext/nlohmann/json.hpp\<close> as the program uses them:
  the value type, type queries, element access, conversions out of a value and construction
  from an initializer list.  An object is a \<open>std::map\<close> ordered by \<open>std::less\<close> on the key's bytes: an
  association list with strictly increasing keys.  A number of type \<open>double\<close> is its IEEE 754 bit
  pattern.
\<close>

named_theorems json_simps "access to JSON values"

type_synonym double = "64 word"

datatype value_t =
    T_null | T_object | T_array | T_string | T_boolean | T_number_integer | T_number_unsigned
  | T_number_float | T_binary | T_discarded

datatype json =
    JNull
  | JObject "(string \<times> json) list"
  | JArray "json list"
  | JString string
  | JBoolean bool
  | JInteger u64            \<comment> \<open>\<open>std::int64_t\<close>, read with \<open>sint\<close>\<close>
  | JUnsigned u64
  | JFloat double
  | JBinary "byte list" "u64 option"
  | JDiscarded

section \<open>Ordered maps\<close>

fun map_find :: "(string \<times> 'a) list \<Rightarrow> string \<Rightarrow> 'a option" where
  "map_find [] k = None"
| "map_find ((k', v) # m) k = (if k = k' then Some v else map_find m k)"

text \<open>\<open>m[k] = v\<close>: insert at the key's place or overwrite.\<close>

fun map_put :: "(string \<times> 'a) list \<Rightarrow> string \<Rightarrow> 'a \<Rightarrow> (string \<times> 'a) list" where
  "map_put [] k v = [(k, v)]"
| "map_put ((k', v') # m) k v =
     (if k < k' then (k, v) # (k', v') # m
      else if k = k' then (k, v) # m
      else (k', v') # map_put m k v)"

text \<open>\<open>m.emplace(k, v)\<close>: an existing element stays.\<close>

definition map_emplace :: "(string \<times> 'a) list \<Rightarrow> string \<Rightarrow> 'a \<Rightarrow> (string \<times> 'a) list" where
  "map_emplace m k v = (case map_find m k of None \<Rightarrow> map_put m k v | Some _ \<Rightarrow> m)"

definition map_ok :: "(string \<times> 'a) list \<Rightarrow> bool" where
  "map_ok m = sorted_wrt (<) (map fst m)"

section \<open>Type queries\<close>

fun json_type :: "json \<Rightarrow> value_t" where
  "json_type JNull = T_null"
| "json_type (JObject _) = T_object"
| "json_type (JArray _) = T_array"
| "json_type (JString _) = T_string"
| "json_type (JBoolean _) = T_boolean"
| "json_type (JInteger _) = T_number_integer"
| "json_type (JUnsigned _) = T_number_unsigned"
| "json_type (JFloat _) = T_number_float"
| "json_type (JBinary _ _) = T_binary"
| "json_type JDiscarded = T_discarded"

definition is_null :: "json \<Rightarrow> bool" where
  "is_null j = (json_type j = T_null)"

definition is_boolean :: "json \<Rightarrow> bool" where
  "is_boolean j = (json_type j = T_boolean)"

definition is_number_integer :: "json \<Rightarrow> bool" where
  "is_number_integer j = (json_type j = T_number_integer \<or> json_type j = T_number_unsigned)"

definition is_number_unsigned :: "json \<Rightarrow> bool" where
  "is_number_unsigned j = (json_type j = T_number_unsigned)"

definition is_number_float :: "json \<Rightarrow> bool" where
  "is_number_float j = (json_type j = T_number_float)"

definition is_number :: "json \<Rightarrow> bool" where
  "is_number j = (is_number_integer j \<or> is_number_float j)"

definition is_object :: "json \<Rightarrow> bool" where
  "is_object j = (json_type j = T_object)"

definition is_array :: "json \<Rightarrow> bool" where
  "is_array j = (json_type j = T_array)"

definition is_string :: "json \<Rightarrow> bool" where
  "is_string j = (json_type j = T_string)"

definition is_binary :: "json \<Rightarrow> bool" where
  "is_binary j = (json_type j = T_binary)"

definition is_discarded :: "json \<Rightarrow> bool" where
  "is_discarded j = (json_type j = T_discarded)"

definition is_primitive :: "json \<Rightarrow> bool" where
  "is_primitive j = (is_null j \<or> is_string j \<or> is_boolean j \<or> is_number j \<or> is_binary j)"

definition is_structured :: "json \<Rightarrow> bool" where
  "is_structured j = (is_array j \<or> is_object j)"

section \<open>Element access\<close>

definition contains :: "json \<Rightarrow> string \<Rightarrow> bool" where
  "contains j key = (case j of JObject m \<Rightarrow> map_find m key \<noteq> None | _ \<Rightarrow> False)"

text \<open>\<open>at(key)\<close>: checked access.\<close>

definition json_at :: "json \<Rightarrow> string \<Rightarrow> failure + json" where
  "json_at j key =
     (case j of
        JObject m \<Rightarrow> (case map_find m key of None \<Rightarrow> Inl (Json_out_of_range 403) | Some v \<Rightarrow> Inr v)
      | _ \<Rightarrow> Inl (Type_error 304))"

text \<open>\<open>operator[](key) const\<close>: a missing key fails an assertion.\<close>

definition json_index :: "json \<Rightarrow> string \<Rightarrow> failure + json" where
  "json_index j key =
     (case j of
        JObject m \<Rightarrow> (case map_find m key of None \<Rightarrow> Inl Assertion_failed | Some v \<Rightarrow> Inr v)
      | _ \<Rightarrow> Inl (Type_error 305))"

text \<open>
  The mutable \<open>operator[](key)\<close>: null becomes an empty object and the key is created with null.
  The result is the object after the call; \<open>json_set\<close> is the assignment \<open>j[key] = v\<close> through the
  returned reference.
\<close>

definition json_index_ref :: "json \<Rightarrow> string \<Rightarrow> failure + json" where
  "json_index_ref j key =
     (case j of
        JNull \<Rightarrow> Inr (JObject (map_emplace [] key JNull))
      | JObject m \<Rightarrow> Inr (JObject (map_emplace m key JNull))
      | _ \<Rightarrow> Inl (Type_error 305))"

definition json_set :: "json \<Rightarrow> string \<Rightarrow> json \<Rightarrow> failure + json" where
  "json_set j key v =
     ebind (json_index_ref j key)
       (\<lambda>j'. case j' of JObject m \<Rightarrow> Inr (JObject (map_put m key v)) | _ \<Rightarrow> Inl Undefined_behaviour)"

text \<open>\<open>operator[](idx) const\<close> and \<open>at(idx) const\<close> on arrays.\<close>

definition json_index_nat :: "json \<Rightarrow> nat \<Rightarrow> failure + json" where
  "json_index_nat j idx =
     (case j of JArray xs \<Rightarrow> buf_get xs idx | _ \<Rightarrow> Inl (Type_error 305))"

definition json_at_nat :: "json \<Rightarrow> nat \<Rightarrow> failure + json" where
  "json_at_nat j idx =
     (case j of
        JArray xs \<Rightarrow> (if idx < length xs then Inr (xs ! idx) else Inl (Json_out_of_range 401))
      | _ \<Rightarrow> Inl (Type_error 304))"

fun json_empty :: "json \<Rightarrow> bool" where
  "json_empty JNull = True"
| "json_empty (JArray xs) = (xs = [])"
| "json_empty (JObject m) = (m = [])"
| "json_empty _ = False"

fun json_size :: "json \<Rightarrow> nat" where
  "json_size JNull = 0"
| "json_size (JArray xs) = length xs"
| "json_size (JObject m) = length m"
| "json_size _ = 1"

section \<open>Conversions\<close>

text \<open>
  \<open>static_cast\<close> of a \<open>double\<close> to an integer type truncates; a value outside the target type (or not
  finite) is undefined behaviour.
\<close>

definition double_negative :: "double \<Rightarrow> bool" where
  "double_negative d = bit d 63"

definition double_exponent :: "double \<Rightarrow> nat" where
  "double_exponent d = unat (drop_bit 52 d AND 0x7FF)"

definition double_fraction :: "double \<Rightarrow> nat" where
  "double_fraction d = unat (d AND 0xFFFFFFFFFFFFF)"

definition isfinite :: "double \<Rightarrow> bool" where
  "isfinite d = (double_exponent d \<noteq> 0x7FF)"

definition double_trunc :: "double \<Rightarrow> int" where
  "double_trunc d =
     (let m = (if double_exponent d = 0 then double_fraction d else 2 ^ 52 + double_fraction d);
          e = int (max 1 (double_exponent d)) - 1075;
          a = (if 0 \<le> e then m * 2 ^ nat e else m div 2 ^ nat (- e))
      in if double_negative d then - int a else int a)"

definition double_to_uint64 :: "double \<Rightarrow> failure + u64" where
  "double_to_uint64 d =
     (if isfinite d \<and> 0 \<le> double_trunc d \<and> double_trunc d < 2 ^ 64
      then Inr (word_of_int (double_trunc d)) else Inl Undefined_behaviour)"

definition double_to_int64 :: "double \<Rightarrow> failure + u64" where
  "double_to_int64 d =
     (if isfinite d \<and> - (2 ^ 63) \<le> double_trunc d \<and> double_trunc d < 2 ^ 63
      then Inr (word_of_int (double_trunc d)) else Inl Undefined_behaviour)"

text \<open>\<open>get_arithmetic_value\<close> at the target types \<open>uint64_t\<close> and \<open>int64_t\<close>.\<close>

definition get_uint64 :: "json \<Rightarrow> failure + u64" where
  "get_uint64 j =
     (case j of
        JUnsigned w \<Rightarrow> Inr w
      | JInteger w \<Rightarrow> Inr w
      | JFloat d \<Rightarrow> double_to_uint64 d
      | _ \<Rightarrow> Inl (Type_error 302))"

definition get_int64 :: "json \<Rightarrow> failure + u64" where
  "get_int64 j =
     (case j of
        JUnsigned w \<Rightarrow> Inr w
      | JInteger w \<Rightarrow> Inr w
      | JFloat d \<Rightarrow> double_to_int64 d
      | _ \<Rightarrow> Inl (Type_error 302))"

definition get_string :: "json \<Rightarrow> failure + string" where
  "get_string j = (case j of JString s \<Rightarrow> Inr s | _ \<Rightarrow> Inl (Type_error 302))"

definition get_string_view :: "json \<Rightarrow> failure + string" where
  "get_string_view j = (case j of JString s \<Rightarrow> Inr s | _ \<Rightarrow> Inl (Type_error 302))"

definition get_array :: "json \<Rightarrow> failure + json list" where
  "get_array j = (case j of JArray xs \<Rightarrow> Inr xs | _ \<Rightarrow> Inl (Type_error 302))"

text \<open>Conversion to \<open>std::vector<std::string>\<close>, element by element.\<close>

fun get_strings :: "json list \<Rightarrow> failure + string list" where
  "get_strings [] = Inr []"
| "get_strings (x # xs) =
     ebind (get_string x) (\<lambda>s. ebind (get_strings xs) (\<lambda>ss. Inr (s # ss)))"

definition get_string_vector :: "json \<Rightarrow> failure + string list" where
  "get_string_vector j = ebind (get_array j) get_strings"

section \<open>Construction from an initializer list\<close>

definition init_pair :: "json \<Rightarrow> bool" where
  "init_pair j = (case j of JArray [JString _, _] \<Rightarrow> True | _ \<Rightarrow> False)"

fun init_object :: "(string \<times> json) list \<Rightarrow> json list \<Rightarrow> (string \<times> json) list" where
  "init_object m [] = m"
| "init_object m (JArray [JString k, v] # js) = init_object (map_emplace m k v) js"
| "init_object m (_ # js) = init_object m js"

definition json_of_init_list :: "json list \<Rightarrow> json" where
  "json_of_init_list init =
     (if list_all init_pair init then JObject (init_object [] init) else JArray init)"

section \<open>Laws of ordered maps\<close>

text \<open>
  What the clients of \<open>object_t\<close> rely on: keys stay strictly ordered, a stored value is found under
  its key and no other key is disturbed.
\<close>

locale ordered_map =
  fixes find :: "'m \<Rightarrow> string \<Rightarrow> 'v option"
    and put :: "'m \<Rightarrow> string \<Rightarrow> 'v \<Rightarrow> 'm"
    and keys :: "'m \<Rightarrow> string list"
    and ok :: "'m \<Rightarrow> bool"
  assumes find_put: "find (put m k v) k' = (if k' = k then Some v else find m k')"
    and ok_put: "ok m \<Longrightarrow> ok (put m k v)"
    and find_keys: "(find m k \<noteq> None) = (k \<in> set (keys m))"
    and ok_sorted: "ok m = sorted_wrt (<) (keys m)"
begin

lemma keys_put: "set (keys (put m k v)) = insert k (set (keys m))"
proof (rule set_eqI)
  fix k'
  show "k' \<in> set (keys (put m k v)) \<longleftrightarrow> k' \<in> insert k (set (keys m))"
    using find_keys [of "put m k v" k'] find_keys [of m k'] by (auto simp: find_put split: if_splits)
qed

lemma put_overrides: "find (put (put m k v) k w) = find (put m k w)"
  by (rule ext) (simp add: find_put)

lemma put_commutes: "k \<noteq> l \<Longrightarrow> find (put (put m k v) l w) = find (put (put m l w) k v)"
  by (rule ext) (simp add: find_put)

lemma ok_distinct: "ok m \<Longrightarrow> distinct (keys m)"
  by (simp add: ok_sorted strict_sorted_iff)

end

lemma map_find_put: "map_find (map_put m k v) k' = (if k' = k then Some v else map_find m k')"
  by (induction m k v rule: map_put.induct) auto

lemma map_find_keys: "(map_find m k \<noteq> None) = (k \<in> set (map fst m))"
  by (induction m k rule: map_find.induct) auto

lemma set_fst_map_put: "fst ` set (map_put m k v) = insert k (fst ` set m)"
  by (induction m k v rule: map_put.induct) auto

lemma map_ok_Cons: "map_ok ((k, v) # m) \<longleftrightarrow> (\<forall>k'\<in>fst ` set m. k < k') \<and> map_ok m"
  by (auto simp: map_ok_def)

lemma map_ok_Nil [simp]: "map_ok []"
  by (simp add: map_ok_def)

lemma map_ok_put: "map_ok m \<Longrightarrow> map_ok (map_put m k v)"
proof (induction m k v rule: map_put.induct)
  case (2 k' v' m k v)
  then show ?case
    by (auto simp: map_ok_Cons set_fst_map_put dest: order_less_trans)
qed (simp add: map_ok_Cons)

interpretation object_map: ordered_map map_find map_put "map fst" map_ok
  by unfold_locales (rule map_find_put, erule map_ok_put, rule map_find_keys, rule map_ok_def)

lemma map_find_emplace:
  "map_find (map_emplace m k v) k' =
   (if k' = k \<and> map_find m k = None then Some v else map_find m k')"
  by (auto simp: map_emplace_def map_find_put split: option.splits)

lemma map_ok_emplace: "map_ok m \<Longrightarrow> map_ok (map_emplace m k v)"
  by (simp add: map_emplace_def map_ok_put split: option.split)

text \<open>A key above all others goes to the end: how a sorted object is rebuilt key by key.\<close>

lemma map_put_last: "\<forall>k'\<in>fst ` set m. k' < k \<Longrightarrow> map_put m k v = m @ [(k, v)]"
  by (induction m k v rule: map_put.induct) (auto dest: order_less_asym)

lemma map_put_put: "map_put (map_put m k v) k w = map_put m k w"
  by (induction m k v rule: map_put.induct) (auto dest: order_less_asym)

lemma map_put_emplace: "map_ok m \<Longrightarrow> map_put (map_emplace m k v) k w = map_put m k w"
  by (simp add: map_emplace_def map_put_put split: option.split)

section \<open>Well-formed values\<close>

text \<open>Every object inside the value has strictly increasing keys.\<close>

fun json_ok :: "json \<Rightarrow> bool" where
  "json_ok (JObject m) = (map_ok m \<and> list_all (\<lambda>kv. json_ok (snd kv)) m)"
| "json_ok (JArray xs) = list_all json_ok xs"
| "json_ok _ = True"

lemma list_all_map_put:
  "list_all P m \<Longrightarrow> P (k, v) \<Longrightarrow> list_all P (map_put m k v)"
  by (induction m k v rule: map_put.induct) auto

lemma list_all_map_emplace:
  "list_all P m \<Longrightarrow> P (k, v) \<Longrightarrow> list_all P (map_emplace m k v)"
  by (simp add: map_emplace_def list_all_map_put split: option.split)

lemma map_find_list_all: "map_find m k = Some v \<Longrightarrow> list_all P m \<Longrightarrow> P (k, v)"
  by (induction m k rule: map_find.induct) (auto split: if_splits)

lemma json_set_object [json_simps]:
  "json_set (JObject m) k v = Inr (JObject (map_put (map_emplace m k JNull) k v))"
  "json_set JNull k v = Inr (JObject [(k, v)])"
  by (simp_all add: json_set_def json_index_ref_def map_emplace_def)

lemma json_ok_set: "json_ok j \<Longrightarrow> json_ok v \<Longrightarrow> json_set j k v = Inr j' \<Longrightarrow> json_ok j'"
  by (auto simp: json_set_def json_index_ref_def result_simps map_ok_put map_ok_emplace
      list_all_map_put list_all_map_emplace split: json.splits)

lemma json_ok_index: "json_ok j \<Longrightarrow> json_index j k = Inr v \<Longrightarrow> json_ok v"
  by (auto simp: json_index_def split: json.splits option.splits
      dest: map_find_list_all [where P = "\<lambda>kv. json_ok (snd kv)"])

lemma contains_index: "contains j k \<longleftrightarrow> (\<exists>v. json_index j k = Inr v)"
  by (auto simp: contains_def json_index_def split: json.splits option.splits)

lemma contains_at: "contains j k \<longleftrightarrow> (\<exists>v. json_at j k = Inr v)"
  by (auto simp: contains_def json_at_def split: json.splits option.splits)

lemma json_set_index:
  "json_ok j \<Longrightarrow> json_set j k v = Inr j' \<Longrightarrow>
   json_index j' k' = (if k' = k then Inr v else if is_null j then Inl Assertion_failed else json_index j k')"
  by (cases j)
    (auto simp: json_set_def json_index_ref_def json_index_def map_find_put map_find_emplace is_null_def
      split: option.splits)

end
