(* ===== verification/Float_Format.thy ===== *)
theory Float_Format
  imports Json_Value "HOL-Library.Signed_Division"
begin

text \<open>
  Decimal output of \<open>double\<close> in \<^verbatim>\<open>src/src/ext/nlohmann/json.hpp\<close> (\<open>detail::dtoa_impl\<close> and
  \<open>detail::to_chars\<close>): the Grisu2 algorithm with its 64-bit floating point numbers, its table of
  powers of ten, digit generation and formatting.  Exponents of type \<open>int\<close> stay far below \<open>2\<^sup>3\<^sup>1\<close> and
  are unbounded integers here; significands are \<open>uint64_t\<close>.  The digits are written into a buffer at
  an offset, since \<open>to_chars\<close> advances its pointer past a minus sign.
\<close>

section \<open>Extended floating point numbers\<close>

record diyfp =
  df :: u64
  de :: int

definition diyfp_sub :: "diyfp \<Rightarrow> diyfp \<Rightarrow> failure + diyfp" where
  "diyfp_sub x y =
     ebind (json_assert (de x = de y))
       (\<lambda>_. ebind (json_assert (df y \<le> df x)) (\<lambda>_. Inr \<lparr>df = df x - df y, de = de x\<rparr>))"

definition diyfp_mul :: "diyfp \<Rightarrow> diyfp \<Rightarrow> diyfp" where
  "diyfp_mul x y =
     (let u_lo = df x AND 0xFFFFFFFF; u_hi = drop_bit 32 (df x);
          v_lo = df y AND 0xFFFFFFFF; v_hi = drop_bit 32 (df y);
          p0 = u_lo * v_lo; p1 = u_lo * v_hi; p2 = u_hi * v_lo; p3 = u_hi * v_hi;
          p0_hi = drop_bit 32 p0;
          p1_lo = p1 AND 0xFFFFFFFF; p1_hi = drop_bit 32 p1;
          p2_lo = p2 AND 0xFFFFFFFF; p2_hi = drop_bit 32 p2;
          Q = p0_hi + p1_lo + p2_lo;
          Q = Q + push_bit (64 - 32 - 1) 1;
          h = p3 + p2_hi + p1_hi + drop_bit 32 Q
      in \<lparr>df = h, de = de x + de y + 64\<rparr>)"

text \<open>
  The loop of \<open>normalize\<close>; a significand that is not zero needs at most 63 shifts, so that is the
  bound on the number of iterations.
\<close>

fun normalize_loop :: "nat \<Rightarrow> diyfp \<Rightarrow> diyfp" where
  "normalize_loop 0 x = x"
| "normalize_loop (Suc n) x =
     (if drop_bit 63 (df x) = 0 then normalize_loop n \<lparr>df = push_bit 1 (df x), de = de x - 1\<rparr> else x)"

definition diyfp_normalize :: "diyfp \<Rightarrow> failure + diyfp" where
  "diyfp_normalize x = ebind (json_assert (df x \<noteq> 0)) (\<lambda>_. Inr (normalize_loop 63 x))"

definition diyfp_normalize_to :: "diyfp \<Rightarrow> int \<Rightarrow> failure + diyfp" where
  "diyfp_normalize_to x target_exponent =
     (let delta = de x - target_exponent in
      ebind (json_assert (0 \<le> delta))
        (\<lambda>_. ebind (json_assert (drop_bit (nat delta) (push_bit (nat delta) (df x)) = df x))
          (\<lambda>_. Inr \<lparr>df = push_bit (nat delta) (df x), de = target_exponent\<rparr>)))"

record boundaries =
  b_w :: diyfp
  b_minus :: diyfp
  b_plus :: diyfp

definition double_positive :: "double \<Rightarrow> bool" where
  "double_positive d \<longleftrightarrow> \<not> double_negative d \<and> d \<noteq> 0"

text \<open>For \<open>double\<close>: \<open>kPrecision = 53\<close>, \<open>kBias = 1075\<close>, \<open>kMinExp = -1074\<close>.\<close>

definition compute_boundaries :: "double \<Rightarrow> failure + boundaries" where
  "compute_boundaries value =
     ebind (json_assert (isfinite value))
      (\<lambda>_. ebind (json_assert (double_positive value))
       (\<lambda>_. let E = drop_bit 52 value;
                F = value AND (0x10000000000000 - 1);
                is_denormal = (E = 0);
                v = (if is_denormal then \<lparr>df = F, de = - 1074\<rparr>
                     else \<lparr>df = F + 0x10000000000000, de = int (unat E) - 1075\<rparr>);
                lower_boundary_is_closer = (F = 0 \<and> 1 < E);
                m_plus = \<lparr>df = 2 * df v + 1, de = de v - 1\<rparr>;
                m_minus = (if lower_boundary_is_closer then \<lparr>df = 4 * df v - 1, de = de v - 2\<rparr>
                           else \<lparr>df = 2 * df v - 1, de = de v - 1\<rparr>)
            in ebind (diyfp_normalize m_plus)
                (\<lambda>w_plus. ebind (diyfp_normalize_to m_minus (de w_plus))
                  (\<lambda>w_minus. ebind (diyfp_normalize v)
                    (\<lambda>w. Inr \<lparr>b_w = w, b_minus = w_minus, b_plus = w_plus\<rparr>)))))"

section \<open>Powers of ten\<close>

text \<open>Significand, binary exponent and decimal exponent.\<close>

type_synonym cached_power = "u64 \<times> int \<times> int"

definition kCachedPowers :: "cached_power list" where
  "kCachedPowers =
     [(0xAB70FE17C79AC6CA, - 1060, - 300), (0xFF77B1FCBEBCDC4F, - 1034, - 292), (0xBE5691EF416BD60C, - 1007, - 284),
      (0x8DD01FAD907FFC3C, - 980, - 276), (0xD3515C2831559A83, - 954, - 268), (0x9D71AC8FADA6C9B5, - 927, - 260),
      (0xEA9C227723EE8BCB, - 901, - 252), (0xAECC49914078536D, - 874, - 244), (0x823C12795DB6CE57, - 847, - 236),
      (0xC21094364DFB5637, - 821, - 228), (0x9096EA6F3848984F, - 794, - 220), (0xD77485CB25823AC7, - 768, - 212),
      (0xA086CFCD97BF97F4, - 741, - 204), (0xEF340A98172AACE5, - 715, - 196), (0xB23867FB2A35B28E, - 688, - 188),
      (0x84C8D4DFD2C63F3B, - 661, - 180), (0xC5DD44271AD3CDBA, - 635, - 172), (0x936B9FCEBB25C996, - 608, - 164),
      (0xDBAC6C247D62A584, - 582, - 156), (0xA3AB66580D5FDAF6, - 555, - 148), (0xF3E2F893DEC3F126, - 529, - 140),
      (0xB5B5ADA8AAFF80B8, - 502, - 132), (0x87625F056C7C4A8B, - 475, - 124), (0xC9BCFF6034C13053, - 449, - 116),
      (0x964E858C91BA2655, - 422, - 108), (0xDFF9772470297EBD, - 396, - 100), (0xA6DFBD9FB8E5B88F, - 369, - 92),
      (0xF8A95FCF88747D94, - 343, - 84), (0xB94470938FA89BCF, - 316, - 76), (0x8A08F0F8BF0F156B, - 289, - 68),
      (0xCDB02555653131B6, - 263, - 60), (0x993FE2C6D07B7FAC, - 236, - 52), (0xE45C10C42A2B3B06, - 210, - 44),
      (0xAA242499697392D3, - 183, - 36), (0xFD87B5F28300CA0E, - 157, - 28), (0xBCE5086492111AEB, - 130, - 20),
      (0x8CBCCC096F5088CC, - 103, - 12), (0xD1B71758E219652C, - 77, - 4), (0x9C40000000000000, - 50, 4),
      (0xE8D4A51000000000, - 24, 12), (0xAD78EBC5AC620000, 3, 20), (0x813F3978F8940984, 30, 28),
      (0xC097CE7BC90715B3, 56, 36), (0x8F7E32CE7BEA5C70, 83, 44), (0xD5D238A4ABE98068, 109, 52),
      (0x9F4F2726179A2245, 136, 60), (0xED63A231D4C4FB27, 162, 68), (0xB0DE65388CC8ADA8, 189, 76),
      (0x83C7088E1AAB65DB, 216, 84), (0xC45D1DF942711D9A, 242, 92), (0x924D692CA61BE758, 269, 100),
      (0xDA01EE641A708DEA, 295, 108), (0xA26DA3999AEF774A, 322, 116), (0xF209787BB47D6B85, 348, 124),
      (0xB454E4A179DD1877, 375, 132), (0x865B86925B9BC5C2, 402, 140), (0xC83553C5C8965D3D, 428, 148),
      (0x952AB45CFA97A0B3, 455, 156), (0xDE469FBD99A05FE3, 481, 164), (0xA59BC234DB398C25, 508, 172),
      (0xF6C69A72A3989F5C, 534, 180), (0xB7DCBF5354E9BECE, 561, 188), (0x88FCF317F22241E2, 588, 196),
      (0xCC20CE9BD35C78A5, 614, 204), (0x98165AF37B2153DF, 641, 212), (0xE2A0B5DC971F303A, 667, 220),
      (0xA8D9D1535CE3B396, 694, 228), (0xFB9B7CD9A4A7443C, 720, 236), (0xBB764C4CA7A44410, 747, 244),
      (0x8BAB8EEFB6409C1A, 774, 252), (0xD01FEF10A657842C, 800, 260), (0x9B10A4E5E9913129, 827, 268),
      (0xE7109BFBA19C0C9D, 853, 276), (0xAC2820D9623BF429, 880, 284), (0x80444B5E7AA7CF85, 907, 292),
      (0xBF21E44003ACDD2D, 933, 300), (0x8E679C2F5E44FF8F, 960, 308), (0xD433179D9C8CB841, 986, 316),
      (0x9E19DB92B4E31BA9, 1013, 324)]"

definition get_cached_power_for_binary_exponent :: "int \<Rightarrow> failure + cached_power" where
  "get_cached_power_for_binary_exponent e =
     ebind (json_assert (- 1500 \<le> e))
      (\<lambda>_. ebind (json_assert (e \<le> 1500))
       (\<lambda>_. let f = - 60 - e - 1;
                k = ((f * 78913) sdiv 262144) + (if 0 < f then 1 else 0);
                index = (300 + k + (8 - 1)) sdiv 8
            in ebind (json_assert (0 \<le> index))
                (\<lambda>_. ebind (json_assert (nat index < length kCachedPowers))
                 (\<lambda>_. case kCachedPowers ! nat index of
                    (cf, ce, ck) \<Rightarrow>
                      ebind (json_assert (- 60 \<le> ce + e + 64))
                       (\<lambda>_. ebind (json_assert (ce + e + 64 \<le> - 32)) (\<lambda>_. Inr (cf, ce, ck)))))))"

definition find_largest_pow10 :: "u32 \<Rightarrow> nat \<times> u32" where
  "find_largest_pow10 n =
     (if 1000000000 \<le> n then (10, 1000000000)
      else if 100000000 \<le> n then (9, 100000000)
      else if 10000000 \<le> n then (8, 10000000)
      else if 1000000 \<le> n then (7, 1000000)
      else if 100000 \<le> n then (6, 100000)
      else if 10000 \<le> n then (5, 10000)
      else if 1000 \<le> n then (4, 1000)
      else if 100 \<le> n then (3, 100)
      else if 10 \<le> n then (2, 10)
      else (1, 1))"

section \<open>Digit generation\<close>

text \<open>The buffer, the offset of its first digit, the number of digits and the decimal exponent.\<close>

record digits =
  dg_buf :: string
  dg_off :: nat
  dg_len :: nat
  dg_exp :: int

definition push_digit :: "u64 \<Rightarrow> digits \<Rightarrow> failure + digits" where
  "push_digit d g =
     ebind (buf_put (dg_buf g) (dg_off g + dg_len g) (char_of (48 + unat d)))
       (\<lambda>buf. Inr (g\<lparr>dg_buf := buf, dg_len := dg_len g + 1\<rparr>))"

text \<open>The loop of \<open>grisu2_round\<close> on the last digit.\<close>

function grisu2_round_loop :: "char \<Rightarrow> u64 \<Rightarrow> u64 \<Rightarrow> u64 \<Rightarrow> u64 \<Rightarrow> failure + char" where
  "grisu2_round_loop c dist delta rest ten_k =
     (if rest < dist \<and> ten_k \<le> delta - rest \<and>
         (rest + ten_k < dist \<or> rest + ten_k - dist < dist - rest)
      then ebind (json_assert (c \<noteq> CHR ''0''))
             (\<lambda>_. grisu2_round_loop (char_of_byte (byte_of c - 1)) dist delta (rest + ten_k) ten_k)
      else Inr c)"
  by pat_completeness auto
termination
proof (relation "measure (\<lambda>(c, _). unat (byte_of c - byte_of CHR ''0''))", goal_cases)
  case (2 c dist delta rest ten_k u)
  then have "byte_of c - byte_of CHR ''0'' \<noteq> 0" by (auto simp: json_assert_def split: if_splits)
  then have "unat (byte_of c - byte_of CHR ''0'' - 1) < unat (byte_of c - byte_of CHR ''0'')"
    by (simp add: unat_gt_0 unat_minus_one)
  moreover have "byte_of c - 1 - byte_of CHR ''0'' = byte_of c - byte_of CHR ''0'' - 1"
    by (rule diff_right_commute)
  ultimately show ?case by (simp only: in_measure case_prod_conv byte_of_char_of_byte)
qed simp

declare grisu2_round_loop.simps [simp del]

definition grisu2_round :: "u64 \<Rightarrow> u64 \<Rightarrow> u64 \<Rightarrow> u64 \<Rightarrow> digits \<Rightarrow> failure + digits" where
  "grisu2_round dist delta rest ten_k g =
     ebind (json_assert (1 \<le> dg_len g))
      (\<lambda>_. ebind (json_assert (dist \<le> delta))
       (\<lambda>_. ebind (json_assert (rest \<le> delta))
        (\<lambda>_. ebind (json_assert (0 < ten_k))
         (\<lambda>_. ebind (buf_get (dg_buf g) (dg_off g + dg_len g - 1))
          (\<lambda>c. ebind (grisu2_round_loop c dist delta rest ten_k)
           (\<lambda>c. ebind (buf_put (dg_buf g) (dg_off g + dg_len g - 1) c)
            (\<lambda>buf. Inr (g\<lparr>dg_buf := buf\<rparr>))))))))"

text \<open>
  The loop over the digits of the integral part \<open>p1\<close>: \<open>Inl\<close> of the inner sum is the state with which
  the loop ends, \<open>Inr\<close> the early return.  \<open>sh\<close> is \<open>-one.e\<close>.
\<close>

fun integral_digits :: "nat \<Rightarrow> nat \<Rightarrow> u32 \<Rightarrow> u64 \<Rightarrow> u32 \<Rightarrow> u64 \<Rightarrow> u64 \<Rightarrow> digits \<Rightarrow> failure + (digits + digits)"
where
  "integral_digits sh 0 p1 p2 pow10 delta dist g = Inr (Inl g)"
| "integral_digits sh (Suc n) p1 p2 pow10 delta dist g =
     (let d = p1 div pow10; r = p1 mod pow10 in
      ebind (json_assert (d \<le> 9))
       (\<lambda>_. ebind (push_digit (ucast d) g)
        (\<lambda>g. let p1 = r; rest = push_bit sh (ucast p1) + p2 in
          if rest \<le> delta then
            (let g = g\<lparr>dg_exp := dg_exp g + int n\<rparr>; ten_n = push_bit sh (ucast pow10)
             in ebind (grisu2_round dist delta rest ten_n g) (\<lambda>g. Inr (Inr g)))
          else integral_digits sh n p1 p2 (pow10 div 10) delta dist g)))"

text \<open>
  The loop over the digits of the fractional part.  Every iteration writes a digit, so the loop ends
  at the latest with the buffer.
\<close>

function fractional_digits :: "nat \<Rightarrow> u64 \<Rightarrow> u64 \<Rightarrow> u64 \<Rightarrow> u64 \<Rightarrow> nat \<Rightarrow> digits \<Rightarrow> failure + digits" where
  "fractional_digits sh one_f p2 delta dist m g =
     ebind (json_assert (p2 \<le> 0xFFFFFFFFFFFFFFFF div 10))
      (\<lambda>_. let p2 = p2 * 10; d = drop_bit sh p2; r = p2 AND (one_f - 1) in
        ebind (json_assert (d \<le> 9))
         (\<lambda>_. ebind (push_digit d g)
          (\<lambda>g. let p2 = r; m = m + 1; delta = delta * 10; dist = dist * 10 in
            if p2 \<le> delta
            then grisu2_round dist delta p2 one_f (g\<lparr>dg_exp := dg_exp g - int m\<rparr>)
            else fractional_digits sh one_f p2 delta dist m g)))"
  by pat_completeness auto
termination
proof (relation "measure (\<lambda>(_, _, _, _, _, _, g). length (dg_buf g) - (dg_off g + dg_len g))", goal_cases)
  case (2 sh one_f p2 delta dist m g)
  then show ?case
    by (auto simp: push_digit_def result_simps buf_put_def split: if_splits)
qed simp

declare fractional_digits.simps [simp del]

definition grisu2_digit_gen :: "diyfp \<Rightarrow> diyfp \<Rightarrow> diyfp \<Rightarrow> digits \<Rightarrow> failure + digits" where
  "grisu2_digit_gen M_minus w M_plus g =
     ebind (json_assert (- 60 \<le> de M_plus))
      (\<lambda>_. ebind (json_assert (de M_plus \<le> - 32))
       (\<lambda>_. ebind (diyfp_sub M_plus M_minus)
        (\<lambda>delta. ebind (diyfp_sub M_plus w)
         (\<lambda>dist. let sh = nat (- de M_plus); one_f = push_bit sh 1;
                     p1 = ucast (drop_bit sh (df M_plus));
                     p2 = df M_plus AND (one_f - 1)
                 in ebind (json_assert (0 < p1))
                     (\<lambda>_. case find_largest_pow10 p1 of
                        (k, pow10) \<Rightarrow>
                          ebind (integral_digits sh k p1 p2 pow10 (df delta) (df dist) g)
                           (\<lambda>r. case r of
                              Inr g \<Rightarrow> Inr g
                            | Inl g \<Rightarrow>
                                ebind (json_assert (df delta < p2))
                                 (\<lambda>_. fractional_digits sh one_f p2 (df delta) (df dist) 0 g)))))))"

definition grisu2_boundaries :: "diyfp \<Rightarrow> diyfp \<Rightarrow> diyfp \<Rightarrow> digits \<Rightarrow> failure + digits" where
  "grisu2_boundaries m_minus v m_plus g =
     ebind (json_assert (de m_plus = de m_minus))
      (\<lambda>_. ebind (json_assert (de m_plus = de v))
       (\<lambda>_. ebind (get_cached_power_for_binary_exponent (de m_plus))
        (\<lambda>(cf, ce, ck).
           let c_minus_k = \<lparr>df = cf, de = ce\<rparr>;
               w = diyfp_mul v c_minus_k;
               w_minus = diyfp_mul m_minus c_minus_k;
               w_plus = diyfp_mul m_plus c_minus_k;
               M_minus = \<lparr>df = df w_minus + 1, de = de w_minus\<rparr>;
               M_plus = \<lparr>df = df w_plus - 1, de = de w_plus\<rparr>
           in grisu2_digit_gen M_minus w M_plus (g\<lparr>dg_exp := - ck\<rparr>))))"

definition grisu2 :: "double \<Rightarrow> digits \<Rightarrow> failure + digits" where
  "grisu2 value g =
     ebind (json_assert (isfinite value))
      (\<lambda>_. ebind (json_assert (double_positive value))
       (\<lambda>_. ebind (compute_boundaries value)
        (\<lambda>w. grisu2_boundaries (b_minus w) (b_w w) (b_plus w) g)))"

section \<open>Formatting\<close>

definition buf_memset :: "string \<Rightarrow> nat \<Rightarrow> char \<Rightarrow> nat \<Rightarrow> failure + string" where
  "buf_memset buf dst c n =
     (if dst + n \<le> length buf then Inr (take dst buf @ replicate n c @ drop (dst + n) buf)
      else Inl Undefined_behaviour)"

definition buf_memmove :: "string \<Rightarrow> nat \<Rightarrow> nat \<Rightarrow> nat \<Rightarrow> failure + string" where
  "buf_memmove buf dst src n =
     (if dst + n \<le> length buf \<and> src + n \<le> length buf
      then Inr (take dst buf @ take n (drop src buf) @ drop (dst + n) buf)
      else Inl Undefined_behaviour)"

text \<open>\<open>*buf++ = c\<close> for each character: the buffer and the position after the last one.\<close>

fun buf_append :: "string \<Rightarrow> nat \<Rightarrow> string \<Rightarrow> failure + string \<times> nat" where
  "buf_append buf pos [] = Inr (buf, pos)"
| "buf_append buf pos (c # cs) = ebind (buf_put buf pos c) (\<lambda>buf. buf_append buf (pos + 1) cs)"

definition digit_of :: "int \<Rightarrow> char" where
  "digit_of k = char_of (48 + k)"

definition append_exponent :: "string \<Rightarrow> nat \<Rightarrow> int \<Rightarrow> failure + string \<times> nat" where
  "append_exponent buf pos e =
     ebind (json_assert (- 1000 < e))
      (\<lambda>_. ebind (json_assert (e < 1000))
       (\<lambda>_. let (s, k) = (if e < 0 then (CHR ''-'', - e) else (CHR ''+'', e)) in
         if k < 10 then buf_append buf pos [s, CHR ''0'', digit_of k]
         else if k < 100 then buf_append buf pos [s, digit_of (k div 10), digit_of (k mod 10)]
         else buf_append buf pos
                [s, digit_of (k div 100), digit_of (k mod 100 div 10), digit_of (k mod 100 mod 10)]))"

text \<open>The result is the buffer and the position past the end of the text.\<close>

definition format_buffer :: "int \<Rightarrow> int \<Rightarrow> digits \<Rightarrow> failure + string \<times> nat" where
  "format_buffer min_exp max_exp g =
     ebind (json_assert (min_exp < 0))
      (\<lambda>_. ebind (json_assert (0 < max_exp))
       (\<lambda>_. let off = dg_off g; kn = dg_len g; k = int kn; n = k + dg_exp g in
         if k \<le> n \<and> n \<le> max_exp then
           ebind (buf_memset (dg_buf g) (off + kn) CHR ''0'' (nat n - kn))
            (\<lambda>buf. buf_append buf (off + nat n) ''.0'')
         else if 0 < n \<and> n \<le> max_exp then
           ebind (json_assert (n < k))
            (\<lambda>_. ebind (buf_memmove (dg_buf g) (off + nat n + 1) (off + nat n) (kn - nat n))
             (\<lambda>buf. ebind (buf_put buf (off + nat n) CHR ''.'')
              (\<lambda>buf. Inr (buf, off + kn + 1))))
         else if min_exp < n \<and> n \<le> 0 then
           ebind (buf_memmove (dg_buf g) (off + 2 + nat (- n)) off kn)
            (\<lambda>buf. ebind (buf_append buf off ''0.'')
             (\<lambda>(buf, _). ebind (buf_memset buf (off + 2) CHR ''0'' (nat (- n)))
              (\<lambda>buf. Inr (buf, off + 2 + nat (- n) + kn))))
         else
           ebind (if kn = 1 then Inr (dg_buf g, off + 1)
                  else ebind (buf_memmove (dg_buf g) (off + 2) (off + 1) (kn - 1))
                        (\<lambda>buf. ebind (buf_put buf (off + 1) CHR ''.'') (\<lambda>buf. Inr (buf, off + 1 + kn))))
            (\<lambda>(buf, pos). ebind (buf_append buf pos ''e'')
              (\<lambda>(buf, pos). append_exponent buf pos (n - 1)))))"

text \<open>
  \<open>to_chars\<close> on a buffer of which all cells are available.  \<open>max_digits10 = 17\<close>, \<open>digits10 = 15\<close>.
\<close>

definition to_chars :: "string \<Rightarrow> double \<Rightarrow> failure + string \<times> nat" where
  "to_chars buf value =
     ebind (json_assert (isfinite value))
      (\<lambda>_. ebind (if double_negative value
                   then ebind (buf_append buf 0 ''-'') (\<lambda>(buf, pos). Inr (buf, pos, value XOR 0x8000000000000000))
                   else Inr (buf, 0, value))
       (\<lambda>(buf, first, value).
          if value = 0 then buf_append buf first ''0.0''
          else
            ebind (json_assert (17 \<le> int (length buf) - int first))
             (\<lambda>_. ebind (grisu2 value \<lparr>dg_buf = buf, dg_off = first, dg_len = 0, dg_exp = 0\<rparr>)
              (\<lambda>g. ebind (json_assert (dg_len g \<le> 17))
               (\<lambda>_. ebind (json_assert (15 + 2 \<le> int (length buf) - int first))
                (\<lambda>_. ebind (json_assert (2 + (4 - 1) + 17 \<le> int (length buf) - int first))
                 (\<lambda>_. ebind (json_assert (17 + 6 \<le> int (length buf) - int first))
                  (\<lambda>_. format_buffer (- 4) 15 g))))))))"

end
