(* ===== verification/Json_Serializer.thy ===== *)
theory Json_Serializer
  imports Float_Format
begin

text \<open>
  Output of JSON values in \<^verbatim>\<open>src/src/ext/nlohmann/json.hpp\<close>: \<open>detail::serializer\<close> with its escaping
  of strings, the decoder of UTF-8 it relies on, integers and floating point numbers, and
  \<open>operator<<\<close>.  The number buffer and the string buffer have their sizes of 64 and 512 characters, and a
  write outside of them is undefined behaviour.
\<close>

section \<open>State\<close>

datatype error_handler_t = EH_strict | EH_replace | EH_ignore

record serializer =
  so :: string                       \<comment> \<open>what has been written to \<open>o\<close>\<close>
  number_buffer :: string
  string_buffer :: string
  indent_string :: string
  error_handler :: error_handler_t

definition serializer_new :: "char \<Rightarrow> error_handler_t \<Rightarrow> serializer" where
  "serializer_new ichar handler =
     \<lparr>so = [], number_buffer = replicate 64 CHR 0x00, string_buffer = replicate 512 CHR 0x00,
      indent_string = replicate 512 ichar, error_handler = handler\<rparr>"

definition write_characters :: "string \<Rightarrow> serializer \<Rightarrow> serializer" where
  "write_characters cs ser = ser\<lparr>so := so ser @ cs\<rparr>"

text \<open>The first \<open>n\<close> characters of a buffer.\<close>

definition write_buffer :: "string \<Rightarrow> nat \<Rightarrow> serializer \<Rightarrow> failure + serializer" where
  "write_buffer buf n ser =
     (if n \<le> length buf then Inr (write_characters (take n buf) ser) else Inl Undefined_behaviour)"

section \<open>UTF-8\<close>

definition utf8d :: "nat list" where
  "utf8d =
     replicate 128 0 @ replicate 16 1 @ replicate 16 9 @ replicate 32 7 @ replicate 2 8 @ replicate 30 2 @
     [0xA, 0x3, 0x3, 0x3, 0x3, 0x3, 0x3, 0x3, 0x3, 0x3, 0x3, 0x3, 0x3, 0x4, 0x3, 0x3,
      0xB, 0x6, 0x6, 0x6, 0x5, 0x8, 0x8, 0x8, 0x8, 0x8, 0x8, 0x8, 0x8, 0x8, 0x8, 0x8,
      0x0, 0x1, 0x2, 0x3, 0x5, 0x8, 0x7, 0x1, 0x1, 0x1, 0x4, 0x6, 0x1, 0x1, 0x1, 0x1,
      1, 1, 1, 1, 1, 1, 1, 1, 1, 1, 1, 1, 1, 1, 1, 1, 1, 0, 1, 1, 1, 1, 1, 0, 1, 0, 1, 1, 1, 1, 1, 1,
      1, 2, 1, 1, 1, 1, 1, 2, 1, 2, 1, 1, 1, 1, 1, 1, 1, 1, 1, 1, 1, 1, 1, 2, 1, 1, 1, 1, 1, 1, 1, 1,
      1, 2, 1, 1, 1, 1, 1, 1, 1, 2, 1, 1, 1, 1, 1, 1, 1, 1, 1, 1, 1, 1, 1, 3, 1, 3, 1, 1, 1, 1, 1, 1,
      1, 3, 1, 1, 1, 1, 1, 3, 1, 3, 1, 1, 1, 1, 1, 1, 1, 3, 1, 1, 1, 1, 1, 1, 1, 1, 1, 1, 1, 1, 1, 1]"

abbreviation (input) UTF8_ACCEPT :: nat where "UTF8_ACCEPT \<equiv> 0"
abbreviation (input) UTF8_REJECT :: nat where "UTF8_REJECT \<equiv> 1"

text \<open>The new state and the new code point.\<close>

definition decode :: "nat \<Rightarrow> u32 \<Rightarrow> byte \<Rightarrow> failure + nat \<times> u32" where
  "decode state codep b =
     ebind (json_assert (unat b < length utf8d))
      (\<lambda>_. let type = utf8d ! unat b;
               codep = (if state \<noteq> UTF8_ACCEPT then (ucast b AND 0x3F) OR push_bit 6 codep
                        else drop_bit type 0xFF AND ucast b);
               index = 256 + state * 16 + type
           in ebind (json_assert (index < length utf8d)) (\<lambda>_. Inr (utf8d ! index, codep)))"

section \<open>Strings\<close>

text \<open>The local variables of \<open>dump_escaped\<close>, with the buffer and the output they go with.\<close>

record escape =
  es_ser :: serializer
  es_codepoint :: u32
  es_state :: nat
  es_bytes :: nat
  es_after_accept :: nat             \<comment> \<open>\<open>bytes_after_last_accept\<close>\<close>
  es_undumped :: nat                 \<comment> \<open>\<open>undumped_chars\<close>\<close>

text \<open>\<open>string_buffer[bytes++] = c\<close> for each character.\<close>

definition es_put :: "string \<Rightarrow> escape \<Rightarrow> failure + escape" where
  "es_put cs es =
     ebind (buf_append (string_buffer (es_ser es)) (es_bytes es) cs)
       (\<lambda>(buf, n). Inr (es\<lparr>es_ser := (es_ser es)\<lparr>string_buffer := buf\<rparr>, es_bytes := n\<rparr>))"

text \<open>\<open>snprintf\<close> also writes the terminator, which is not counted.\<close>

definition es_printf :: "string \<Rightarrow> escape \<Rightarrow> failure + escape" where
  "es_printf cs es = ebind (es_put (cs @ [CHR 0x00]) es) (\<lambda>es. Inr (es\<lparr>es_bytes := es_bytes es - 1\<rparr>))"

definition hex_lower :: "nat \<Rightarrow> char" where
  "hex_lower n = ''0123456789abcdef'' ! n"

text \<open>\<open>"\\u%04x"\<close> of a 16-bit value.\<close>

definition escape_u16 :: "nat \<Rightarrow> string" where
  "escape_u16 n =
     [CHR 0x5C, CHR ''u'', hex_lower (n div 4096 mod 16), hex_lower (n div 256 mod 16),
      hex_lower (n div 16 mod 16), hex_lower (n mod 16)]"

text \<open>Write the buffer when fewer than 13 characters are left in it.\<close>

definition es_flush :: "escape \<Rightarrow> failure + escape" where
  "es_flush es =
     (if length (string_buffer (es_ser es)) - es_bytes es < 13
      then ebind (write_buffer (string_buffer (es_ser es)) (es_bytes es) (es_ser es))
             (\<lambda>ser. Inr (es\<lparr>es_ser := ser, es_bytes := 0\<rparr>))
      else Inr es)"

text \<open>\<open>decode\<close> found a code point; \<open>c\<close> is its last byte.\<close>

definition accept_codepoint :: "bool \<Rightarrow> char \<Rightarrow> escape \<Rightarrow> failure + escape" where
  "accept_codepoint ensure_ascii c es =
     (let codepoint = es_codepoint es in
      ebind
        (if codepoint = 0x08 then es_put [CHR 0x5C, CHR ''b''] es
         else if codepoint = 0x09 then es_put [CHR 0x5C, CHR ''t''] es
         else if codepoint = 0x0A then es_put [CHR 0x5C, CHR ''n''] es
         else if codepoint = 0x0C then es_put [CHR 0x5C, CHR ''f''] es
         else if codepoint = 0x0D then es_put [CHR 0x5C, CHR ''r''] es
         else if codepoint = 0x22 then es_put [CHR 0x5C, CHR 0x22] es
         else if codepoint = 0x5C then es_put [CHR 0x5C, CHR 0x5C] es
         else if codepoint \<le> 0x1F \<or> ensure_ascii \<and> 0x7F \<le> codepoint then
           (if codepoint \<le> 0xFFFF then es_printf (escape_u16 (unat codepoint)) es
            else es_printf (escape_u16 (unat (0xD7C0 + drop_bit 10 codepoint)) @
                            escape_u16 (unat (0xDC00 + (codepoint AND 0x3FF)))) es)
         else es_put [c] es)
        (\<lambda>es. ebind (es_flush es)
          (\<lambda>es. Inr (es\<lparr>es_after_accept := es_bytes es, es_undumped := 0\<rparr>))))"

definition replacement :: "bool \<Rightarrow> string" where
  "replacement ensure_ascii =
     (if ensure_ascii then CHR 0x5C # ''ufffd'' else [CHR 0xEF, CHR 0xBF, CHR 0xBD])"

text \<open>\<open>decode\<close> rejected the byte at index \<open>i\<close>: the index to go on from.\<close>

definition reject_byte :: "bool \<Rightarrow> nat \<Rightarrow> escape \<Rightarrow> failure + nat \<times> escape" where
  "reject_byte ensure_ascii i es =
     (case error_handler (es_ser es) of
        EH_strict \<Rightarrow> Inl (Type_error 316)
      | h \<Rightarrow>
          let i' = (if 0 < es_undumped es then i else i + 1);
              es = es\<lparr>es_bytes := es_after_accept es\<rparr>
          in ebind (if h = EH_replace
                    then ebind (es_put (replacement ensure_ascii) es)
                          (\<lambda>es. ebind (es_flush es) (\<lambda>es. Inr (es\<lparr>es_after_accept := es_bytes es\<rparr>)))
                    else Inr es)
               (\<lambda>es. Inr (i', es\<lparr>es_undumped := 0, es_state := UTF8_ACCEPT\<rparr>)))"

text \<open>One iteration of the loop.\<close>

definition escape_step :: "bool \<Rightarrow> string \<Rightarrow> nat \<Rightarrow> escape \<Rightarrow> failure + nat \<times> escape" where
  "escape_step ensure_ascii s i es =
     ebind (decode (es_state es) (es_codepoint es) (byte_of (s ! i)))
       (\<lambda>(state, codepoint).
          let es = es\<lparr>es_state := state, es_codepoint := codepoint\<rparr> in
          if state = UTF8_ACCEPT then ebind (accept_codepoint ensure_ascii (s ! i) es) (\<lambda>es. Inr (i + 1, es))
          else if state = UTF8_REJECT then reject_byte ensure_ascii i es
          else ebind (if ensure_ascii then Inr es else es_put [s ! i] es)
                 (\<lambda>es. Inr (i + 1, es\<lparr>es_undumped := es_undumped es + 1\<rparr>)))"

text \<open>A byte is read a second time only after bytes of an incomplete character, so the loop ends.\<close>

lemma escape_step_measure:
  assumes "escape_step ea s i es = Inr (i', es')" and "i < length s"
  shows "2 * (length s - i') + (if 0 < es_undumped es' then 1 else 0) <
         2 * (length s - i) + (if 0 < es_undumped es then 1 else 0 :: nat)"
proof -
  have put: "es_put cs e = Inr e' \<Longrightarrow> es_undumped e' = es_undumped e" for cs e e'
    by (auto simp: es_put_def result_simps)
  have flush: "es_flush e = Inr e' \<Longrightarrow> es_undumped e' = es_undumped e" for e e'
    by (auto simp: es_flush_def result_simps split: if_splits)
  show ?thesis
    using assms
    by (auto simp: escape_step_def reject_byte_def accept_codepoint_def Let_def result_simps
        split: if_splits error_handler_t.splits dest!: put flush)
qed

function escape_loop :: "bool \<Rightarrow> string \<Rightarrow> nat \<Rightarrow> escape \<Rightarrow> failure + escape" where
  "escape_loop ensure_ascii s i es =
     (if i < length s
      then ebind (escape_step ensure_ascii s i es) (\<lambda>(i, es). escape_loop ensure_ascii s i es)
      else Inr es)"
  by pat_completeness auto
termination
  by (relation "measure (\<lambda>(_, s, i, es). 2 * (length s - i) + (if 0 < es_undumped es then 1 else 0))")
    (auto dest: escape_step_measure)

declare escape_loop.simps [simp del]

definition finish_escape :: "bool \<Rightarrow> escape \<Rightarrow> failure + serializer" where
  "finish_escape ensure_ascii es =
     (let ser = es_ser es in
      if es_state es = UTF8_ACCEPT
      then (if 0 < es_bytes es then write_buffer (string_buffer ser) (es_bytes es) ser else Inr ser)
      else
        (case error_handler ser of
           EH_strict \<Rightarrow> Inl (Type_error 316)
         | EH_ignore \<Rightarrow> write_buffer (string_buffer ser) (es_after_accept es) ser
         | EH_replace \<Rightarrow>
             ebind (write_buffer (string_buffer ser) (es_after_accept es) ser)
               (\<lambda>ser. Inr (write_characters (replacement ensure_ascii) ser))))"

definition dump_escaped :: "bool \<Rightarrow> string \<Rightarrow> serializer \<Rightarrow> failure + serializer" where
  "dump_escaped ensure_ascii s ser =
     ebind (escape_loop ensure_ascii s 0
              \<lparr>es_ser = ser, es_codepoint = 0, es_state = UTF8_ACCEPT, es_bytes = 0, es_after_accept = 0, es_undumped = 0\<rparr>)
       (finish_escape ensure_ascii)"

section \<open>Numbers\<close>

function count_digits_loop :: "nat \<Rightarrow> u64 \<Rightarrow> nat" where
  "count_digits_loop n_digits x =
     (if x < 10 then n_digits
      else if x < 100 then n_digits + 1
      else if x < 1000 then n_digits + 2
      else if x < 10000 then n_digits + 3
      else count_digits_loop (n_digits + 4) (x div 10000))"
  by pat_completeness auto
termination
proof (relation "measure (\<lambda>(_, x). unat x)", goal_cases)
  case (2 n x)
  then have "10000 \<le> unat x" by (simp add: linorder_not_less word_le_nat_alt)
  then show ?case by (simp add: unat_div)
qed simp

declare count_digits_loop.simps [simp del]

definition count_digits :: "u64 \<Rightarrow> nat" where
  "count_digits x = count_digits_loop 1 x"

definition digits_to_99 :: "nat \<Rightarrow> char \<times> char" where
  "digits_to_99 n = (char_of (48 + n div 10), char_of (48 + n mod 10))"

text \<open>\<open>*(--buffer_ptr) = c\<close>; a pointer before the buffer is undefined behaviour.\<close>

definition put_back :: "char \<Rightarrow> string \<times> nat \<Rightarrow> failure + string \<times> nat" where
  "put_back c bp =
     (case bp of (buf, p) \<Rightarrow>
        if p = 0 then Inl Undefined_behaviour
        else ebind (buf_put buf (p - 1) c) (\<lambda>buf. Inr (buf, p - 1)))"

definition put_pair :: "nat \<Rightarrow> string \<times> nat \<Rightarrow> failure + string \<times> nat" where
  "put_pair n bp =
     ebind (put_back (snd (digits_to_99 n)) bp) (\<lambda>bp. put_back (fst (digits_to_99 n)) bp)"

function digit_pairs :: "u64 \<Rightarrow> string \<times> nat \<Rightarrow> failure + string \<times> nat" where
  "digit_pairs x bp =
     (if 100 \<le> x then ebind (put_pair (unat (x mod 100)) bp) (\<lambda>bp. digit_pairs (x div 100) bp)
      else if 10 \<le> x then put_pair (unat x) bp
      else put_back (char_of (48 + unat x)) bp)"
  by pat_completeness auto
termination
proof (relation "measure (\<lambda>(x, _). unat x)", goal_cases)
  case (2 x bp bp')
  then have "0 < unat x" by (simp add: word_le_nat_alt)
  then show ?case by (simp add: unat_div)
qed simp

declare digit_pairs.simps [simp del]

definition remove_sign :: "u64 \<Rightarrow> failure + u64" where
  "remove_sign x = ebind (json_assert (x <s 0)) (\<lambda>_. Inr (- (x + 1) + 1))"

text \<open>\<open>negative\<close> is \<open>is_negative_number(x)\<close>: \<open>x < 0\<close> for a signed type, false for an unsigned one.\<close>

definition dump_integer :: "bool \<Rightarrow> u64 \<Rightarrow> serializer \<Rightarrow> failure + serializer" where
  "dump_integer negative x ser =
     (if x = 0 then Inr (write_characters ''0'' ser)
      else
        ebind (if negative
               then ebind (buf_put (number_buffer ser) 0 CHR ''-'')
                      (\<lambda>buf. ebind (remove_sign x) (\<lambda>a. Inr (buf, a, 1 + count_digits a)))
               else Inr (number_buffer ser, x, count_digits x))
          (\<lambda>(buf, abs_value, n_chars).
             ebind (json_assert (n_chars < length buf - 1))
               (\<lambda>_. ebind (digit_pairs abs_value (buf, n_chars))
                 (\<lambda>(buf, _). write_buffer buf n_chars (ser\<lparr>number_buffer := buf\<rparr>)))))"

definition dump_signed :: "u64 \<Rightarrow> serializer \<Rightarrow> failure + serializer" where
  "dump_signed x ser = dump_integer (x <s 0) x ser"

definition dump_unsigned :: "u64 \<Rightarrow> serializer \<Rightarrow> failure + serializer" where
  "dump_unsigned x ser = dump_integer False x ser"

definition dump_float :: "double \<Rightarrow> serializer \<Rightarrow> failure + serializer" where
  "dump_float x ser =
     (if \<not> isfinite x then Inr (write_characters ''null'' ser)
      else ebind (to_chars (number_buffer ser) x)
             (\<lambda>(buf, n). write_buffer buf n (ser\<lparr>number_buffer := buf\<rparr>)))"

section \<open>Values\<close>

text \<open>
  The loop over the first \<open>n - 1\<close> elements of a container, each followed by a separator, and the last
  element after it.
\<close>

fun dump_list ::
  "(serializer \<Rightarrow> failure + serializer) \<Rightarrow> ('a \<Rightarrow> serializer \<Rightarrow> failure + serializer) \<Rightarrow> 'a list \<Rightarrow> serializer \<Rightarrow> failure + serializer"
where
  "dump_list sep f [] ser = Inl Assertion_failed"
| "dump_list sep f [x] ser = f x ser"
| "dump_list sep f (x # y # xs) ser =
     ebind (f x ser) (\<lambda>ser. ebind (sep ser) (\<lambda>ser. dump_list sep f (y # xs) ser))"

lemma dump_list_eq: "(\<And>x s. x \<in> set xs \<Longrightarrow> f x s = g x s) \<Longrightarrow> dump_list sep f xs ser = dump_list sep g xs ser"
proof (induction xs arbitrary: ser)
  case (Cons x xs)
  then show ?case by (cases xs) (auto simp: ebind_def split: sum.splits)
qed simp

lemma dump_list_cong [fundef_cong]:
  "xs = ys \<Longrightarrow> ser = ser' \<Longrightarrow> sep = sep' \<Longrightarrow> (\<And>x s. x \<in> set ys \<Longrightarrow> f x s = g x s) \<Longrightarrow>
   dump_list sep f xs ser = dump_list sep' g ys ser'"
  using dump_list_eq by blast

abbreviation out_text :: "string \<Rightarrow> serializer \<Rightarrow> failure + serializer" where
  "out_text cs ser \<equiv> Inr (write_characters cs ser)"

text \<open>
  \<open>o->write_characters(indent_string.c_str(), n)\<close>: the terminator of the string may be read, nothing
  behind it.
\<close>

definition write_indent :: "u32 \<Rightarrow> serializer \<Rightarrow> failure + serializer" where
  "write_indent n ser = write_buffer (indent_string ser @ [CHR 0x00]) (unat n) ser"

definition grow_indent :: "u32 \<Rightarrow> serializer \<Rightarrow> serializer" where
  "grow_indent n ser =
     (if length (indent_string ser) < unat n
      then ser\<lparr>indent_string := indent_string ser @ replicate (length (indent_string ser)) CHR '' ''\<rparr>
      else ser)"

text \<open>The parts of a container's text that depend on \<open>pretty_print\<close>.\<close>

definition open_container :: "bool \<Rightarrow> string \<Rightarrow> u32 \<Rightarrow> serializer \<Rightarrow> serializer" where
  "open_container pretty bracket new_indent ser =
     (if pretty then grow_indent new_indent (write_characters (bracket @ [CHR 0x0A]) ser)
      else write_characters bracket ser)"

definition end_dump :: "bool \<Rightarrow> string \<Rightarrow> u32 \<Rightarrow> serializer \<Rightarrow> failure + serializer" where
  "end_dump pretty bracket indent ser =
     (if pretty
      then ebind (write_indent indent (write_characters [CHR 0x0A] ser)) (\<lambda>ser. out_text bracket ser)
      else out_text bracket ser)"

definition item_indent :: "bool \<Rightarrow> u32 \<Rightarrow> serializer \<Rightarrow> failure + serializer" where
  "item_indent pretty new_indent ser = (if pretty then write_indent new_indent ser else Inr ser)"

definition item_sep :: "bool \<Rightarrow> serializer \<Rightarrow> failure + serializer" where
  "item_sep pretty ser = out_text (if pretty then [CHR '','', CHR 0x0A] else '','') ser"

definition dump_key :: "bool \<Rightarrow> bool \<Rightarrow> u32 \<Rightarrow> string \<Rightarrow> serializer \<Rightarrow> failure + serializer" where
  "dump_key pretty ensure_ascii new_indent key ser =
     ebind (item_indent pretty new_indent ser)
       (\<lambda>ser. ebind (dump_escaped ensure_ascii key (write_characters [CHR 0x22] ser))
         (\<lambda>ser. out_text (if pretty then [CHR 0x22, CHR '':'', CHR '' ''] else [CHR 0x22, CHR '':'']) ser))"

definition quote_name :: "string \<Rightarrow> bool \<Rightarrow> string" where
  "quote_name name pretty = [CHR 0x22] @ name @ [CHR 0x22, CHR '':''] @ (if pretty then '' '' else '''')"

definition dump_binary :: "bool \<Rightarrow> u32 \<Rightarrow> u32 \<Rightarrow> byte list \<Rightarrow> u64 option \<Rightarrow> serializer \<Rightarrow> failure + serializer" where
  "dump_binary pretty new_indent indent bytes subtype ser =
     ebind (item_indent pretty new_indent (open_container pretty ''{'' new_indent ser))
      (\<lambda>ser. let ser = write_characters (quote_name ''bytes'' pretty @ ''['') ser in
        ebind (if bytes = [] then Inr ser
               else dump_list (out_text (if pretty then '', '' else '','')) (\<lambda>b. dump_unsigned (ucast b)) bytes ser)
         (\<lambda>ser. ebind (item_indent pretty new_indent (write_characters (if pretty then '']'' @ [CHR '','', CHR 0x0A] else ''],'') ser))
           (\<lambda>ser. let ser = write_characters (quote_name ''subtype'' pretty) ser in
             ebind (case subtype of Some t \<Rightarrow> dump_unsigned t ser | None \<Rightarrow> out_text ''null'' ser)
               (\<lambda>ser. end_dump pretty ''}'' indent ser))))"

fun dump :: "bool \<Rightarrow> bool \<Rightarrow> u32 \<Rightarrow> u32 \<Rightarrow> json \<Rightarrow> serializer \<Rightarrow> failure + serializer" where
  "dump pretty ensure_ascii step indent (JObject m) ser =
     (if m = [] then out_text ''{}'' ser
      else
        let new_indent = (if pretty then indent + step else indent) in
        ebind (dump_list (item_sep pretty)
                 (\<lambda>kv ser. ebind (dump_key pretty ensure_ascii new_indent (fst kv) ser)
                             (\<lambda>ser. dump pretty ensure_ascii step new_indent (snd kv) ser))
                 m (open_container pretty ''{'' new_indent ser))
          (\<lambda>ser. end_dump pretty ''}'' indent ser))"
| "dump pretty ensure_ascii step indent (JArray xs) ser =
     (if xs = [] then out_text ''[]'' ser
      else
        let new_indent = (if pretty then indent + step else indent) in
        ebind (dump_list (item_sep pretty)
                 (\<lambda>x ser. ebind (item_indent pretty new_indent ser)
                            (\<lambda>ser. dump pretty ensure_ascii step new_indent x ser))
                 xs (open_container pretty ''['' new_indent ser))
          (\<lambda>ser. end_dump pretty '']'' indent ser))"
| "dump pretty ensure_ascii step indent (JString str) ser =
     ebind (dump_escaped ensure_ascii str (write_characters [CHR 0x22] ser)) (\<lambda>ser. out_text [CHR 0x22] ser)"
| "dump pretty ensure_ascii step indent (JBinary bytes subtype) ser =
     dump_binary pretty (indent + step) indent bytes subtype ser"
| "dump pretty ensure_ascii step indent (JBoolean b) ser = out_text (if b then ''true'' else ''false'') ser"
| "dump pretty ensure_ascii step indent (JInteger x) ser = dump_signed x ser"
| "dump pretty ensure_ascii step indent (JUnsigned x) ser = dump_unsigned x ser"
| "dump pretty ensure_ascii step indent (JFloat x) ser = dump_float x ser"
| "dump pretty ensure_ascii step indent JDiscarded ser = out_text ''<discarded>'' ser"
| "dump pretty ensure_ascii step indent JNull ser = out_text ''null'' ser"

text \<open>
  \<open>operator<<\<close> on a stream with the given width and fill character: what it writes.  The program never
  sets a width, so \<open>json_text\<close> is what it writes for a value.
\<close>

definition json_put :: "int \<Rightarrow> char \<Rightarrow> json \<Rightarrow> failure + string" where
  "json_put width fill j =
     (let pretty = 0 < width; indentation = (if pretty then width else 0) in
      ebind (dump pretty False (of_int indentation) 0 j (serializer_new fill EH_strict)) (\<lambda>ser. Inr (so ser)))"

definition json_text :: "json \<Rightarrow> failure + string" where
  "json_text j = json_put 0 CHR '' '' j"

end
