(* ===== verification/C_Numbers.thy ===== *)
theory C_Numbers
  imports Json_Value
begin

text \<open>
  The number conversions of the C library that the lexer calls (\<open>strtoull\<close>, \<open>strtoll\<close>, \<open>strtod\<close>,
  base 10, locale ``C''): value, number of characters consumed (\<open>endptr\<close>) and the \<open>ERANGE\<close> flag.
  \<open>strtod\<close> is the correctly rounded conversion of IEEE 754 (to nearest, ties to even), as in glibc.
  The texts converted never start with white space.
\<close>

named_theorems digit_simps "decimal digits"

definition is_digit_char :: "char \<Rightarrow> bool" where
  "is_digit_char c \<longleftrightarrow> CHR ''0'' \<le> c \<and> c \<le> CHR ''9''"

definition digit_val :: "char \<Rightarrow> nat" where
  "digit_val c = of_char c - 48"

definition digit_char :: "nat \<Rightarrow> char" where
  "digit_char n = char_of (48 + n)"

definition digits_val :: "string \<Rightarrow> nat" where
  "digits_val ds = foldl (\<lambda>a c. 10 * a + digit_val c) 0 ds"

definition take_sign :: "string \<Rightarrow> bool \<times> string" where
  "take_sign s =
     (case s of
        c # t \<Rightarrow> (if c = CHR ''-'' then (True, t) else if c = CHR ''+'' then (False, t) else (False, s))
      | [] \<Rightarrow> (False, s))"

record 'a strto_result =
  strto_value :: 'a
  strto_end :: nat
  strto_erange :: bool

definition strtoull :: "string \<Rightarrow> u64 strto_result" where
  "strtoull s =
     (let (neg, t) = take_sign s; ds = takeWhile is_digit_char t; v = digits_val ds
      in if ds = [] then \<lparr>strto_value = 0, strto_end = 0, strto_erange = False\<rparr>
         else if 2 ^ 64 \<le> v
         then \<lparr>strto_value = - 1, strto_end = length s - length t + length ds, strto_erange = True\<rparr>
         else \<lparr>strto_value = (if neg then - of_nat v else of_nat v),
               strto_end = length s - length t + length ds, strto_erange = False\<rparr>)"

definition strtoll :: "string \<Rightarrow> u64 strto_result" where
  "strtoll s =
     (let (neg, t) = take_sign s; ds = takeWhile is_digit_char t; v = digits_val ds
      in if ds = [] then \<lparr>strto_value = 0, strto_end = 0, strto_erange = False\<rparr>
         else if neg then
           (if 2 ^ 63 < v
            then \<lparr>strto_value = of_int (- (2 ^ 63)), strto_end = length s - length t + length ds,
                  strto_erange = True\<rparr>
            else \<lparr>strto_value = - of_nat v, strto_end = length s - length t + length ds,
                  strto_erange = False\<rparr>)
         else if 2 ^ 63 \<le> v
         then \<lparr>strto_value = of_nat (2 ^ 63 - 1), strto_end = length s - length t + length ds,
               strto_erange = True\<rparr>
         else \<lparr>strto_value = of_nat v, strto_end = length s - length t + length ds,
               strto_erange = False\<rparr>)"

section \<open>Correct rounding\<close>

fun bit_length :: "nat \<Rightarrow> nat" where
  "bit_length n = (if n = 0 then 0 else Suc (bit_length (n div 2)))"

declare bit_length.simps [simp del]

text \<open>\<open>\<lfloor>log\<^sub>2 (p / q)\<rfloor>\<close> for positive \<open>p\<close> and \<open>q\<close>.\<close>

definition ratio_le_pow2 :: "nat \<Rightarrow> nat \<Rightarrow> int \<Rightarrow> bool" where
  "ratio_le_pow2 p q k = (if 0 \<le> k then q * 2 ^ nat k \<le> p else q \<le> p * 2 ^ nat (- k))"

definition floor_log2 :: "nat \<Rightarrow> nat \<Rightarrow> int" where
  "floor_log2 p q =
     (let k = int (bit_length p) - int (bit_length q) in if ratio_le_pow2 p q k then k else k - 1)"

definition round_half_even :: "nat \<Rightarrow> nat \<Rightarrow> nat" where
  "round_half_even n d =
     (let m = n div d; r = n mod d in if d < 2 * r \<or> 2 * r = d \<and> odd m then m + 1 else m)"

text \<open>
  The bit pattern of the double nearest to \<open>p / q\<close>.  With \<open>e\<close> the exponent of the unit in the last
  place and \<open>m\<close> the rounded significand, the pattern is \<open>(e + 1074) * 2\<^sup>5\<^sup>2 + m\<close> for normal and
  subnormal numbers alike, and a carry out of \<open>m\<close> moves to the next binade by itself.
\<close>

definition double_of_ratio :: "nat \<Rightarrow> nat \<Rightarrow> nat" where
  "double_of_ratio p q =
     (if p = 0 then 0
      else
        let e = max (- 1074) (floor_log2 p q - 52);
            m = (if 0 \<le> e then round_half_even p (q * 2 ^ nat e)
                 else round_half_even (p * 2 ^ nat (- e)) q)
        in min (0x7FF * 2 ^ 52) (nat (e + 1074) * 2 ^ 52 + m))"

definition double_of_decimal :: "bool \<Rightarrow> nat \<Rightarrow> int \<Rightarrow> double" where
  "double_of_decimal neg d e =
     (let bits = (if 0 \<le> e then double_of_ratio (d * 10 ^ nat e) 1
                  else double_of_ratio d (10 ^ nat (- e)))
      in of_nat (bits + (if neg then 2 ^ 63 else 0)))"

text \<open>The fraction digits and the exponent of a decimal text, each with the rest of the text.\<close>

definition strtod_fraction :: "string \<Rightarrow> string \<times> string" where
  "strtod_fraction s =
     (case s of
        c # t \<Rightarrow> (if c = CHR ''.'' then (takeWhile is_digit_char t, dropWhile is_digit_char t)
                  else ('''', s))
      | [] \<Rightarrow> ('''', s))"

definition strtod_exponent :: "string \<Rightarrow> int \<times> string" where
  "strtod_exponent s =
     (case s of
        c # t \<Rightarrow>
          (if c = CHR ''e'' \<or> c = CHR ''E''
           then let (eneg, u) = take_sign t; ds = takeWhile is_digit_char u
                in if ds = [] then (0, s)
                   else (if eneg then - int (digits_val ds) else int (digits_val ds),
                         dropWhile is_digit_char u)
           else (0, s))
      | [] \<Rightarrow> (0, s))"

definition strtod :: "string \<Rightarrow> double strto_result" where
  "strtod s =
     (let (neg, s1) = take_sign s;
          ip = takeWhile is_digit_char s1; s2 = dropWhile is_digit_char s1;
          (fp, s3) = strtod_fraction s2;
          (ex, s4) = strtod_exponent s3;
          v = double_of_decimal neg (digits_val (ip @ fp)) (ex - int (length fp))
      in if ip @ fp = [] then \<lparr>strto_value = 0, strto_end = 0, strto_erange = False\<rparr>
         else \<lparr>strto_value = v, strto_end = length s - length s4, strto_erange = \<not> isfinite v\<rparr>)"

section \<open>Digits\<close>

lemma is_digit_char_of_char [digit_simps]:
  "is_digit_char c \<longleftrightarrow> 48 \<le> (of_char c :: nat) \<and> (of_char c :: nat) \<le> 57"
  by (simp add: is_digit_char_def less_eq_char_def)

lemma of_char_digit_char [digit_simps]: "n < 10 \<Longrightarrow> of_char (digit_char n) = 48 + n"
  by (simp add: digit_char_def)

lemma digit_val_digit_char [simp, digit_simps]: "n < 10 \<Longrightarrow> digit_val (digit_char n) = n"
  by (simp add: digit_val_def of_char_digit_char)

lemma is_digit_char_digit_char [simp, digit_simps]: "n < 10 \<Longrightarrow> is_digit_char (digit_char n)"
  by (simp add: is_digit_char_of_char of_char_digit_char)

lemma digits_val_snoc [simp]: "digits_val (ds @ [c]) = 10 * digits_val ds + digit_val c"
  by (simp add: digits_val_def)

lemma digits_val_Nil [simp]: "digits_val [] = 0"
  by (simp add: digits_val_def)

text \<open>The decimal text of a number: what a correct printer writes.\<close>

fun decimal :: "nat \<Rightarrow> string" where
  "decimal n = (if n < 10 then [digit_char n] else decimal (n div 10) @ [digit_char (n mod 10)])"

declare decimal.simps [simp del]

lemma decimal_small: "n < 10 \<Longrightarrow> decimal n = [digit_char n]"
  by (simp add: decimal.simps)

lemma decimal_big: "10 \<le> n \<Longrightarrow> decimal n = decimal (n div 10) @ [digit_char (n mod 10)]"
  using decimal.simps [of n] by simp

lemma decimal_not_Nil [simp]: "decimal n \<noteq> []"
  by (subst decimal.simps) simp

lemma decimal_digits: "c \<in> set (decimal n) \<Longrightarrow> is_digit_char c"
proof (induction n rule: decimal.induct)
  case (1 n)
  then show ?case by (cases "n < 10") (auto simp: decimal_small decimal_big)
qed

lemma digits_val_decimal [simp]: "digits_val (decimal n) = n"
proof (induction n rule: decimal.induct)
  case (1 n)
  then show ?case
    by (cases "n < 10") (simp_all add: decimal_small decimal_big, simp add: digits_val_def)
qed

lemma hd_decimal_zero: "hd (decimal n) = CHR ''0'' \<longleftrightarrow> n = 0"
proof (induction n rule: decimal.induct)
  case (1 n)
  show ?case
  proof (cases "n < 10")
    case True
    then have "digit_char n = CHR ''0'' \<longleftrightarrow> n = 0"
      using of_char_digit_char [of n] by (auto simp: digit_char_def char_of_eq_iff take_bit_eq_mod)
    with True show ?thesis by (simp add: decimal_small)
  qed (use 1 in \<open>simp add: decimal_big\<close>)
qed

lemma takeWhile_all: "\<forall>c\<in>set ds. P c \<Longrightarrow> takeWhile P ds = ds"
  by (induction ds) auto

lemma takeWhile_decimal [simp]: "takeWhile is_digit_char (decimal n) = decimal n"
  by (rule takeWhile_all) (simp add: decimal_digits)

lemma strtoull_decimal:
  assumes "n < 2 ^ 64"
  shows "strtoull (decimal n) =
    \<lparr>strto_value = of_nat n, strto_end = length (decimal n), strto_erange = False\<rparr>"
proof -
  have "is_digit_char (hd (decimal n))" by (rule decimal_digits [of _ n]) simp
  then have "hd (decimal n) \<noteq> CHR ''-''" "hd (decimal n) \<noteq> CHR ''+''"
    by (auto simp: is_digit_char_def less_eq_char_def)
  then have "take_sign (decimal n) = (False, decimal n)"
    by (cases "decimal n") (auto simp: take_sign_def)
  then show ?thesis using assms by (simp add: strtoull_def Let_def)
qed

lemma strtoll_minus_decimal:
  assumes "n \<le> 2 ^ 63"
  shows "strtoll (CHR ''-'' # decimal n) =
    \<lparr>strto_value = - of_nat n, strto_end = Suc (length (decimal n)), strto_erange = False\<rparr>"
  using assms by (simp add: strtoll_def take_sign_def Let_def)

end
