(* ===== verification/Json_Lexer.thy ===== *)
theory Json_Lexer
  imports C_Numbers
begin

text \<open>
  The lexer of \<^verbatim>\<open>src/src/ext/nlohmann/json.hpp\<close> (\<open>detail::lexer\<close>) over an iterator adapter on
  \<open>char\<close>: its state, its input management and every scan function.  \<open>current\<close> has type \<open>int\<close> as in
  the source, with \<open>-1\<close> for \<open>eof()\<close>; characters are compared by their codes.  The three counters of
  \<open>position_t\<close> are natural numbers: they count characters of the input, whose length is far below
  \<open>2\<^sup>6\<^sup>4\<close>.  The result of a switch branch is \<open>Some t\<close> when the function returns the token \<open>t\<close> there and
  \<open>None\<close> when its loop goes on.
\<close>

datatype token_type =
    TK_uninitialized | TK_literal_true | TK_literal_false | TK_literal_null | TK_value_string
  | TK_value_unsigned | TK_value_integer | TK_value_float | TK_begin_array | TK_begin_object
  | TK_end_array | TK_end_object | TK_name_separator | TK_value_separator | TK_parse_error
  | TK_end_of_input | TK_literal_or_value

abbreviation quoted :: "string \<Rightarrow> string" where
  "quoted s \<equiv> CHR 0x27 # s @ [CHR 0x27]"

fun token_type_name :: "token_type \<Rightarrow> string" where
  "token_type_name TK_uninitialized = ''<uninitialized>''"
| "token_type_name TK_literal_true = ''true literal''"
| "token_type_name TK_literal_false = ''false literal''"
| "token_type_name TK_literal_null = ''null literal''"
| "token_type_name TK_value_string = ''string literal''"
| "token_type_name TK_value_unsigned = ''number literal''"
| "token_type_name TK_value_integer = ''number literal''"
| "token_type_name TK_value_float = ''number literal''"
| "token_type_name TK_begin_array = quoted ''[''"
| "token_type_name TK_begin_object = quoted ''{''"
| "token_type_name TK_end_array = quoted '']''"
| "token_type_name TK_end_object = quoted ''}''"
| "token_type_name TK_name_separator = quoted '':''"
| "token_type_name TK_value_separator = quoted '',''"
| "token_type_name TK_parse_error = ''<parse error>''"
| "token_type_name TK_end_of_input = ''end of input''"
| "token_type_name TK_literal_or_value = quoted ''['' @ '', '' @ quoted ''{'' @ '', or a literal''"

record position_t =
  chars_read_total :: nat
  chars_read_current_line :: nat
  lines_read :: nat

record lexer =
  ia :: string
  ignore_comments :: bool
  current :: int
  next_unget :: bool
  position :: position_t
  token_string :: string
  token_buffer :: string
  error_message :: string
  value_integer :: u64
  value_unsigned :: u64
  value_float :: double
  decimal_point_char :: int
  decimal_point_position :: "nat option"

abbreviation eof :: int where
  "eof \<equiv> - 1"

text \<open>The process never calls \<open>setlocale\<close>, so \<open>localeconv\<close> describes the locale ``C''.\<close>

definition get_decimal_point :: int where
  "get_decimal_point = 0x2E"

definition lexer_new :: "string \<Rightarrow> bool \<Rightarrow> lexer" where
  "lexer_new adapter ignore =
     \<lparr>ia = adapter, ignore_comments = ignore, current = eof, next_unget = False,
      position = \<lparr>chars_read_total = 0, chars_read_current_line = 0, lines_read = 0\<rparr>,
      token_string = '''', token_buffer = '''', error_message = '''', value_integer = 0,
      value_unsigned = 0, value_float = 0, decimal_point_char = get_decimal_point,
      decimal_point_position = None\<rparr>"

section \<open>Input management\<close>

definition get_character :: "string \<Rightarrow> int \<times> string" where
  "get_character adapter = (case adapter of [] \<Rightarrow> (eof, []) | c # cs \<Rightarrow> (of_char c, cs))"

definition lex_reset :: "lexer \<Rightarrow> lexer" where
  "lex_reset lx =
     lx\<lparr>token_buffer := '''', token_string := [char_of (current lx)],
        decimal_point_position := None\<rparr>"

definition lex_read :: "lexer \<Rightarrow> lexer" where
  "lex_read lx =
     (if next_unget lx then lx\<lparr>next_unget := False\<rparr>
      else let (c, adapter) = get_character (ia lx) in lx\<lparr>current := c, ia := adapter\<rparr>)"

definition lex_get :: "lexer \<Rightarrow> lexer" where
  "lex_get lx =
     (let p = position lx;
          p = p\<lparr>chars_read_total := chars_read_total p + 1,
                chars_read_current_line := chars_read_current_line p + 1\<rparr>;
          lx = lex_read lx;
          lx = (if current lx \<noteq> eof
                then lx\<lparr>token_string := token_string lx @ [char_of (current lx)]\<rparr> else lx);
          p = (if current lx = 0x0A
               then p\<lparr>lines_read := lines_read p + 1, chars_read_current_line := 0\<rparr> else p)
      in lx\<lparr>position := p\<rparr>)"

definition lex_unget :: "lexer \<Rightarrow> failure + lexer" where
  "lex_unget lx =
     (let p = position lx;
          p = p\<lparr>chars_read_total := chars_read_total p - 1\<rparr>;
          p = (if chars_read_current_line p = 0
               then (if 0 < lines_read p then p\<lparr>lines_read := lines_read p - 1\<rparr> else p)
               else p\<lparr>chars_read_current_line := chars_read_current_line p - 1\<rparr>);
          lx = lx\<lparr>next_unget := True, position := p\<rparr>
      in if current lx \<noteq> eof
         then ebind (json_assert (token_string lx \<noteq> []))
                (\<lambda>_. Inr (lx\<lparr>token_string := butlast (token_string lx)\<rparr>))
         else Inr lx)"

definition lex_add :: "int \<Rightarrow> lexer \<Rightarrow> lexer" where
  "lex_add c lx = lx\<lparr>token_buffer := token_buffer lx @ [char_of c]\<rparr>"

text \<open>Number of characters that are still to be read: the measure of every loop.\<close>

definition pending_len :: "lexer \<Rightarrow> nat" where
  "pending_len lx = length (ia lx) + (if next_unget lx \<and> current lx \<noteq> eof then 1 else 0)"

lemma of_char_ge_0 [simp]: "(0 :: int) \<le> of_char c"
proof -
  have "(of_char c :: int) = int (of_char c)" by (simp add: of_nat_of_char)
  then show ?thesis by simp
qed

lemma of_char_not_eof [simp]: "of_char c \<noteq> eof"
  using of_char_ge_0 [of c] by linarith

lemma pending_len_get: "current (lex_get lx) \<noteq> eof \<Longrightarrow> Suc (pending_len (lex_get lx)) = pending_len lx"
  by (auto simp: lex_get_def lex_read_def get_character_def pending_len_def Let_def
      split: list.splits if_splits)

lemma pending_len_get_le: "pending_len (lex_get lx) \<le> pending_len lx"
  by (auto simp: lex_get_def lex_read_def get_character_def pending_len_def Let_def
      split: list.splits if_splits)

lemma pending_len_simps [simp]:
  "pending_len (lex_add c lx) = pending_len lx"
  "pending_len (lex_reset lx) = pending_len lx"
  "pending_len (lx\<lparr>error_message := e\<rparr>) = pending_len lx"
  "pending_len (lx\<lparr>decimal_point_position := dp\<rparr>) = pending_len lx"
  "pending_len (lx\<lparr>value_unsigned := u\<rparr>) = pending_len lx"
  "pending_len (lx\<lparr>value_integer := u\<rparr>) = pending_len lx"
  "pending_len (lx\<lparr>value_float := d\<rparr>) = pending_len lx"
  by (simp_all add: pending_len_def lex_add_def lex_reset_def)

lemma current_simps [simp]:
  "current (lex_add c lx) = current lx"
  "current (lex_reset lx) = current lx"
  by (simp_all add: lex_add_def lex_reset_def)

lemma pending_len_unget:
  "lex_unget lx = Inr lx' \<Longrightarrow>
   pending_len lx' = length (ia lx) + (if current lx \<noteq> eof then 1 else 0) \<and> current lx' = current lx"
  by (auto simp: lex_unget_def Let_def pending_len_def result_simps split: if_splits)

lemma next_unget_get [simp]: "\<not> next_unget (lex_get lx)"
  by (simp add: lex_get_def lex_read_def Let_def split: prod.split)

lemma pending_len_unget_get:
  assumes "lex_unget (lex_get lx) = Inr lx'"
  shows "pending_len lx' \<le> pending_len lx"
proof -
  have "pending_len lx' = pending_len (lex_get lx) + (if current (lex_get lx) \<noteq> eof then 1 else 0)"
    using pending_len_unget [OF assms] by (simp add: pending_len_def [of "lex_get lx"])
  then show ?thesis
    using pending_len_get [of lx] pending_len_get_le [of lx] by (simp split: if_splits)
qed

section \<open>Strings\<close>

definition lex_error :: "string \<Rightarrow> lexer \<Rightarrow> failure + token_type option \<times> lexer" where
  "lex_error msg lx = Inr (Some TK_parse_error, lx\<lparr>error_message := msg\<rparr>)"

text \<open>\<open>get_codepoint\<close>: four hexadecimal digits, \<open>-1\<close> when one is missing.\<close>

fun get_codepoint_loop :: "nat list \<Rightarrow> int \<Rightarrow> lexer \<Rightarrow> failure + int \<times> lexer" where
  "get_codepoint_loop [] codepoint lx =
     ebind (json_assert (0 \<le> codepoint \<and> codepoint \<le> 0xFFFF)) (\<lambda>_. Inr (codepoint, lx))"
| "get_codepoint_loop (factor # factors) codepoint lx =
     (let lx = lex_get lx; c = current lx in
      if 0x30 \<le> c \<and> c \<le> 0x39
      then get_codepoint_loop factors (codepoint + push_bit factor (c - 0x30)) lx
      else if 0x41 \<le> c \<and> c \<le> 0x46
      then get_codepoint_loop factors (codepoint + push_bit factor (c - 0x37)) lx
      else if 0x61 \<le> c \<and> c \<le> 0x66
      then get_codepoint_loop factors (codepoint + push_bit factor (c - 0x57)) lx
      else Inr (- 1, lx))"

definition get_codepoint :: "lexer \<Rightarrow> failure + int \<times> lexer" where
  "get_codepoint lx =
     ebind (json_assert (current lx = 0x75)) (\<lambda>_. get_codepoint_loop [12, 8, 4, 0] 0 lx)"

text \<open>The ranges of \<open>next_byte_in_range\<close> are given as pairs.\<close>

fun next_byte_loop :: "(int \<times> int) list \<Rightarrow> lexer \<Rightarrow> bool \<times> lexer" where
  "next_byte_loop [] lx = (True, lx)"
| "next_byte_loop ((lo, hi) # ranges) lx =
     (let lx = lex_get lx in
      if lo \<le> current lx \<and> current lx \<le> hi then next_byte_loop ranges (lex_add (current lx) lx)
      else (False, lx\<lparr>error_message := ''invalid string: ill-formed UTF-8 byte''\<rparr>))"

definition next_byte_in_range :: "(int \<times> int) list \<Rightarrow> lexer \<Rightarrow> failure + bool \<times> lexer" where
  "next_byte_in_range ranges lx =
     ebind (json_assert (length ranges = 1 \<or> length ranges = 2 \<or> length ranges = 3))
       (\<lambda>_. Inr (next_byte_loop ranges (lex_add (current lx) lx)))"

text \<open>A code point as UTF-8, appended byte by byte.\<close>

definition add_codepoint :: "int \<Rightarrow> lexer \<Rightarrow> lexer" where
  "add_codepoint codepoint lx =
     (if codepoint < 0x80 then lex_add codepoint lx
      else if codepoint \<le> 0x7FF then
        lex_add (0x80 OR (codepoint AND 0x3F)) (lex_add (0xC0 OR drop_bit 6 codepoint) lx)
      else if codepoint \<le> 0xFFFF then
        lex_add (0x80 OR (codepoint AND 0x3F))
          (lex_add (0x80 OR (drop_bit 6 codepoint AND 0x3F))
            (lex_add (0xE0 OR drop_bit 12 codepoint) lx))
      else
        lex_add (0x80 OR (codepoint AND 0x3F))
          (lex_add (0x80 OR (drop_bit 6 codepoint AND 0x3F))
            (lex_add (0x80 OR (drop_bit 12 codepoint AND 0x3F))
              (lex_add (0xF0 OR drop_bit 18 codepoint) lx))))"

definition hex_digits_message :: string where
  "hex_digits_message =
     ''invalid string: '' @ quoted (CHR 0x5C # ''u'') @ '' must be followed by 4 hex digits''"

text \<open>Case \<open>'u'\<close> of the escapes.\<close>

definition finish_codepoint :: "int \<Rightarrow> lexer \<Rightarrow> failure + token_type option \<times> lexer" where
  "finish_codepoint codepoint lx =
     ebind (json_assert (0 \<le> codepoint \<and> codepoint \<le> 0x10FFFF))
       (\<lambda>_. Inr (None, add_codepoint codepoint lx))"

definition scan_low_surrogate :: "int \<Rightarrow> lexer \<Rightarrow> failure + token_type option \<times> lexer" where
  "scan_low_surrogate codepoint1 lx =
     ebind (get_codepoint lx)
       (\<lambda>(codepoint2, lx).
          if codepoint2 = - 1 then lex_error hex_digits_message lx
          else if 0xDC00 \<le> codepoint2 \<and> codepoint2 \<le> 0xDFFF
          then finish_codepoint (push_bit 10 codepoint1 + codepoint2 - 0x35FDC00) lx
          else lex_error
            ''invalid string: surrogate U+D800..U+DBFF must be followed by U+DC00..U+DFFF'' lx)"

definition scan_unicode_escape :: "lexer \<Rightarrow> failure + token_type option \<times> lexer" where
  "scan_unicode_escape lx =
     ebind (get_codepoint lx)
       (\<lambda>(codepoint1, lx).
          if codepoint1 = - 1 then lex_error hex_digits_message lx
          else if 0xD800 \<le> codepoint1 \<and> codepoint1 \<le> 0xDBFF then
            (let lx = lex_get lx in
             if current lx = 0x5C then
               (let lx = lex_get lx in
                if current lx = 0x75 then scan_low_surrogate codepoint1 lx
                else lex_error
                  ''invalid string: surrogate U+D800..U+DBFF must be followed by U+DC00..U+DFFF'' lx)
             else lex_error
               ''invalid string: surrogate U+D800..U+DBFF must be followed by U+DC00..U+DFFF'' lx)
          else if 0xDC00 \<le> codepoint1 \<and> codepoint1 \<le> 0xDFFF then
            lex_error ''invalid string: surrogate U+DC00..U+DFFF must follow U+D800..U+DBFF'' lx
          else finish_codepoint codepoint1 lx)"

definition scan_escape :: "lexer \<Rightarrow> failure + token_type option \<times> lexer" where
  "scan_escape lx =
     (let lx = lex_get lx; c = current lx in
      if c = 0x22 then Inr (None, lex_add 0x22 lx)
      else if c = 0x5C then Inr (None, lex_add 0x5C lx)
      else if c = 0x2F then Inr (None, lex_add 0x2F lx)
      else if c = 0x62 then Inr (None, lex_add 0x08 lx)
      else if c = 0x66 then Inr (None, lex_add 0x0C lx)
      else if c = 0x6E then Inr (None, lex_add 0x0A lx)
      else if c = 0x72 then Inr (None, lex_add 0x0D lx)
      else if c = 0x74 then Inr (None, lex_add 0x09 lx)
      else if c = 0x75 then scan_unicode_escape lx
      else lex_error ''invalid string: forbidden character after backslash'' lx)"

definition control_names :: "string list" where
  "control_names =
     [''NUL'', ''SOH'', ''STX'', ''ETX'', ''EOT'', ''ENQ'', ''ACK'', ''BEL'', ''BS'', ''HT'', ''LF'',
      ''VT'', ''FF'', ''CR'', ''SO'', ''SI'', ''DLE'', ''DC1'', ''DC2'', ''DC3'', ''DC4'', ''NAK'',
      ''SYN'', ''ETB'', ''CAN'', ''EM'', ''SUB'', ''ESC'', ''FS'', ''GS'', ''RS'', ''US'']"

definition control_message :: "int \<Rightarrow> string" where
  "control_message c =
     (let n = nat c;
          hex = [''0123456789ABCDEF'' ! (n div 16), ''0123456789ABCDEF'' ! (n mod 16)];
          short = (if c = 0x08 then '' or '' @ [CHR 0x5C] @ ''b''
                   else if c = 0x09 then '' or '' @ [CHR 0x5C] @ ''t''
                   else if c = 0x0A then '' or '' @ [CHR 0x5C] @ ''n''
                   else if c = 0x0C then '' or '' @ [CHR 0x5C] @ ''f''
                   else if c = 0x0D then '' or '' @ [CHR 0x5C] @ ''r'' else '''')
      in ''invalid string: control character U+00'' @ hex @ '' ('' @ control_names ! n @
         '') must be escaped to '' @ [CHR 0x5C] @ ''u00'' @ hex @ short)"

text \<open>The lead bytes of multi-byte characters and the ranges of the bytes that must follow.\<close>

definition utf8_ranges :: "int \<Rightarrow> (int \<times> int) list" where
  "utf8_ranges c =
     (if 0xC2 \<le> c \<and> c \<le> 0xDF then [(0x80, 0xBF)]
      else if c = 0xE0 then [(0xA0, 0xBF), (0x80, 0xBF)]
      else if 0xE1 \<le> c \<and> c \<le> 0xEC \<or> 0xEE \<le> c \<and> c \<le> 0xEF then [(0x80, 0xBF), (0x80, 0xBF)]
      else if c = 0xED then [(0x80, 0x9F), (0x80, 0xBF)]
      else if c = 0xF0 then [(0x90, 0xBF), (0x80, 0xBF), (0x80, 0xBF)]
      else if 0xF1 \<le> c \<and> c \<le> 0xF3 then [(0x80, 0xBF), (0x80, 0xBF), (0x80, 0xBF)]
      else if c = 0xF4 then [(0x80, 0x8F), (0x80, 0xBF), (0x80, 0xBF)]
      else [])"

definition scan_utf8 :: "lexer \<Rightarrow> failure + token_type option \<times> lexer" where
  "scan_utf8 lx =
     (if utf8_ranges (current lx) = []
      then lex_error ''invalid string: ill-formed UTF-8 byte'' lx
      else ebind (next_byte_in_range (utf8_ranges (current lx)) lx)
             (\<lambda>(ok, lx). Inr (if ok then None else Some TK_parse_error, lx)))"

text \<open>The switch of \<open>scan_string\<close> on the character just read.\<close>

definition scan_string_step :: "lexer \<Rightarrow> failure + token_type option \<times> lexer" where
  "scan_string_step lx =
     (let c = current lx in
      if c = eof then lex_error ''invalid string: missing closing quote'' lx
      else if c = 0x22 then Inr (Some TK_value_string, lx)
      else if c = 0x5C then scan_escape lx
      else if 0x00 \<le> c \<and> c \<le> 0x1F then lex_error (control_message c) lx
      else if 0x20 \<le> c \<and> c \<le> 0x7F then Inr (None, lex_add c lx)
      else scan_utf8 lx)"

text \<open>
  No scan function puts back more than it read: with at most \<open>n\<close> characters pending before, at most
  \<open>n\<close> are pending after.
\<close>

definition shrinks :: "nat \<Rightarrow> failure + 'a \<times> lexer \<Rightarrow> bool" where
  "shrinks n m \<longleftrightarrow> (\<forall>r lx. m = Inr (r, lx) \<longrightarrow> pending_len lx \<le> n)"

lemma shrinks_intros [intro]:
  "pending_len lx \<le> n \<Longrightarrow> shrinks n (Inr (r, lx))"
  "(P \<Longrightarrow> shrinks n x) \<Longrightarrow> (\<not> P \<Longrightarrow> shrinks n y) \<Longrightarrow> shrinks n (if P then x else y)"
  "pending_len lx \<le> n \<Longrightarrow> shrinks n (lex_error msg lx)"
  by (auto simp: shrinks_def lex_error_def)

lemma shrinks_Inl [simp]: "shrinks n (Inl e)"
  by (simp add: shrinks_def)

lemma shrinks_ebind:
  "shrinks n m \<Longrightarrow> (\<And>r lx. pending_len lx \<le> n \<Longrightarrow> shrinks n (f (r, lx))) \<Longrightarrow> shrinks n (ebind m f)"
  by (auto simp: shrinks_def result_simps)

lemma shrinks_assert: "shrinks n (f ()) \<Longrightarrow> shrinks n (ebind (json_assert b) f)"
  by (auto simp: shrinks_def result_simps)

lemma get_le: "pending_len lx \<le> n \<Longrightarrow> pending_len (lex_get lx) \<le> n"
  using pending_len_get_le [of lx] by linarith

lemma get_codepoint_loop_shrinks:
  "pending_len lx \<le> n \<Longrightarrow> shrinks n (get_codepoint_loop fs cp lx)"
  by (induction fs cp lx rule: get_codepoint_loop.induct)
    (auto simp: Let_def get_le intro!: shrinks_intros shrinks_assert)

lemma get_codepoint_shrinks: "pending_len lx \<le> n \<Longrightarrow> shrinks n (get_codepoint lx)"
  unfolding get_codepoint_def by (intro shrinks_assert get_codepoint_loop_shrinks)

lemma next_byte_loop_pending: "pending_len (snd (next_byte_loop rs lx)) \<le> pending_len lx"
proof (induction rs lx rule: next_byte_loop.induct)
  case (2 lo hi rs lx)
  then show ?case using pending_len_get_le [of lx] by (fastforce simp: Let_def)
qed simp

lemma next_byte_in_range_shrinks: "pending_len lx \<le> n \<Longrightarrow> shrinks n (next_byte_in_range rs lx)"
  using next_byte_loop_pending [of rs "lex_add (current lx) lx"]
  by (auto simp: shrinks_def next_byte_in_range_def result_simps)

lemma finish_codepoint_shrinks: "pending_len lx \<le> n \<Longrightarrow> shrinks n (finish_codepoint cp lx)"
  unfolding finish_codepoint_def
  by (intro shrinks_assert shrinks_intros) (simp add: add_codepoint_def)

lemma scan_low_surrogate_shrinks: "pending_len lx \<le> n \<Longrightarrow> shrinks n (scan_low_surrogate cp lx)"
  unfolding scan_low_surrogate_def
  by (auto intro!: shrinks_ebind get_codepoint_shrinks finish_codepoint_shrinks shrinks_intros)

lemma scan_unicode_escape_shrinks: "pending_len lx \<le> n \<Longrightarrow> shrinks n (scan_unicode_escape lx)"
  unfolding scan_unicode_escape_def Let_def prod.case
  by (intro shrinks_ebind get_codepoint_shrinks)
    (auto intro!: shrinks_intros scan_low_surrogate_shrinks finish_codepoint_shrinks get_le)

lemma scan_escape_shrinks: "pending_len lx \<le> n \<Longrightarrow> shrinks n (scan_escape lx)"
  unfolding scan_escape_def Let_def
  by (auto intro!: shrinks_intros scan_unicode_escape_shrinks simp: get_le)

lemma scan_utf8_shrinks: "pending_len lx \<le> n \<Longrightarrow> shrinks n (scan_utf8 lx)"
  unfolding scan_utf8_def
  by (auto intro!: shrinks_intros shrinks_ebind next_byte_in_range_shrinks)

lemma scan_string_step_shrinks: "pending_len lx \<le> n \<Longrightarrow> shrinks n (scan_string_step lx)"
  unfolding scan_string_step_def Let_def
  by (auto intro!: shrinks_intros scan_escape_shrinks scan_utf8_shrinks)

lemma scan_string_step_eof:
  "current lx = eof \<Longrightarrow> scan_string_step lx \<noteq> Inr (None, lx')"
  by (simp add: scan_string_step_def lex_error_def)

function scan_string_loop :: "lexer \<Rightarrow> failure + token_type \<times> lexer" where
  "scan_string_loop lx =
     ebind (scan_string_step (lex_get lx))
       (\<lambda>(r, lx). case r of Some t \<Rightarrow> Inr (t, lx) | None \<Rightarrow> scan_string_loop lx)"
  by pat_completeness auto
termination
proof (relation "measure pending_len", goal_cases)
  case (2 lx p r lx')
  then have step: "scan_string_step (lex_get lx) = Inr (None, lx')" by simp
  then have "current (lex_get lx) \<noteq> eof" using scan_string_step_eof by blast
  then show ?case
    using scan_string_step_shrinks [OF order_refl, of "lex_get lx"] pending_len_get [of lx] step
    by (auto simp: shrinks_def)
qed simp

declare scan_string_loop.simps [simp del]

definition scan_string :: "lexer \<Rightarrow> failure + token_type \<times> lexer" where
  "scan_string lx =
     (let lx = lex_reset lx
      in ebind (json_assert (current lx = 0x22)) (\<lambda>_. scan_string_loop lx))"

section \<open>Comments\<close>

function scan_line_comment :: "lexer \<Rightarrow> bool \<times> lexer" where
  "scan_line_comment lx =
     (let lx = lex_get lx in
      if current lx = 0x0A \<or> current lx = 0x0D \<or> current lx = eof \<or> current lx = 0x00
      then (True, lx) else scan_line_comment lx)"
  by pat_completeness auto
termination
proof (relation "measure pending_len", goal_cases)
  case (2 lx lx')
  then show ?case using pending_len_get [of lx] by auto
qed simp

declare scan_line_comment.simps [simp del]

function scan_block_comment :: "lexer \<Rightarrow> failure + bool \<times> lexer" where
  "scan_block_comment lx =
     (let lx = lex_get lx in
      if current lx = eof \<or> current lx = 0x00 then
        Inr (False, lx\<lparr>error_message := ''invalid comment; missing closing '' @ quoted ''*/''\<rparr>)
      else if current lx = 0x2A then
        (let lx = lex_get lx in
         if current lx = 0x2F then Inr (True, lx)
         else ebind (lex_unget lx) scan_block_comment)
      else scan_block_comment lx)"
  by pat_completeness auto
termination
proof (relation "measure pending_len", goal_cases)
  case (2 lx lx1 lx2 lx3)
  then have "current (lex_get lx) \<noteq> eof" and "pending_len lx3 \<le> pending_len (lex_get lx)"
    by (simp_all add: pending_len_unget_get)
  then show ?case using pending_len_get [of lx] by simp
next
  case (3 lx lx')
  then show ?case using pending_len_get [of lx] by auto
qed simp

declare scan_block_comment.simps [simp del]

definition scan_comment :: "lexer \<Rightarrow> failure + bool \<times> lexer" where
  "scan_comment lx =
     (let lx = lex_get lx in
      if current lx = 0x2F then Inr (scan_line_comment lx)
      else if current lx = 0x2A then scan_block_comment lx
      else Inr (False, lx\<lparr>error_message :=
        ''invalid comment; expecting '' @ quoted ''/'' @ '' or '' @ quoted ''*'' @ '' after '' @
        quoted ''/''\<rparr>))"

section \<open>Numbers\<close>

text \<open>
  The labels of \<open>scan_number\<close>, last one first: a \<open>goto\<close> is a call in tail position.  \<open>number_type\<close> is
  passed along; the labels that assign it ignore the value they are given.
\<close>

abbreviation is_digit_code :: "int \<Rightarrow> bool" where
  "is_digit_code c \<equiv> 0x30 \<le> c \<and> c \<le> 0x39"

definition convert_float :: "lexer \<Rightarrow> failure + token_type \<times> lexer" where
  "convert_float lx =
     (let x = strtod (token_buffer lx); lx = lx\<lparr>value_float := strto_value x\<rparr>
      in ebind (json_assert (strto_end x = length (token_buffer lx)))
           (\<lambda>_. Inr (TK_value_float, lx)))"

definition scan_number_done :: "token_type \<Rightarrow> lexer \<Rightarrow> failure + token_type \<times> lexer" where
  "scan_number_done number_type lx =
     ebind (lex_unget lx)
       (\<lambda>lx.
          if number_type = TK_value_unsigned then
            (let x = strtoull (token_buffer lx)
             in ebind (json_assert (strto_end x = length (token_buffer lx)))
                  (\<lambda>_. if \<not> strto_erange x
                       then (let lx = lx\<lparr>value_unsigned := strto_value x\<rparr>
                             in if value_unsigned lx = strto_value x then Inr (TK_value_unsigned, lx)
                                else convert_float lx)
                       else convert_float lx))
          else if number_type = TK_value_integer then
            (let x = strtoll (token_buffer lx)
             in ebind (json_assert (strto_end x = length (token_buffer lx)))
                  (\<lambda>_. if \<not> strto_erange x
                       then (let lx = lx\<lparr>value_integer := strto_value x\<rparr>
                             in if value_integer lx = strto_value x then Inr (TK_value_integer, lx)
                                else convert_float lx)
                       else convert_float lx))
          else convert_float lx)"

definition number_error :: "string \<Rightarrow> lexer \<Rightarrow> failure + token_type \<times> lexer" where
  "number_error msg lx = Inr (TK_parse_error, lx\<lparr>error_message := msg\<rparr>)"

function scan_number_any2 :: "token_type \<Rightarrow> lexer \<Rightarrow> failure + token_type \<times> lexer" where
  "scan_number_any2 number_type lx =
     (let lx = lex_get lx in
      if is_digit_code (current lx) then scan_number_any2 number_type (lex_add (current lx) lx)
      else scan_number_done number_type lx)"
  by pat_completeness auto
termination
proof (relation "measure (\<lambda>(_, lx). pending_len lx)", goal_cases)
  case (2 t lx lx')
  then show ?case using pending_len_get [of lx] by auto
qed simp

declare scan_number_any2.simps [simp del]

definition scan_number_sign :: "token_type \<Rightarrow> lexer \<Rightarrow> failure + token_type \<times> lexer" where
  "scan_number_sign number_type lx =
     (let lx = lex_get lx in
      if is_digit_code (current lx) then scan_number_any2 number_type (lex_add (current lx) lx)
      else number_error ''invalid number; expected digit after exponent sign'' lx)"

definition scan_number_exponent :: "token_type \<Rightarrow> lexer \<Rightarrow> failure + token_type \<times> lexer" where
  "scan_number_exponent _ lx =
     (let number_type = TK_value_float; lx = lex_get lx in
      if current lx = 0x2B \<or> current lx = 0x2D
      then scan_number_sign number_type (lex_add (current lx) lx)
      else if is_digit_code (current lx)
      then scan_number_any2 number_type (lex_add (current lx) lx)
      else number_error (''invalid number; expected '' @ quoted ''+'' @ '', '' @ quoted ''-'' @
             '', or digit after exponent'') lx)"

function scan_number_decimal2 :: "token_type \<Rightarrow> lexer \<Rightarrow> failure + token_type \<times> lexer" where
  "scan_number_decimal2 number_type lx =
     (let lx = lex_get lx in
      if is_digit_code (current lx) then scan_number_decimal2 number_type (lex_add (current lx) lx)
      else if current lx = 0x65 \<or> current lx = 0x45
      then scan_number_exponent number_type (lex_add (current lx) lx)
      else scan_number_done number_type lx)"
  by pat_completeness auto
termination
proof (relation "measure (\<lambda>(_, lx). pending_len lx)", goal_cases)
  case (2 t lx lx')
  then show ?case using pending_len_get [of lx] by auto
qed simp

declare scan_number_decimal2.simps [simp del]

definition scan_number_decimal1 :: "token_type \<Rightarrow> lexer \<Rightarrow> failure + token_type \<times> lexer" where
  "scan_number_decimal1 _ lx =
     (let number_type = TK_value_float; lx = lex_get lx in
      if is_digit_code (current lx) then scan_number_decimal2 number_type (lex_add (current lx) lx)
      else number_error (''invalid number; expected digit after '' @ quoted ''.'') lx)"

definition add_decimal_point :: "lexer \<Rightarrow> lexer" where
  "add_decimal_point lx =
     (let lx = lex_add (decimal_point_char lx) lx
      in lx\<lparr>decimal_point_position := Some (length (token_buffer lx) - 1)\<rparr>)"

function scan_number_any1 :: "token_type \<Rightarrow> lexer \<Rightarrow> failure + token_type \<times> lexer" where
  "scan_number_any1 number_type lx =
     (let lx = lex_get lx in
      if is_digit_code (current lx) then scan_number_any1 number_type (lex_add (current lx) lx)
      else if current lx = 0x2E then scan_number_decimal1 number_type (add_decimal_point lx)
      else if current lx = 0x65 \<or> current lx = 0x45
      then scan_number_exponent number_type (lex_add (current lx) lx)
      else scan_number_done number_type lx)"
  by pat_completeness auto
termination
proof (relation "measure (\<lambda>(_, lx). pending_len lx)", goal_cases)
  case (2 t lx lx')
  then show ?case using pending_len_get [of lx] by auto
qed simp

declare scan_number_any1.simps [simp del]

definition scan_number_zero :: "token_type \<Rightarrow> lexer \<Rightarrow> failure + token_type \<times> lexer" where
  "scan_number_zero number_type lx =
     (let lx = lex_get lx in
      if current lx = 0x2E then scan_number_decimal1 number_type (add_decimal_point lx)
      else if current lx = 0x65 \<or> current lx = 0x45
      then scan_number_exponent number_type (lex_add (current lx) lx)
      else scan_number_done number_type lx)"

definition scan_number_minus :: "token_type \<Rightarrow> lexer \<Rightarrow> failure + token_type \<times> lexer" where
  "scan_number_minus _ lx =
     (let number_type = TK_value_integer; lx = lex_get lx in
      if current lx = 0x30 then scan_number_zero number_type (lex_add (current lx) lx)
      else if 0x31 \<le> current lx \<and> current lx \<le> 0x39
      then scan_number_any1 number_type (lex_add (current lx) lx)
      else number_error (''invalid number; expected digit after '' @ quoted ''-'') lx)"

definition scan_number :: "lexer \<Rightarrow> failure + token_type \<times> lexer" where
  "scan_number lx =
     (let lx = lex_reset lx; number_type = TK_value_unsigned in
      if current lx = 0x2D then scan_number_minus number_type (lex_add (current lx) lx)
      else if current lx = 0x30 then scan_number_zero number_type (lex_add (current lx) lx)
      else if 0x31 \<le> current lx \<and> current lx \<le> 0x39
      then scan_number_any1 number_type (lex_add (current lx) lx)
      else Inl Assertion_failed)"

section \<open>The scanner\<close>

fun scan_literal_loop :: "string \<Rightarrow> token_type \<Rightarrow> lexer \<Rightarrow> token_type \<times> lexer" where
  "scan_literal_loop [] return_type lx = (return_type, lx)"
| "scan_literal_loop (c # cs) return_type lx =
     (let lx = lex_get lx in
      if char_of (current lx) \<noteq> c then (TK_parse_error, lx\<lparr>error_message := ''invalid literal''\<rparr>)
      else scan_literal_loop cs return_type lx)"

definition scan_literal :: "string \<Rightarrow> token_type \<Rightarrow> lexer \<Rightarrow> failure + token_type \<times> lexer" where
  "scan_literal literal_text return_type lx =
     ebind (json_assert (char_of (current lx) = hd literal_text))
       (\<lambda>_. Inr (scan_literal_loop (tl literal_text) return_type lx))"

definition skip_bom :: "lexer \<Rightarrow> failure + bool \<times> lexer" where
  "skip_bom lx =
     (let lx = lex_get lx in
      if current lx = 0xEF then
        (let lx = lex_get lx in
         if current lx = 0xBB then
           (let lx = lex_get lx in Inr (current lx = 0xBF, lx))
         else Inr (False, lx))
      else ebind (lex_unget lx) (\<lambda>lx. Inr (True, lx)))"

function skip_whitespace :: "lexer \<Rightarrow> lexer" where
  "skip_whitespace lx =
     (let lx = lex_get lx in
      if current lx = 0x20 \<or> current lx = 0x09 \<or> current lx = 0x0A \<or> current lx = 0x0D
      then skip_whitespace lx else lx)"
  by pat_completeness auto
termination
proof (relation "measure pending_len", goal_cases)
  case (2 lx lx')
  then show ?case using pending_len_get [of lx] by auto
qed simp

declare skip_whitespace.simps [simp del]

lemma skip_whitespace_le: "pending_len (skip_whitespace lx) \<le> pending_len lx"
proof (induction lx rule: skip_whitespace.induct)
  case (1 lx)
  then show ?case
    using pending_len_get_le [of lx]
    by (subst skip_whitespace.simps) (auto simp: Let_def)
qed

lemma skip_whitespace_less:
  "current (skip_whitespace lx) \<noteq> eof \<Longrightarrow> pending_len (skip_whitespace lx) < pending_len lx"
proof (induction lx rule: skip_whitespace.induct)
  case (1 lx)
  then show ?case
    using pending_len_get [of lx] pending_len_get_le [of lx]
    by (subst skip_whitespace.simps, subst (asm) (2) skip_whitespace.simps)
      (auto simp: Let_def split: if_splits)
qed

lemma scan_line_comment_le: "pending_len (snd (scan_line_comment lx)) \<le> pending_len lx"
proof (induction lx rule: scan_line_comment.induct)
  case (1 lx)
  then show ?case
    using pending_len_get_le [of lx]
    by (subst scan_line_comment.simps) (auto simp: Let_def)
qed

lemma scan_block_comment_shrinks: "shrinks (pending_len lx) (scan_block_comment lx)"
proof (induction lx rule: scan_block_comment.induct)
  case (1 lx)
  have le: "pending_len (lex_get lx) \<le> pending_len lx" "pending_len (lex_get (lex_get lx)) \<le> pending_len lx"
    using pending_len_get_le [of lx] pending_len_get_le [of "lex_get lx"] by simp_all
  have "shrinks (pending_len lx) (ebind (lex_unget (lex_get (lex_get lx))) scan_block_comment)"
    if "\<not> (current (lex_get lx) = eof \<or> current (lex_get lx) = 0)" "current (lex_get lx) = 42"
      "current (lex_get (lex_get lx)) \<noteq> 47"
    using 1(1) [OF refl that(1,2) refl that(3)] pending_len_unget_get [of "lex_get lx"] le(1)
    by (fastforce simp: shrinks_def result_simps)
  moreover have "shrinks (pending_len lx) (scan_block_comment (lex_get lx))"
    if "\<not> (current (lex_get lx) = eof \<or> current (lex_get lx) = 0)" "current (lex_get lx) \<noteq> 42"
    using 1(2) [OF refl that] le(1) by (fastforce simp: shrinks_def)
  ultimately show ?case
    using le by (subst scan_block_comment.simps) (auto simp: Let_def intro!: shrinks_intros)
qed

lemma scan_comment_shrinks: "shrinks (pending_len lx) (scan_comment lx)"
  using scan_block_comment_shrinks [of "lex_get lx"] scan_line_comment_le [of "lex_get lx"]
    pending_len_get_le [of lx]
  by (fastforce simp: scan_comment_def Let_def shrinks_def)

text \<open>The loop that skips comments: \<open>Some t\<close> is an early return.\<close>

function skip_comments :: "lexer \<Rightarrow> failure + token_type option \<times> lexer" where
  "skip_comments lx =
     (if ignore_comments lx \<and> current lx = 0x2F
      then ebind (scan_comment lx)
             (\<lambda>(ok, lx). if \<not> ok then Inr (Some TK_parse_error, lx)
                         else skip_comments (skip_whitespace lx))
      else Inr (None, lx))"
  by pat_completeness auto
termination
proof (relation "measure (\<lambda>lx. pending_len lx + (if current lx \<noteq> eof then 1 else 0))", goal_cases)
  case (2 lx p ok lx')
  then have le: "pending_len lx' \<le> pending_len lx" and c: "current lx \<noteq> eof"
    using scan_comment_shrinks [of lx] by (auto simp: shrinks_def)
  show ?case
    using le c skip_whitespace_le [of lx'] skip_whitespace_less [of lx'] by (auto split: if_splits)
qed simp

declare skip_comments.simps [simp del]

definition scan_token :: "lexer \<Rightarrow> failure + token_type \<times> lexer" where
  "scan_token lx =
     (let c = current lx in
      if c = 0x5B then Inr (TK_begin_array, lx)
      else if c = 0x5D then Inr (TK_end_array, lx)
      else if c = 0x7B then Inr (TK_begin_object, lx)
      else if c = 0x7D then Inr (TK_end_object, lx)
      else if c = 0x3A then Inr (TK_name_separator, lx)
      else if c = 0x2C then Inr (TK_value_separator, lx)
      else if c = 0x74 then scan_literal ''true'' TK_literal_true lx
      else if c = 0x66 then scan_literal ''false'' TK_literal_false lx
      else if c = 0x6E then scan_literal ''null'' TK_literal_null lx
      else if c = 0x22 then scan_string lx
      else if c = 0x2D \<or> 0x30 \<le> c \<and> c \<le> 0x39 then scan_number lx
      else if c = 0x00 \<or> c = eof then Inr (TK_end_of_input, lx)
      else Inr (TK_parse_error, lx\<lparr>error_message := ''invalid literal''\<rparr>))"

definition scan :: "lexer \<Rightarrow> failure + token_type \<times> lexer" where
  "scan lx =
     ebind (if chars_read_total (position lx) = 0 then skip_bom lx else Inr (True, lx))
       (\<lambda>(ok, lx).
          if \<not> ok
          then Inr (TK_parse_error,
                    lx\<lparr>error_message := ''invalid BOM; must be 0xEF 0xBB 0xBF if given''\<rparr>)
          else ebind (skip_comments (skip_whitespace lx))
                 (\<lambda>(r, lx). case r of Some t \<Rightarrow> Inr (t, lx) | None \<Rightarrow> scan_token lx))"

section \<open>Every token consumes input\<close>

lemma convert_float_shrinks: "pending_len lx \<le> n \<Longrightarrow> shrinks n (convert_float lx)"
  by (auto simp: convert_float_def Let_def intro!: shrinks_assert shrinks_intros)

lemma scan_number_done_shrinks:
  assumes "pending_len lx \<le> n"
  shows "shrinks n (scan_number_done t (lex_get lx))"
proof (cases "lex_unget (lex_get lx)")
  case (Inr lx')
  then have "pending_len lx' \<le> n" using assms pending_len_unget_get by fastforce
  with Inr show ?thesis
    by (auto simp: scan_number_done_def Let_def intro!: shrinks_assert shrinks_intros
        convert_float_shrinks)
qed (simp add: scan_number_done_def shrinks_def)

lemma number_error_shrinks: "pending_len lx \<le> n \<Longrightarrow> shrinks n (number_error msg lx)"
  by (auto simp: number_error_def)

lemma scan_number_any2_shrinks: "pending_len lx \<le> n \<Longrightarrow> shrinks n (scan_number_any2 t lx)"
proof (induction t lx rule: scan_number_any2.induct)
  case (1 t lx)
  then show ?case
    by (subst scan_number_any2.simps)
      (auto simp: Let_def get_le intro!: shrinks_intros scan_number_done_shrinks)
qed

lemma scan_number_sign_shrinks: "pending_len lx \<le> n \<Longrightarrow> shrinks n (scan_number_sign t lx)"
  by (auto simp: scan_number_sign_def Let_def get_le
      intro!: shrinks_intros scan_number_any2_shrinks number_error_shrinks)

lemma scan_number_exponent_shrinks: "pending_len lx \<le> n \<Longrightarrow> shrinks n (scan_number_exponent t lx)"
  by (auto simp: scan_number_exponent_def Let_def get_le
      intro!: shrinks_intros scan_number_any2_shrinks scan_number_sign_shrinks number_error_shrinks)

lemma scan_number_decimal2_shrinks: "pending_len lx \<le> n \<Longrightarrow> shrinks n (scan_number_decimal2 t lx)"
proof (induction t lx rule: scan_number_decimal2.induct)
  case (1 t lx)
  then show ?case
    by (subst scan_number_decimal2.simps)
      (auto simp: Let_def get_le
        intro!: shrinks_intros scan_number_done_shrinks scan_number_exponent_shrinks)
qed

lemma scan_number_decimal1_shrinks: "pending_len lx \<le> n \<Longrightarrow> shrinks n (scan_number_decimal1 t lx)"
  by (auto simp: scan_number_decimal1_def Let_def get_le
      intro!: shrinks_intros scan_number_decimal2_shrinks number_error_shrinks)

lemma add_decimal_point_simps [simp]: "pending_len (add_decimal_point lx) = pending_len lx"
  by (simp add: add_decimal_point_def Let_def)

lemma scan_number_any1_shrinks: "pending_len lx \<le> n \<Longrightarrow> shrinks n (scan_number_any1 t lx)"
proof (induction t lx rule: scan_number_any1.induct)
  case (1 t lx)
  then show ?case
    by (subst scan_number_any1.simps)
      (auto simp: Let_def get_le intro!: shrinks_intros scan_number_done_shrinks
        scan_number_exponent_shrinks scan_number_decimal1_shrinks)
qed

lemma scan_number_zero_shrinks: "pending_len lx \<le> n \<Longrightarrow> shrinks n (scan_number_zero t lx)"
  by (auto simp: scan_number_zero_def Let_def get_le intro!: shrinks_intros scan_number_done_shrinks
      scan_number_exponent_shrinks scan_number_decimal1_shrinks)

lemma scan_number_minus_shrinks: "pending_len lx \<le> n \<Longrightarrow> shrinks n (scan_number_minus t lx)"
  by (auto simp: scan_number_minus_def Let_def get_le
      intro!: shrinks_intros scan_number_zero_shrinks scan_number_any1_shrinks number_error_shrinks)

lemma scan_number_shrinks: "pending_len lx \<le> n \<Longrightarrow> shrinks n (scan_number lx)"
  by (auto simp: scan_number_def Let_def intro!: shrinks_intros scan_number_zero_shrinks
      scan_number_any1_shrinks scan_number_minus_shrinks)

lemma scan_string_loop_shrinks: "pending_len lx \<le> n \<Longrightarrow> shrinks n (scan_string_loop lx)"
proof (induction lx rule: scan_string_loop.induct)
  case (1 lx)
  show ?case
    using scan_string_step_shrinks [OF get_le [OF 1(2)]] 1(1)
    by (subst scan_string_loop.simps) (force simp: shrinks_def result_simps split: option.splits)
qed

lemma scan_string_shrinks: "pending_len lx \<le> n \<Longrightarrow> shrinks n (scan_string lx)"
  by (auto simp: scan_string_def Let_def intro!: shrinks_assert scan_string_loop_shrinks)

lemma scan_literal_loop_le: "pending_len (snd (scan_literal_loop cs t lx)) \<le> pending_len lx"
proof (induction cs t lx rule: scan_literal_loop.induct)
  case (2 c cs t lx)
  then show ?case using pending_len_get_le [of lx] by (auto simp: Let_def)
qed simp

lemma scan_literal_shrinks: "pending_len lx \<le> n \<Longrightarrow> shrinks n (scan_literal cs t lx)"
  using scan_literal_loop_le [of "tl cs" t lx]
  by (auto simp: scan_literal_def shrinks_def result_simps)

lemma scan_token_shrinks: "pending_len lx \<le> n \<Longrightarrow> shrinks n (scan_token lx)"
  unfolding scan_token_def Let_def
  by (intro shrinks_intros scan_literal_shrinks scan_number_shrinks scan_string_shrinks) simp_all

lemma scan_token_eof: "current lx = eof \<Longrightarrow> scan_token lx = Inr (TK_end_of_input, lx)"
  by (simp add: scan_token_def)

lemma skip_comments_shrinks:
  "skip_comments lx = Inr (r, lx') \<Longrightarrow>
   pending_len lx' \<le> pending_len lx \<and>
   (current lx = eof \<longrightarrow> lx' = lx) \<and>
   (r = None \<longrightarrow> current lx' \<noteq> eof \<longrightarrow> lx' = lx \<or> pending_len lx' < pending_len lx) \<and>
   (r \<noteq> None \<longrightarrow> r = Some TK_parse_error)"
proof (induction lx arbitrary: r lx' rule: skip_comments.induct)
  case (1 lx)
  show ?case
  proof (cases "ignore_comments lx \<and> current lx = 0x2F")
    case True
    then obtain ok lx1 where c: "scan_comment lx = Inr (ok, lx1)"
      using 1(2) by (subst (asm) skip_comments.simps) (auto simp: result_simps)
    then have le: "pending_len lx1 \<le> pending_len lx"
      using scan_comment_shrinks [of lx] by (auto simp: shrinks_def)
    show ?thesis
    proof (cases ok)
      case True': True
      then have s: "skip_comments (skip_whitespace lx1) = Inr (r, lx')"
        using 1(2) True c by (subst (asm) skip_comments.simps) simp
      show ?thesis
        using 1(1) [OF True c refl, of r lx'] True' s le True
          skip_whitespace_le [of lx1] skip_whitespace_less [of lx1] by auto
    next
      case False
      then show ?thesis
        using 1(2) True c le by (subst (asm) skip_comments.simps) auto
    qed
  next
    case False
    then show ?thesis using 1(2) by (subst (asm) skip_comments.simps) auto
  qed
qed

text \<open>A token other than the two that end the parse consumes at least one character.\<close>

abbreviation ends_parse :: "token_type \<Rightarrow> bool" where
  "ends_parse t \<equiv> t = TK_end_of_input \<or> t = TK_parse_error"

lemma skip_bom_shrinks: "shrinks (pending_len lx) (skip_bom lx)"
proof -
  have "shrinks (pending_len lx) (ebind (lex_unget (lex_get lx)) (\<lambda>lx. Inr (True, lx)))"
    using pending_len_unget_get [of lx] by (auto simp: shrinks_def result_simps)
  then show ?thesis
    unfolding skip_bom_def Let_def by (intro shrinks_intros) (auto simp: get_le)
qed

lemma scan_consumes:
  assumes "scan lx = Inr (t, lx')"
  shows "pending_len lx' \<le> pending_len lx" and "\<not> ends_parse t \<Longrightarrow> pending_len lx' < pending_len lx"
proof -
  obtain ok lx1 where bom: "(if chars_read_total (position lx) = 0 then skip_bom lx else Inr (True, lx)) = Inr (ok, lx1)"
    using assms by (auto simp: scan_def result_simps)
  then have le1: "pending_len lx1 \<le> pending_len lx"
    using skip_bom_shrinks [of lx] by (auto simp: shrinks_def split: if_splits)
  show "pending_len lx' \<le> pending_len lx" "\<not> ends_parse t \<Longrightarrow> pending_len lx' < pending_len lx"
  proof (atomize (full), cases ok)
    case True
    then obtain r lx2 where s: "skip_comments (skip_whitespace lx1) = Inr (r, lx2)"
        "(case r of Some t \<Rightarrow> Inr (t, lx2) | None \<Rightarrow> scan_token lx2) = Inr (t, lx')"
      using assms bom by (auto simp: scan_def result_simps)
    have le2: "pending_len lx2 \<le> pending_len lx"
      using skip_comments_shrinks [OF s(1)] skip_whitespace_le [of lx1] le1 by linarith
    show "pending_len lx' \<le> pending_len lx \<and> (\<not> ends_parse t \<longrightarrow> pending_len lx' < pending_len lx)"
    proof (cases "r = None \<and> current lx2 \<noteq> eof")
      case True
      then have "pending_len lx2 < pending_len lx1"
        using skip_comments_shrinks [OF s(1)] skip_whitespace_le [of lx1] skip_whitespace_less [of lx1]
        by auto
      moreover have "pending_len lx' \<le> pending_len lx2"
        using scan_token_shrinks [OF order_refl, of lx2] s(2) True by (simp add: shrinks_def)
      ultimately show ?thesis using le1 by linarith
    next
      case False
      then show ?thesis
        using s(2) le2 skip_comments_shrinks [OF s(1)] scan_token_eof [of lx2] by (cases r) auto
    qed
  next
    case False
    then show "pending_len lx' \<le> pending_len lx \<and> (\<not> ends_parse t \<longrightarrow> pending_len lx' < pending_len lx)"
      using assms bom le1 by (auto simp: scan_def)
  qed
qed

section \<open>Getters\<close>

definition get_number_integer :: "lexer \<Rightarrow> u64" where
  "get_number_integer lx = value_integer lx"

definition get_number_unsigned :: "lexer \<Rightarrow> u64" where
  "get_number_unsigned lx = value_unsigned lx"

definition get_number_float :: "lexer \<Rightarrow> double" where
  "get_number_float lx = value_float lx"

definition lex_get_string :: "lexer \<Rightarrow> failure + string" where
  "lex_get_string lx =
     (case decimal_point_position lx of
        Some i \<Rightarrow> (if decimal_point_char lx \<noteq> 0x2E then buf_put (token_buffer lx) i CHR ''.''
                   else Inr (token_buffer lx))
      | None \<Rightarrow> Inr (token_buffer lx))"

definition hex_upper :: "nat \<Rightarrow> char" where
  "hex_upper n = ''0123456789ABCDEF'' ! (n mod 16)"

definition get_token_string :: "lexer \<Rightarrow> string" where
  "get_token_string lx =
     concat (map (\<lambda>c. let n = of_char c :: nat in
                       if n \<le> 0x1F
                       then ''<U+'' @ [hex_upper (n div 4096), hex_upper (n div 256),
                                       hex_upper (n div 16), hex_upper n] @ ''>''
                       else [c])
              (token_string lx))"

end
