(* ===== verification/Json_Tokens.thy ===== *)
theory Json_Tokens
  imports Json_Lexer
begin

text \<open>
  What the lexer computes, as a function from the text still to be read to a lexeme and the rest of
  the text, and the proof that the scan functions implement it: for every text, without ever failing
  an assertion.  The grammar is that of RFC 8259 with strict UTF-8; comments are off, as in every
  call of the program.
\<close>

named_theorems lex_simps "the specification of the lexer"

section \<open>Strings\<close>

definition hex_val :: "char \<Rightarrow> nat option" where
  "hex_val c =
     (let n = of_char c :: nat in
      if 48 \<le> n \<and> n \<le> 57 then Some (n - 48)
      else if 65 \<le> n \<and> n \<le> 70 then Some (n - 55)
      else if 97 \<le> n \<and> n \<le> 102 then Some (n - 87)
      else None)"

fun hex4 :: "string \<Rightarrow> (nat \<times> string) option" where
  "hex4 (a # b # c # d # r) =
     (case (hex_val a, hex_val b, hex_val c, hex_val d) of
        (Some w, Some x, Some y, Some z) \<Rightarrow> Some (4096 * w + 256 * x + 16 * y + z, r)
      | _ \<Rightarrow> None)"
| "hex4 _ = None"

definition utf8_encode :: "nat \<Rightarrow> string" where
  "utf8_encode cp =
     (if cp < 0x80 then [char_of cp]
      else if cp < 0x800 then [char_of (0xC0 + cp div 0x40), char_of (0x80 + cp mod 0x40)]
      else if cp < 0x10000 then
        [char_of (0xE0 + cp div 0x1000), char_of (0x80 + cp div 0x40 mod 0x40),
         char_of (0x80 + cp mod 0x40)]
      else
        [char_of (0xF0 + cp div 0x40000), char_of (0x80 + cp div 0x1000 mod 0x40),
         char_of (0x80 + cp div 0x40 mod 0x40), char_of (0x80 + cp mod 0x40)])"

definition unescape_unicode :: "string \<Rightarrow> (string \<times> string) option" where
  "unescape_unicode s =
     (case hex4 s of
        None \<Rightarrow> None
      | Some (hi, r) \<Rightarrow>
          if 0xD800 \<le> hi \<and> hi < 0xDC00 then
            (case r of
               b # u # r' \<Rightarrow>
                 (if b = CHR 0x5C \<and> u = CHR ''u'' then
                    (case hex4 r' of
                       None \<Rightarrow> None
                     | Some (lo, r'') \<Rightarrow>
                         if 0xDC00 \<le> lo \<and> lo < 0xE000
                         then Some (utf8_encode (0x10000 + 0x400 * (hi - 0xD800) + (lo - 0xDC00)), r'')
                         else None)
                  else None)
             | _ \<Rightarrow> None)
          else if 0xDC00 \<le> hi \<and> hi < 0xE000 then None
          else Some (utf8_encode hi, r))"

definition unescape :: "string \<Rightarrow> (string \<times> string) option" where
  "unescape s =
     (case s of
        [] \<Rightarrow> None
      | e # r \<Rightarrow>
          if e = CHR 0x22 then Some ([CHR 0x22], r)
          else if e = CHR 0x5C then Some ([CHR 0x5C], r)
          else if e = CHR 0x2F then Some ([CHR 0x2F], r)
          else if e = CHR ''b'' then Some ([CHR 0x08], r)
          else if e = CHR ''f'' then Some ([CHR 0x0C], r)
          else if e = CHR ''n'' then Some ([CHR 0x0A], r)
          else if e = CHR ''r'' then Some ([CHR 0x0D], r)
          else if e = CHR ''t'' then Some ([CHR 0x09], r)
          else if e = CHR ''u'' then unescape_unicode r
          else None)"

text \<open>The bytes of one multi-byte character: each in its range.\<close>

fun take_ranges :: "(int \<times> int) list \<Rightarrow> string \<Rightarrow> (string \<times> string) option" where
  "take_ranges [] s = Some ([], s)"
| "take_ranges ((lo, hi) # rs) [] = None"
| "take_ranges ((lo, hi) # rs) (c # s) =
     (if lo \<le> of_char c \<and> of_char c \<le> hi
      then map_option (\<lambda>(t, r). (c # t, r)) (take_ranges rs s) else None)"

text \<open>One character of a string literal: the bytes it stands for and the rest of the text.\<close>

definition lex_char :: "string \<Rightarrow> (string \<times> string) option" where
  "lex_char s =
     (case s of
        [] \<Rightarrow> None
      | c # r \<Rightarrow>
          let n = of_char c :: int in
          if n = 0x22 then None
          else if n = 0x5C then unescape r
          else if n < 0x20 then None
          else if n < 0x80 then Some ([c], r)
          else if utf8_ranges n = [] then None
          else map_option (\<lambda>(t, r'). (c # t, r')) (take_ranges (utf8_ranges n) r))"

lemma hex4_length: "hex4 s = Some (n, r) \<Longrightarrow> length r < length s"
  by (induction s rule: hex4.induct) (auto split: option.splits)

lemma unescape_unicode_length: "unescape_unicode s = Some (u, r) \<Longrightarrow> length r < length s"
  by (auto simp: unescape_unicode_def split: option.splits list.splits if_splits dest!: hex4_length)

lemma unescape_length: "unescape s = Some (u, r) \<Longrightarrow> length r < length s"
  by (auto simp: unescape_def split: list.splits if_splits dest!: unescape_unicode_length)

lemma take_ranges_length: "take_ranges rs s = Some (u, r) \<Longrightarrow> length r \<le> length s"
  by (induction rs s arbitrary: u r rule: take_ranges.induct) (fastforce split: if_splits)+

lemma lex_char_length: "lex_char s = Some (u, r) \<Longrightarrow> length r < length s"
  by (auto simp: lex_char_def Let_def split: list.splits if_splits
      dest!: unescape_length take_ranges_length)

function lex_string :: "string \<Rightarrow> string \<Rightarrow> (string \<times> string) option" where
  "lex_string buf s =
     (case s of
        [] \<Rightarrow> None
      | c # r \<Rightarrow>
          if c = CHR 0x22 then Some (buf, r)
          else (case lex_char s of None \<Rightarrow> None | Some (u, r) \<Rightarrow> lex_string (buf @ u) r))"
  by pat_completeness auto
termination
  by (relation "measure (\<lambda>(_, s). length s)") (auto dest: lex_char_length)

declare lex_string.simps [simp del]

section \<open>Numbers\<close>

definition lex_fraction :: "string \<Rightarrow> (string \<times> string) option" where
  "lex_fraction s =
     (case s of
        c # r \<Rightarrow>
          (if c = CHR ''.'' then
             (let ds = takeWhile is_digit_char r
              in if ds = [] then None else Some (c # ds, dropWhile is_digit_char r))
           else Some ('''', s))
      | [] \<Rightarrow> Some ('''', s))"

definition lex_exponent :: "string \<Rightarrow> (string \<times> string) option" where
  "lex_exponent s =
     (case s of
        c # r \<Rightarrow>
          (if c = CHR ''e'' \<or> c = CHR ''E'' then
             (let sg = (case r of d # _ \<Rightarrow> if d = CHR ''+'' \<or> d = CHR ''-'' then [d] else '''' | [] \<Rightarrow> '''');
                  r = drop (length sg) r;
                  ds = takeWhile is_digit_char r
              in if ds = [] then None else Some (c # sg @ ds, dropWhile is_digit_char r))
           else Some ('''', s))
      | [] \<Rightarrow> Some ('''', s))"

definition lex_integer_part :: "string \<Rightarrow> (string \<times> string) option" where
  "lex_integer_part s =
     (case s of
        [] \<Rightarrow> None
      | c # r \<Rightarrow>
          if c = CHR ''0'' then Some ([c], r)
          else if is_digit_char c then Some (takeWhile is_digit_char s, dropWhile is_digit_char s)
          else None)"

definition number_kind :: "string \<Rightarrow> string \<Rightarrow> string \<Rightarrow> token_type" where
  "number_kind mn fp ep =
     (if fp \<noteq> [] \<or> ep \<noteq> [] then TK_value_float
      else if mn \<noteq> [] then TK_value_integer else TK_value_unsigned)"

text \<open>The text of a number, its kind and the rest.\<close>

definition lex_number :: "string \<Rightarrow> (string \<times> token_type \<times> string) option" where
  "lex_number s =
     (let (mn, s1) = (case s of c # r \<Rightarrow> if c = CHR ''-'' then ([c], r) else ('''', s) | [] \<Rightarrow> ('''', s))
      in case lex_integer_part s1 of
           None \<Rightarrow> None
         | Some (ip, s2) \<Rightarrow>
             (case lex_fraction s2 of
                None \<Rightarrow> None
              | Some (fp, s3) \<Rightarrow>
                  (case lex_exponent s3 of
                     None \<Rightarrow> None
                   | Some (ep, s4) \<Rightarrow>
                       Some (mn @ ip @ fp @ ep, number_kind mn fp ep, s4))))"

datatype lexeme =
    L_token token_type
  | L_string string
  | L_unsigned u64
  | L_integer u64
  | L_float double

definition number_lexeme :: "string \<Rightarrow> token_type \<Rightarrow> lexeme" where
  "number_lexeme txt kind =
     (if kind = TK_value_unsigned \<and> digits_val txt < 2 ^ 64 then L_unsigned (of_nat (digits_val txt))
      else if kind = TK_value_integer \<and> digits_val (tl txt) \<le> 2 ^ 63
      then L_integer (- of_nat (digits_val (tl txt)))
      else L_float (strto_value (strtod txt)))"

section \<open>Lexemes\<close>

definition is_ws :: "char \<Rightarrow> bool" where
  "is_ws c \<longleftrightarrow> c = CHR 0x20 \<or> c = CHR 0x09 \<or> c = CHR 0x0A \<or> c = CHR 0x0D"

definition lex_literal :: "string \<Rightarrow> token_type \<Rightarrow> string \<Rightarrow> lexeme \<times> string" where
  "lex_literal lit t s =
     (if take (length lit) s = lit then (L_token t, drop (length lit) s) else (L_token TK_parse_error, []))"

text \<open>After an error the rest of the text is not specified; it is given as empty.\<close>

definition lex_nows :: "string \<Rightarrow> lexeme \<times> string" where
  "lex_nows s =
     (case s of
        [] \<Rightarrow> (L_token TK_end_of_input, [])
      | c # r \<Rightarrow>
          if c = CHR ''['' then (L_token TK_begin_array, r)
          else if c = CHR '']'' then (L_token TK_end_array, r)
          else if c = CHR ''{'' then (L_token TK_begin_object, r)
          else if c = CHR ''}'' then (L_token TK_end_object, r)
          else if c = CHR '':'' then (L_token TK_name_separator, r)
          else if c = CHR '','' then (L_token TK_value_separator, r)
          else if c = CHR ''t'' then lex_literal ''true'' TK_literal_true s
          else if c = CHR ''f'' then lex_literal ''false'' TK_literal_false s
          else if c = CHR ''n'' then lex_literal ''null'' TK_literal_null s
          else if c = CHR 0x22 then
            (case lex_string [] r of
               None \<Rightarrow> (L_token TK_parse_error, [])
             | Some (str, r) \<Rightarrow> (L_string str, r))
          else if c = CHR ''-'' \<or> is_digit_char c then
            (case lex_number s of
               None \<Rightarrow> (L_token TK_parse_error, [])
             | Some (txt, kind, r) \<Rightarrow> (number_lexeme txt kind, r))
          else if c = CHR 0x00 then (L_token TK_end_of_input, r)
          else (L_token TK_parse_error, []))"

definition lex_next :: "string \<Rightarrow> lexeme \<times> string" where
  "lex_next s = lex_nows (dropWhile is_ws s)"

section \<open>The state of the lexer as a text\<close>

definition pending :: "lexer \<Rightarrow> string" where
  "pending lx = (if next_unget lx \<and> current lx \<noteq> eof then [char_of (current lx)] else []) @ ia lx"

text \<open>\<open>lex_inv\<close> holds from the start, \<open>lex_at\<close> from the first character on.\<close>

definition lex_inv :: "lexer \<Rightarrow> string \<Rightarrow> string \<Rightarrow> bool" where
  "lex_inv lx s buf \<longleftrightarrow>
     pending lx = s \<and> token_buffer lx = buf \<and> - 1 \<le> current lx \<and> current lx < 256 \<and>
     (next_unget lx \<and> current lx = eof \<longrightarrow> ia lx = []) \<and> decimal_point_char lx = 0x2E \<and>
     \<not> ignore_comments lx"

definition lex_at :: "lexer \<Rightarrow> string \<Rightarrow> string \<Rightarrow> bool" where
  "lex_at lx s buf \<longleftrightarrow> lex_inv lx s buf \<and> 0 < chars_read_total (position lx)"

definition head_code :: "string \<Rightarrow> int" where
  "head_code s = (case s of [] \<Rightarrow> eof | c # _ \<Rightarrow> of_char c)"

lemma head_code_simps [simp]: "head_code [] = eof" "head_code (c # s) = of_char c"
  by (simp_all add: head_code_def)

lemma of_char_less_256: "(of_char c :: int) < 256"
proof -
  have "(of_char c :: int) = int (of_char c)" by (simp add: of_nat_of_char)
  moreover have "(of_char c :: nat) < 256" by simp
  ultimately show ?thesis by linarith
qed

lemma lex_atD: "lex_at lx s buf \<Longrightarrow> lex_inv lx s buf"
  by (simp add: lex_at_def)

lemma char_of_of_char_int [simp]: "char_of (of_char c :: int) = c"
  by simp

lemma of_char_char_of_int: "0 \<le> n \<Longrightarrow> n < 256 \<Longrightarrow> of_char (char_of n) = (n :: int)"
  by (simp add: take_bit_eq_mod)

lemma get_inv:
  assumes "lex_inv lx s buf"
  shows "lex_at (lex_get lx) (tl s) buf" and "current (lex_get lx) = head_code s"
    and "\<not> next_unget (lex_get lx)"
proof -
  show "current (lex_get lx) = head_code s"
    using assms
    by (auto simp: lex_inv_def pending_def lex_get_def lex_read_def get_character_def Let_def
        take_bit_eq_mod split: list.splits if_splits)
  show "lex_at (lex_get lx) (tl s) buf"
    using assms of_char_less_256
    by (auto simp: lex_at_def lex_inv_def pending_def lex_get_def lex_read_def get_character_def Let_def
        split: list.splits if_splits) (smt (verit) of_char_ge_0)+
qed simp

lemmas get_at = get_inv [OF lex_atD]

lemma add_at: "lex_at lx s buf \<Longrightarrow> lex_at (lex_add c lx) s (buf @ [char_of c])"
  by (auto simp: lex_at_def lex_inv_def lex_add_def pending_def)

lemma reset_at: "lex_at lx s buf \<Longrightarrow> lex_at (lex_reset lx) s []"
  by (auto simp: lex_at_def lex_inv_def lex_reset_def pending_def)

lemma error_at: "lex_at lx s buf \<Longrightarrow> lex_at (lx\<lparr>error_message := e\<rparr>) s buf"
  by (auto simp: lex_at_def lex_inv_def pending_def)

section \<open>Strings are scanned as specified\<close>

lemma unget_inv:
  assumes "lex_inv lx s buf"
  shows "\<exists>lx'. lex_unget (lex_get lx) = Inr lx' \<and> lex_inv lx' s buf \<and>
    chars_read_total (position lx') = chars_read_total (position lx)"
proof -
  have tok: "current (lex_get lx) \<noteq> eof \<Longrightarrow> token_string (lex_get lx) \<noteq> []"
    by (auto simp: lex_get_def Let_def)
  have total: "chars_read_total (position (lex_get lx)) = Suc (chars_read_total (position lx))"
    by (auto simp: lex_get_def Let_def lex_read_def split: prod.split)
  have at: "lex_at (lex_get lx) (tl s) buf" and cur: "current (lex_get lx) = head_code s"
      and ng: "\<not> next_unget (lex_get lx)"
    using get_inv [OF assms] .
  have ia: "ia (lex_get lx) = tl s"
    using at ng by (simp add: lex_at_def lex_inv_def pending_def)
  show ?thesis
  proof (cases s)
    case Nil
    then show ?thesis
      using at cur total ia
      by (auto simp: lex_unget_def Let_def lex_at_def lex_inv_def pending_def)
  next
    case (Cons c r)
    then show ?thesis
      using at cur total ia tok
      by (auto simp: lex_unget_def Let_def lex_at_def lex_inv_def pending_def result_simps)
  qed
qed

lemma unget_at: "lex_at lx s buf \<Longrightarrow> \<exists>lx'. lex_unget (lex_get lx) = Inr lx' \<and> lex_at lx' s buf"
  using unget_inv [of lx s buf] by (auto simp: lex_at_def)

lemma hex_val_code:
  "hex_val c = Some v \<longleftrightarrow>
     (let n = of_char c :: int in
      0x30 \<le> n \<and> n \<le> 0x39 \<and> int v = n - 0x30 \<or> 0x41 \<le> n \<and> n \<le> 0x46 \<and> int v = n - 0x37 \<or>
      0x61 \<le> n \<and> n \<le> 0x66 \<and> int v = n - 0x57)"
proof -
  have "(of_char c :: int) = int (of_char c)" by (simp add: of_nat_of_char)
  then show ?thesis by (auto simp: hex_val_def Let_def)
qed

lemma codepoint_digit:
  assumes "lex_at lx (c # s) buf" and "hex_val c = Some v"
  shows "get_codepoint_loop (f # fs) cp lx = get_codepoint_loop fs (cp + int v * 2 ^ f) (lex_get lx)"
proof -
  have "current (lex_get lx) = of_char c" using get_at(2) [OF assms(1)] by simp
  then show ?thesis
    using assms(2) by (auto simp: hex_val_code Let_def push_bit_eq_mult)
qed

lemma codepoint_stop:
  assumes "lex_at lx s buf" and "s = [] \<or> hex_val (hd s) = None"
  shows "get_codepoint_loop (f # fs) cp lx = Inr (- 1, lex_get lx)"
proof -
  have cur: "current (lex_get lx) = head_code s" using get_at(2) [OF assms(1)] .
  have n: "hex_val (hd s) \<noteq> Some v" if "s \<noteq> []" for v using that assms(2) by auto
  have "\<not> (0x30 \<le> head_code s \<and> head_code s \<le> 0x39) \<and> \<not> (0x41 \<le> head_code s \<and> head_code s \<le> 0x46) \<and>
      \<not> (0x61 \<le> head_code s \<and> head_code s \<le> 0x66)"
  proof (cases s)
    case (Cons c r)
    have "(of_char c :: int) = int (of_char c)" by (simp add: of_nat_of_char)
    then show ?thesis
      using assms(2) Cons by (auto simp: hex_val_def Let_def split: if_splits)
  qed simp
  then show ?thesis by (auto simp: Let_def cur)
qed

lemma or_plus:
  fixes x :: int
  assumes "0 \<le> x" "x < 2 ^ k"
  shows "push_bit k a OR x = a * 2 ^ k + x"
proof -
  have lt: "bit x n \<Longrightarrow> n < k" for n
  proof (rule ccontr)
    assume b: "bit x n" "\<not> n < k"
    have "take_bit k x = x" using assms by (simp add: take_bit_int_eq_self)
    then have "bit (take_bit k x) n" using b by simp
    then show False using b by (simp add: bit_take_bit_iff)
  qed
  have "push_bit k a + x = push_bit k a OR x"
    by (intro disjunctive_add) (auto simp: bit_push_bit_iff dest!: lt)
  then show ?thesis by (simp add: push_bit_eq_mult)
qed

lemma and_63: "(x :: int) AND 0x3F = x mod 64"
proof -
  have "(0x3F :: int) = mask 6" by (simp add: mask_eq_exp_minus_1)
  then have "x AND 0x3F = take_bit 6 x" by (simp only: take_bit_eq_mask)
  then show ?thesis by (simp add: take_bit_eq_mod)
qed

lemma char_of_int_nat: "char_of (int n) = (char_of n :: char)"
  by (simp add: char_of_eq_iff of_char_of)


lemma code_iff: "of_char d = (n :: int) \<Longrightarrow> of_char c = n \<longleftrightarrow> c = d"
  by (metis of_char_eq_iff)

lemmas char_codes =
  code_iff [of "CHR 0x22" "0x22", simplified] code_iff [of "CHR 0x5C" "0x5C", simplified]
  code_iff [of "CHR ''/''" "0x2F", simplified] code_iff [of "CHR ''b''" "0x62", simplified]
  code_iff [of "CHR ''f''" "0x66", simplified] code_iff [of "CHR ''n''" "0x6E", simplified]
  code_iff [of "CHR ''r''" "0x72", simplified] code_iff [of "CHR ''t''" "0x74", simplified]
  code_iff [of "CHR ''u''" "0x75", simplified] code_iff [of "CHR ''[''" "0x5B", simplified]
  code_iff [of "CHR '']''" "0x5D", simplified] code_iff [of "CHR ''{''" "0x7B", simplified]
  code_iff [of "CHR ''}''" "0x7D", simplified] code_iff [of "CHR '':''" "0x3A", simplified]
  code_iff [of "CHR '',''" "0x2C", simplified] code_iff [of "CHR ''-''" "0x2D", simplified]
  code_iff [of "CHR ''+''" "0x2B", simplified] code_iff [of "CHR ''.''" "0x2E", simplified]
  code_iff [of "CHR ''e''" "0x65", simplified] code_iff [of "CHR ''E''" "0x45", simplified]
  code_iff [of "CHR ''0''" "0x30", simplified] code_iff [of "CHR 0x00" "0x00", simplified]
  code_iff [of "CHR 0x20" "0x20", simplified] code_iff [of "CHR 0x09" "0x09", simplified]
  code_iff [of "CHR 0x0A" "0x0A", simplified] code_iff [of "CHR 0x0D" "0x0D", simplified]

lemma hex_val_less: "hex_val c = Some v \<Longrightarrow> v < 16"
  by (auto simp: hex_val_def Let_def split: if_splits)

lemma codepoint_hex4:
  assumes "lex_at lx s buf"
  shows "case hex4 s of
      Some (n, r) \<Rightarrow> n < 0x10000 \<and>
        (\<exists>lx'. get_codepoint_loop [12, 8, 4, 0] 0 lx = Inr (int n, lx') \<and> lex_at lx' r buf)
    | None \<Rightarrow> \<exists>lx' s'. get_codepoint_loop [12, 8, 4, 0] 0 lx = Inr (- 1, lx') \<and> lex_at lx' s' buf"
proof -
  let ?g1 = "lex_get lx" let ?g2 = "lex_get ?g1" let ?g3 = "lex_get ?g2" let ?g4 = "lex_get ?g3"
  have at1: "lex_at ?g1 (tl s) buf" by (rule get_at(1) [OF assms])
  have at2: "lex_at ?g2 (tl (tl s)) buf" by (rule get_at(1) [OF at1])
  have at3: "lex_at ?g3 (tl (tl (tl s))) buf" by (rule get_at(1) [OF at2])
  have at4: "lex_at ?g4 (tl (tl (tl (tl s)))) buf" by (rule get_at(1) [OF at3])
  note stop = codepoint_stop [OF assms] codepoint_stop [OF at1] codepoint_stop [OF at2] codepoint_stop [OF at3]
  consider (short0) "s = [] \<or> hex_val (hd s) = None"
    | (short1) a r w where "s = a # r" "hex_val a = Some w" "r = [] \<or> hex_val (hd r) = None"
    | (short2) a b r w x where "s = a # b # r" "hex_val a = Some w" "hex_val b = Some x"
        "r = [] \<or> hex_val (hd r) = None"
    | (short3) a b c r w x y where "s = a # b # c # r" "hex_val a = Some w" "hex_val b = Some x"
        "hex_val c = Some y" "r = [] \<or> hex_val (hd r) = None"
    | (full) a b c d r w x y z where "s = a # b # c # d # r" "hex_val a = Some w" "hex_val b = Some x"
        "hex_val c = Some y" "hex_val d = Some z"
    by (metis list.collapse not_None_eq)
  then show ?thesis
  proof cases
    case short0
    then have "hex4 s = None" by (cases s rule: hex4.cases) auto
    then show ?thesis using short0 stop(1) at1 by auto
  next
    case short1
    then have "hex4 s = None" by (cases s rule: hex4.cases) auto
    then show ?thesis
      using short1 assms stop(2) at2 by (auto simp: codepoint_digit [of lx] simp del: get_codepoint_loop.simps)
  next
    case short2
    then have "hex4 s = None" by (cases s rule: hex4.cases) auto
    then show ?thesis
      using short2 assms at1 stop(3) at3
      by (auto simp: codepoint_digit [of lx] codepoint_digit [of ?g1] simp del: get_codepoint_loop.simps)
  next
    case short3
    then have "hex4 s = None" by (cases s rule: hex4.cases) auto
    then show ?thesis
      using short3 assms at1 at2 stop(4) at4
      by (auto simp: codepoint_digit [of lx] codepoint_digit [of ?g1] codepoint_digit [of ?g2]
          simp del: get_codepoint_loop.simps)
  next
    case full
    have small: "w < 16" "x < 16" "y < 16" "z < 16" using full hex_val_less by auto
    have "get_codepoint_loop [12, 8, 4, 0] 0 lx =
        get_codepoint_loop [] (int w * 2 ^ 12 + int x * 2 ^ 8 + int y * 2 ^ 4 + int z * 2 ^ 0) ?g4"
      using full assms at1 at2 at3
      by (simp add: codepoint_digit [of lx] codepoint_digit [of ?g1] codepoint_digit [of ?g2]
          codepoint_digit [of ?g3] del: get_codepoint_loop.simps)
    also have "\<dots> = Inr (int (4096 * w + 256 * x + 16 * y + z), ?g4)"
      using small by (simp add: json_assert_def)
    finally show ?thesis using full small at4 by simp
  qed
qed

lemma next_byte_ranges:
  "lex_at lx s buf \<Longrightarrow> \<forall>(lo, hi)\<in>set rs. 0 \<le> lo \<Longrightarrow>
   case take_ranges rs s of
     Some (t, r) \<Rightarrow> \<exists>lx'. next_byte_loop rs lx = (True, lx') \<and> lex_at lx' r (buf @ t)
   | None \<Rightarrow> \<exists>lx' s' b'. next_byte_loop rs lx = (False, lx') \<and> lex_at lx' s' b'"
proof (induction rs s arbitrary: lx buf rule: take_ranges.induct)
  case (2 lo hi rs)
  then show ?case
    using get_at [OF 2(1)] by (auto simp: Let_def intro: error_at)
next
  case (3 lo hi rs c s)
  have at: "lex_at (lex_get lx) s buf" and cur: "current (lex_get lx) = of_char c"
    using get_at [OF 3(2)] by simp_all
  show ?case
  proof (cases "lo \<le> of_char c \<and> of_char c \<le> hi")
    case True
    then show ?thesis
      using 3(1) [OF True add_at [OF at, of "of_char c"]] 3(3) cur
      by (auto simp: Let_def split: option.splits)
  next
    case False
    then show ?thesis
      using error_at [OF at] cur by (auto simp: Let_def)
  qed
qed auto

lemma add_codepoint_at:
  assumes "lex_at lx s buf" and "cp \<le> 0x10FFFF"
  shows "lex_at (add_codepoint (int cp) lx) s (buf @ utf8_encode cp)"
proof -
  have hi: "0xC0 OR drop_bit 6 (int cp) = int (0xC0 + cp div 0x40)" if "cp < 0x800"
    using or_plus [of "int cp div 64" 6 3] that by (simp add: drop_bit_eq_div zdiv_int)
  have hi3: "0xE0 OR drop_bit 12 (int cp) = int (0xE0 + cp div 0x1000)" if "cp < 0x10000"
    using or_plus [of "int cp div 4096" 5 7] that by (simp add: drop_bit_eq_div zdiv_int)
  have hi4: "0xF0 OR drop_bit 18 (int cp) = int (0xF0 + cp div 0x40000)"
    using or_plus [of "int cp div 262144" 4 15] assms(2) by (simp add: drop_bit_eq_div zdiv_int)
  have lo: "0x80 OR (drop_bit k (int cp) AND 0x3F) = int (0x80 + cp div 2 ^ k mod 0x40)" for k
    using or_plus [of "int cp div 2 ^ k mod 64" 6 2]
    by (simp add: and_63 drop_bit_eq_div zdiv_int zmod_int)
  note lo0 = lo [of 0, simplified] and lo6 = lo [of 6, simplified] and lo12 = lo [of 12, simplified]
  have step: "lex_at (lex_add (int n) l) s (b @ [char_of n])" if "lex_at l s b" for l b n
    using add_at [OF that, of "int n"] by (simp add: char_of_int_nat)
  consider "cp < 0x80" | "0x80 \<le> cp" "cp < 0x800" | "0x800 \<le> cp" "cp < 0x10000" | "0x10000 \<le> cp"
    by linarith
  then show ?thesis
  proof cases
    case 1
    then show ?thesis using step [OF assms(1), of cp] by (simp add: add_codepoint_def utf8_encode_def)
  next
    case 2
    then show ?thesis
      using step [OF step [OF assms(1), of "0xC0 + cp div 0x40"], of "0x80 + cp mod 0x40"]
      by (simp add: add_codepoint_def utf8_encode_def hi lo0)
  next
    case 3
    then show ?thesis
      using step [OF step [OF step [OF assms(1), of "0xE0 + cp div 0x1000"],
          of "0x80 + cp div 0x40 mod 0x40"], of "0x80 + cp mod 0x40"]
      by (simp add: add_codepoint_def utf8_encode_def hi3 lo0 lo6)
  next
    case 4
    then show ?thesis
      using step [OF step [OF step [OF step [OF assms(1), of "0xF0 + cp div 0x40000"],
          of "0x80 + cp div 0x1000 mod 0x40"], of "0x80 + cp div 0x40 mod 0x40"], of "0x80 + cp mod 0x40"]
      by (simp add: add_codepoint_def utf8_encode_def hi4 lo0 lo6 lo12)
  qed
qed

text \<open>
  A scan function implements a partial function on texts: where that is defined the scan function
  goes on with the rest and the new buffer, otherwise it reports a parse error.
\<close>

definition implements :: "string \<Rightarrow> (string \<times> string) option \<Rightarrow> failure + token_type option \<times> lexer \<Rightarrow> bool" where
  "implements buf spec m \<longleftrightarrow>
     (case spec of
        Some (u, r) \<Rightarrow> \<exists>lx. m = Inr (None, lx) \<and> lex_at lx r (buf @ u)
      | None \<Rightarrow> \<exists>lx s b. m = Inr (Some TK_parse_error, lx) \<and> lex_at lx s b)"

lemma char_of_code: "of_char c = (n :: int) \<Longrightarrow> char_of n = c"
  by (metis char_of_of_char_int)

lemma implements_error: "lex_at lx s b \<Longrightarrow> implements buf None (lex_error msg lx)"
  unfolding implements_def lex_error_def by (auto intro: error_at)

lemma implements_add:
  "lex_at lx s buf \<Longrightarrow> u = char_of c \<Longrightarrow> implements buf (Some ([u], s)) (Inr (None, lex_add c lx))"
  by (auto simp: implements_def intro: add_at)

lemma implements_finish:
  "lex_at lx s buf \<Longrightarrow> cp \<le> 0x10FFFF \<Longrightarrow> c = int cp \<Longrightarrow>
   implements buf (Some (utf8_encode cp, s)) (finish_codepoint c lx)"
  by (auto simp: implements_def finish_codepoint_def json_assert_def intro: add_codepoint_at)

lemma get_codepoint_hex4:
  assumes "lex_at lx s buf" and "current lx = 0x75"
  shows "case hex4 s of
      Some (n, r) \<Rightarrow> n < 0x10000 \<and> (\<exists>lx'. get_codepoint lx = Inr (int n, lx') \<and> lex_at lx' r buf)
    | None \<Rightarrow> \<exists>lx' s'. get_codepoint lx = Inr (- 1, lx') \<and> lex_at lx' s' buf"
proof -
  have "get_codepoint lx = get_codepoint_loop [12, 8, 4, 0] 0 lx"
    using assms(2) by (simp only: get_codepoint_def json_assert_def simp_thms if_True ebind_Inr)
  then show ?thesis using codepoint_hex4 [OF assms(1)] by (simp only:)
qed

lemma implements_low_surrogate:
  assumes "lex_at lx s buf" and "current lx = 0x75" and "0xD800 \<le> hi" "hi < 0xDC00"
  shows "implements buf
    (case hex4 s of
       None \<Rightarrow> None
     | Some (lo, r) \<Rightarrow>
         if 0xDC00 \<le> lo \<and> lo < 0xE000
         then Some (utf8_encode (0x10000 + 0x400 * (hi - 0xD800) + (lo - 0xDC00)), r) else None)
    (scan_low_surrogate (int hi) lx)"
proof (cases "hex4 s")
  case None
  then show ?thesis
    using get_codepoint_hex4 [OF assms(1,2)]
    by (auto simp: scan_low_surrogate_def intro!: implements_error)
next
  case (Some p)
  obtain lo r where p: "p = (lo, r)" by (cases p)
  obtain lx' where lx': "get_codepoint lx = Inr (int lo, lx')" "lex_at lx' r buf"
    using get_codepoint_hex4 [OF assms(1,2)] Some p by auto
  show ?thesis
  proof (cases "0xDC00 \<le> lo \<and> lo < 0xE000")
    case True
    then show ?thesis
      using Some p lx' assms(3,4)
      by (auto simp: scan_low_surrogate_def push_bit_eq_mult intro!: implements_finish)
  next
    case False
    then show ?thesis
      using Some p lx' by (auto simp: scan_low_surrogate_def intro!: implements_error)
  qed
qed


lemma implements_unicode_escape:
  assumes "lex_at lx s buf" and "current lx = 0x75"
  shows "implements buf (unescape_unicode s) (scan_unicode_escape lx)"
proof (cases "hex4 s")
  case None
  then show ?thesis
    using get_codepoint_hex4 [OF assms]
    by (auto simp: scan_unicode_escape_def unescape_unicode_def intro!: implements_error)
next
  case (Some p)
  obtain hi r where p: "p = (hi, r)" by (cases p)
  obtain lx1 where lx1: "get_codepoint lx = Inr (int hi, lx1)" "lex_at lx1 r buf" and hi: "hi < 0x10000"
    using get_codepoint_hex4 [OF assms] Some p by auto
  have at2: "lex_at (lex_get lx1) (tl r) buf" and cur2: "current (lex_get lx1) = head_code r"
    using get_at [OF lx1(2)] by simp_all
  have at3: "lex_at (lex_get (lex_get lx1)) (tl (tl r)) buf"
    and cur3: "current (lex_get (lex_get lx1)) = head_code (tl r)"
    using get_at [OF at2] by simp_all
  consider (low) "0xDC00 \<le> hi" "hi < 0xE000" | (bmp) "hi < 0xD800 \<or> 0xE000 \<le> hi"
    | (high) "0xD800 \<le> hi" "hi < 0xDC00" by linarith
  then show ?thesis
  proof cases
    case low
    then show ?thesis
      using lx1 Some p by (auto simp: scan_unicode_escape_def unescape_unicode_def intro!: implements_error)
  next
    case bmp
    then show ?thesis
      using lx1 Some p hi
      by (auto simp: scan_unicode_escape_def unescape_unicode_def intro!: implements_finish)
  next
    case high
    show ?thesis
    proof (cases "\<exists>r'. r = CHR 0x5C # CHR ''u'' # r'")
      case True
      then obtain r' where r: "r = CHR 0x5C # CHR ''u'' # r'" by blast
      have "implements buf (unescape_unicode s) (scan_low_surrogate (int hi) (lex_get (lex_get lx1)))"
        using implements_low_surrogate [of "lex_get (lex_get lx1)" r' buf hi] at3 cur3 high r Some p
        by (simp add: unescape_unicode_def)
      then show ?thesis
        using high cur2 cur3 lx1 r by (simp add: scan_unicode_escape_def Let_def)
    next
      case False
      have "unescape_unicode s = None"
        using False high Some p by (auto simp: unescape_unicode_def split: list.splits)
      moreover have "current (lex_get lx1) \<noteq> 0x5C \<or> current (lex_get (lex_get lx1)) \<noteq> 0x75"
        using False by (auto simp: cur2 cur3 head_code_def char_codes split: list.splits)
      ultimately show ?thesis
        using high lx1 at2 at3
        by (auto simp: scan_unicode_escape_def Let_def intro!: implements_error)
    qed
  qed
qed


lemma implements_if:
  "(P \<Longrightarrow> implements b x m) \<Longrightarrow> (\<not> P \<Longrightarrow> implements b y n) \<Longrightarrow>
   implements b (if P then x else y) (if P then m else n)"
  by simp

lemma implements_escape:
  assumes "lex_at lx s buf"
  shows "implements buf (unescape s) (scan_escape lx)"
proof -
  have at: "lex_at (lex_get lx) (tl s) buf" and cur: "current (lex_get lx) = head_code s"
    using get_at [OF assms] by simp_all
  show ?thesis
  proof (cases s)
    case Nil
    then show ?thesis
      using at cur by (auto simp: scan_escape_def unescape_def Let_def intro!: implements_error)
  next
    case (Cons c r)
    have "implements buf (unescape_unicode r) (scan_unicode_escape (lex_get lx))" if "c = CHR ''u''"
      using implements_unicode_escape [OF at] that Cons cur by simp
    then show ?thesis
      using at Cons
      by (simp only: scan_escape_def unescape_def Let_def char_codes cur list.case head_code_simps)
        (intro implements_if implements_error implements_add; simp add: char_codes char_of_code [symmetric])
  qed
qed

lemma utf8_ranges_nonneg: "\<forall>(lo, hi)\<in>set (utf8_ranges c). 0 \<le> lo"
  by (auto simp: utf8_ranges_def)

lemma utf8_ranges_length:
  "utf8_ranges c = [] \<or> length (utf8_ranges c) = 1 \<or> length (utf8_ranges c) = 2 \<or> length (utf8_ranges c) = 3"
  by (simp add: utf8_ranges_def)

lemma implements_utf8:
  assumes "lex_at lx s buf" and "current lx = of_char c"
  shows "implements buf
    (if utf8_ranges (of_char c) = [] then None
     else map_option (\<lambda>(t, r). (c # t, r)) (take_ranges (utf8_ranges (of_char c)) s))
    (scan_utf8 lx)"
proof (cases "utf8_ranges (of_char c) = []")
  case True
  then show ?thesis using assms by (auto simp: scan_utf8_def intro!: implements_error)
next
  case False
  have "lex_at (lex_add (of_char c) lx) s (buf @ [c])"
    using add_at [OF assms(1), of "of_char c"] by simp
  from next_byte_ranges [OF this utf8_ranges_nonneg, of "of_char c"]
  show ?thesis
    using utf8_ranges_length [of "of_char c"] False assms(2)
    by (cases "take_ranges (utf8_ranges (of_char c)) s")
      (auto 4 4 simp: scan_utf8_def next_byte_in_range_def json_assert_def implements_def)
qed

lemma implements_string_step:
  assumes "lex_at lx (c # s) buf" and "c \<noteq> CHR 0x22"
  shows "implements buf (lex_char (c # s)) (scan_string_step (lex_get lx))"
proof -
  have at: "lex_at (lex_get lx) s buf" and cur: "current (lex_get lx) = of_char c"
    using get_at [OF assms(1)] by simp_all
  have n: "(of_char c :: int) \<noteq> 0x22" using assms(2) by (simp add: char_codes)
  consider (esc) "c = CHR 0x5C" | (ctl) "(of_char c :: int) < 0x20"
    | (ascii) "0x20 \<le> (of_char c :: int)" "(of_char c :: int) < 0x80" "(of_char c :: int) \<noteq> 0x5C"
    | (multi) "0x80 \<le> (of_char c :: int)"
    by (cases "c = CHR 0x5C") (auto simp: char_codes, linarith)
  then show ?thesis
  proof cases
    case esc
    then show ?thesis
      using implements_escape [OF at] cur by (simp add: scan_string_step_def lex_char_def Let_def)
  next
    case ctl
    then show ?thesis
      using at cur n by (auto simp: scan_string_step_def lex_char_def Let_def intro!: implements_error)
  next
    case ascii
    then show ?thesis
      using at cur n by (auto simp: scan_string_step_def lex_char_def Let_def intro!: implements_add)
  next
    case multi
    then show ?thesis
      using implements_utf8 [OF at cur] cur n
      by (simp add: scan_string_step_def lex_char_def Let_def)
  qed
qed

lemma scan_string_loop_lex:
  "lex_at lx s buf \<Longrightarrow>
   case lex_string buf s of
     Some (str, r) \<Rightarrow> \<exists>lx'. scan_string_loop lx = Inr (TK_value_string, lx') \<and> lex_at lx' r str
   | None \<Rightarrow> \<exists>lx' s' b. scan_string_loop lx = Inr (TK_parse_error, lx') \<and> lex_at lx' s' b"
proof (induction buf s arbitrary: lx rule: lex_string.induct)
  case (1 buf s)
  have at: "lex_at (lex_get lx) (tl s) buf" and cur: "current (lex_get lx) = head_code s"
    using get_at [OF 1(2)] by simp_all
  show ?case
  proof (cases s)
    case Nil
    have "scan_string_loop lx =
        Inr (TK_parse_error, (lex_get lx)\<lparr>error_message := ''invalid string: missing closing quote''\<rparr>)"
      using cur Nil by (simp add: scan_string_loop.simps [of lx] scan_string_step_def lex_error_def)
    then show ?thesis
      using error_at [OF at] Nil by (auto simp: lex_string.simps [of buf "[]"])
  next
    case (Cons c r)
    show ?thesis
    proof (cases "c = CHR 0x22")
      case True
      then show ?thesis
        using at cur Cons
        by (auto simp: lex_string.simps [of buf "CHR 0x22 # r"] scan_string_loop.simps [of lx]
            scan_string_step_def)
    next
      case False
      have step: "implements buf (lex_char s) (scan_string_step (lex_get lx))"
        using implements_string_step [of lx c r buf] 1(2) Cons False by simp
      show ?thesis
      proof (cases "lex_char s")
        case None
        then show ?thesis
          using step Cons False
          by (auto 4 4 simp: implements_def lex_string.simps [of buf "c # r"] scan_string_loop.simps [of lx])
      next
        case (Some p)
        obtain u r' where p: "p = (u, r')" by (cases p)
        obtain lx1 where lx1: "scan_string_step (lex_get lx) = Inr (None, lx1)" "lex_at lx1 r' (buf @ u)"
          using step Some p by (auto simp: implements_def)
        have "scan_string_loop lx = scan_string_loop lx1"
          using lx1(1) by (simp add: scan_string_loop.simps [of lx])
        moreover have "lex_string buf s = lex_string (buf @ u) r'"
          using Some p Cons False by (simp add: lex_string.simps [of buf "c # r"])
        ultimately show ?thesis
          using 1(1) [OF Cons False Some p [symmetric] lx1(2)] by (simp only:)
      qed
    qed
  qed
qed

section \<open>Numbers are scanned as specified\<close>

definition number_parts :: "string \<Rightarrow> string \<Rightarrow> string \<Rightarrow> string \<Rightarrow> bool" where
  "number_parts mn ip fp ep \<longleftrightarrow>
     (mn = [] \<or> mn = ''-'') \<and> ip \<noteq> [] \<and> list_all is_digit_char ip \<and>
     (fp = [] \<or> (\<exists>ds. fp = CHR ''.'' # ds \<and> ds \<noteq> [] \<and> list_all is_digit_char ds)) \<and>
     (ep = [] \<or> (\<exists>e sg ds. ep = e # sg @ ds \<and> (e = CHR ''e'' \<or> e = CHR ''E'') \<and>
                  (sg = [] \<or> sg = ''+'' \<or> sg = ''-'') \<and> ds \<noteq> [] \<and> list_all is_digit_char ds))"

lemma takeWhile_digits:
  "list_all P ds \<Longrightarrow> r = [] \<or> \<not> P (hd r) \<Longrightarrow> takeWhile P (ds @ r) = ds \<and> dropWhile P (ds @ r) = r"
  by (induction ds) (auto simp: takeWhile_eq_Nil_iff dropWhile_eq_self_iff)

lemma takeWhile_list_all: "list_all P ds \<Longrightarrow> takeWhile P ds = ds" "list_all P ds \<Longrightarrow> dropWhile P ds = []"
  by (induction ds) auto

lemma not_digit [simp]:
  "\<not> is_digit_char CHR ''-''" "\<not> is_digit_char CHR ''+''" "\<not> is_digit_char CHR ''.''"
  "\<not> is_digit_char CHR ''e''" "\<not> is_digit_char CHR ''E''"
  by (simp_all add: is_digit_char_def less_eq_char_def)

lemma take_sign_minus:
  assumes "mn = [] \<or> mn = ''-''" and "ds \<noteq> []" "list_all is_digit_char ds"
  shows "take_sign (mn @ ds @ r) = (mn \<noteq> [], ds @ r)"
  using assms by (cases ds) (auto simp: take_sign_def)

lemma take_sign_exp:
  assumes "sg = [] \<or> sg = ''+'' \<or> sg = ''-''" and "ds \<noteq> []" "list_all is_digit_char ds"
  shows "take_sign (sg @ ds) = (sg = ''-'', ds)"
  using assms by (cases ds) (auto simp: take_sign_def)

lemma strtod_end:
  assumes "number_parts mn ip fp ep"
  shows "strto_end (strtod (mn @ ip @ fp @ ep)) = length (mn @ ip @ fp @ ep)"
proof -
  have ip: "ip \<noteq> []" "list_all is_digit_char ip" and mn: "mn = [] \<or> mn = ''-''"
    using assms by (auto simp: number_parts_def)
  have ep_hd: "ep = [] \<or> \<not> is_digit_char (hd ep)" using assms by (auto simp: number_parts_def)
  have fe: "fp @ ep = [] \<or> \<not> is_digit_char (hd (fp @ ep))" using assms ep_hd by (auto simp: number_parts_def)
  note sign = take_sign_minus [OF mn ip, of "fp @ ep"]
  note tw = takeWhile_digits [OF ip(2) fe]
  have frac: "strtod_fraction (fp @ ep) = (tl fp, ep)"
    using assms takeWhile_digits [of is_digit_char "tl fp" ep] ep_hd
    by (auto simp: number_parts_def strtod_fraction_def split: list.splits)
  have exp: "snd (strtod_exponent ep) = ''''"
  proof (cases "ep = []")
    case False
    then obtain e sg ds where "ep = e # sg @ ds" "e = CHR ''e'' \<or> e = CHR ''E''" "ds \<noteq> []"
        "sg = [] \<or> sg = ''+'' \<or> sg = ''-''" "list_all is_digit_char ds"
      using assms by (auto simp: number_parts_def)
    then show ?thesis
      by (simp add: strtod_exponent_def take_sign_exp takeWhile_list_all Let_def)
  qed (simp add: strtod_exponent_def)
  show ?thesis
    unfolding strtod_def sign
    using ip exp by (auto simp: conjunct1 [OF tw] conjunct2 [OF tw] frac Let_def split: prod.splits)
qed

lemma strtoull_end:
  assumes "ip \<noteq> []" "list_all is_digit_char ip"
  shows "strtoull ip = (if 2 ^ 64 \<le> digits_val ip
     then \<lparr>strto_value = - 1, strto_end = length ip, strto_erange = True\<rparr>
     else \<lparr>strto_value = of_nat (digits_val ip), strto_end = length ip, strto_erange = False\<rparr>)"
  using take_sign_minus [of "[]" ip "[]"] assms
  by (simp add: strtoull_def Let_def takeWhile_list_all)

lemma strtoll_end:
  assumes "ip \<noteq> []" "list_all is_digit_char ip"
  shows "strtoll (CHR ''-'' # ip) = (if 2 ^ 63 < digits_val ip
     then \<lparr>strto_value = of_int (- (2 ^ 63)), strto_end = Suc (length ip), strto_erange = True\<rparr>
     else \<lparr>strto_value = - of_nat (digits_val ip), strto_end = Suc (length ip), strto_erange = False\<rparr>)"
  using take_sign_minus [of "''-''" ip "[]"] assms
  by (simp add: strtoll_def Let_def takeWhile_list_all)

definition lexeme_of :: "token_type \<Rightarrow> lexer \<Rightarrow> lexeme" where
  "lexeme_of t lx =
     (case t of
        TK_value_string \<Rightarrow> L_string (token_buffer lx)
      | TK_value_unsigned \<Rightarrow> L_unsigned (value_unsigned lx)
      | TK_value_integer \<Rightarrow> L_integer (value_integer lx)
      | TK_value_float \<Rightarrow> L_float (value_float lx)
      | _ \<Rightarrow> L_token t)"

lemma value_at:
  "lex_at lx s buf \<Longrightarrow> lex_at (lx\<lparr>value_unsigned := u\<rparr>) s buf"
  "lex_at lx s buf \<Longrightarrow> lex_at (lx\<lparr>value_integer := u\<rparr>) s buf"
  "lex_at lx s buf \<Longrightarrow> lex_at (lx\<lparr>value_float := d\<rparr>) s buf"
  by (auto simp: lex_at_def lex_inv_def pending_def)

lemma token_buffer_at: "lex_at lx s buf \<Longrightarrow> token_buffer lx = buf"
  by (simp add: lex_at_def lex_inv_def)

lemma convert_float_at:
  assumes "lex_at lx s (mn @ ip @ fp @ ep)" and "number_parts mn ip fp ep"
  shows "\<exists>lx'. convert_float lx = Inr (TK_value_float, lx') \<and> lex_at lx' s (mn @ ip @ fp @ ep) \<and>
    value_float lx' = strto_value (strtod (mn @ ip @ fp @ ep))"
  using assms strtod_end [OF assms(2)] token_buffer_at [OF assms(1)]
  by (auto simp: convert_float_def json_assert_def Let_def intro: value_at)

lemma scan_number_done_at:
  assumes "lex_at lx s (mn @ ip @ fp @ ep)" and parts: "number_parts mn ip fp ep"
  shows "\<exists>t lx'. scan_number_done (number_kind mn fp ep) (lex_get lx) = Inr (t, lx') \<and>
    lex_at lx' s (mn @ ip @ fp @ ep) \<and>
    lexeme_of t lx' = number_lexeme (mn @ ip @ fp @ ep) (number_kind mn fp ep)"
proof -
  obtain lx1 where lx1: "lex_unget (lex_get lx) = Inr lx1" "lex_at lx1 s (mn @ ip @ fp @ ep)"
    using unget_at [OF assms(1)] by blast
  note buf = token_buffer_at [OF lx1(2)]
  obtain lx2 where lx2: "convert_float lx1 = Inr (TK_value_float, lx2)" "lex_at lx2 s (mn @ ip @ fp @ ep)"
      "value_float lx2 = strto_value (strtod (mn @ ip @ fp @ ep))"
    using convert_float_at [OF lx1(2) parts] by blast
  have ip: "ip \<noteq> []" "list_all is_digit_char ip" using parts by (auto simp: number_parts_def)
  consider (float) "number_kind mn fp ep = TK_value_float"
    | (integer) "fp = []" "ep = []" "mn = ''-''" | (unsigned) "fp = []" "ep = []" "mn = []"
    using parts by (auto simp: number_kind_def number_parts_def)
  then show ?thesis
  proof cases
    case float
    then show ?thesis
      using lx1 lx2 by (auto simp: scan_number_done_def lexeme_of_def number_lexeme_def)
  next
    case unsigned
    then show ?thesis
      using lx1 lx2 buf value_at(1) [OF lx1(2)]
      by (auto simp: scan_number_done_def lexeme_of_def number_lexeme_def number_kind_def
          strtoull_end [OF ip] json_assert_def Let_def)
  next
    case integer
    then show ?thesis
      using lx1 lx2 buf value_at(2) [OF lx1(2)]
      by (auto simp: scan_number_done_def lexeme_of_def number_lexeme_def number_kind_def
          strtoll_end [OF ip] json_assert_def Let_def)
  qed
qed

lemma digit_code: "is_digit_code (head_code s) \<longleftrightarrow> s \<noteq> [] \<and> is_digit_char (hd s)"
proof (cases s)
  case (Cons c r)
  have "(of_char c :: int) = int (of_char c)" by (simp add: of_nat_of_char)
  then show ?thesis using Cons by (simp add: is_digit_char_of_char)
qed simp

text \<open>
  A label of the number scanner reaches \<open>done\<close> with the text of the specification in the buffer, or
  reports an error where the specification has none.
\<close>

definition reaches_done :: "token_type \<Rightarrow> string \<Rightarrow> (string \<times> string) option \<Rightarrow> failure + token_type \<times> lexer \<Rightarrow> bool" where
  "reaches_done kind buf spec m \<longleftrightarrow>
     (case spec of
        Some (u, r) \<Rightarrow> \<exists>lx. m = scan_number_done kind (lex_get lx) \<and> lex_at lx r (buf @ u)
      | None \<Rightarrow> \<exists>lx s b. m = Inr (TK_parse_error, lx) \<and> lex_at lx s b)"

lemma reaches_done_error: "lex_at lx s b \<Longrightarrow> reaches_done kind buf None (number_error msg lx)"
  unfolding reaches_done_def number_error_def by (auto intro: error_at)

lemma reaches_done_at: "lex_at lx s buf \<Longrightarrow> reaches_done kind buf (Some ('''', s)) (scan_number_done kind (lex_get lx))"
  unfolding reaches_done_def by auto

lemma reaches_done_shift:
  "reaches_done kind (buf @ u) (Some (v, r)) m \<Longrightarrow> reaches_done kind buf (Some (u @ v, r)) m"
  by (simp add: reaches_done_def)

lemma add_current_at:
  assumes "lex_at lx (c # s) buf"
  shows "lex_at (lex_add (current (lex_get lx)) (lex_get lx)) s (buf @ [c])"
  using add_at [OF get_at(1) [OF assms], of "of_char c"] get_at(2) [OF assms] by simp

lemma any2_reaches:
  "lex_at lx s buf \<Longrightarrow>
   reaches_done t buf (Some (takeWhile is_digit_char s, dropWhile is_digit_char s)) (scan_number_any2 t lx)"
proof (induction s arbitrary: lx buf)
  case Nil
  then show ?case
    using get_at(2) [OF Nil] reaches_done_at [OF Nil] by (simp add: scan_number_any2.simps [of t lx])
next
  case (Cons c s)
  have cur: "current (lex_get lx) = of_char c" using get_at(2) [OF Cons(2)] by simp
  show ?case
  proof (cases "is_digit_char c")
    case True
    then have "is_digit_code (current (lex_get lx))" using digit_code [of "c # s"] cur by simp
    then show ?thesis
      using Cons(1) [OF add_current_at [OF Cons(2)]] True
      by (auto simp: scan_number_any2.simps [of t lx] Let_def dest: reaches_done_shift)
  next
    case False
    then have "\<not> is_digit_code (current (lex_get lx))" using digit_code [of "c # s"] cur by simp
    then show ?thesis
      using reaches_done_at [OF Cons(2)] False by (auto simp: scan_number_any2.simps [of t lx] Let_def)
  qed
qed

lemma digits_reaches:
  assumes "lex_at lx s buf" and "is_digit_code (head_code s)"
  shows "reaches_done t buf (Some (takeWhile is_digit_char s, dropWhile is_digit_char s))
    (scan_number_any2 t (lex_add (current (lex_get lx)) (lex_get lx)))"
proof -
  obtain c r where s: "s = c # r" "is_digit_char c"
    using assms(2) by (cases s) (auto simp: digit_code simp del: head_code_simps)
  then show ?thesis
    using any2_reaches [OF add_current_at, of lx c r buf t] assms(1)
    by (auto dest: reaches_done_shift)
qed

lemma sign_reaches:
  assumes "lex_at lx s buf"
  shows "reaches_done t buf
    (if takeWhile is_digit_char s = [] then None
     else Some (takeWhile is_digit_char s, dropWhile is_digit_char s)) (scan_number_sign t lx)"
proof -
  have "takeWhile is_digit_char s = [] \<longleftrightarrow> \<not> is_digit_code (head_code s)"
    by (cases s) (auto simp: digit_code simp del: head_code_simps)
  then show ?thesis
    using digits_reaches [OF assms, of t] reaches_done_error [OF get_at(1) [OF assms]] get_at(2) [OF assms]
    by (auto simp: scan_number_sign_def Let_def)
qed

lemma exponent_reaches:
  assumes "lex_at lx s (buf @ [e])" and e: "e = CHR ''e'' \<or> e = CHR ''E''"
  shows "reaches_done TK_value_float buf (lex_exponent (e # s)) (scan_number_exponent t lx)"
proof -
  have cur: "current (lex_get lx) = head_code s" by (rule get_at(2) [OF assms(1)])
  have tw: "takeWhile is_digit_char s = [] \<longleftrightarrow> \<not> is_digit_code (head_code s)"
    by (cases s) (auto simp: digit_code simp del: head_code_simps)
  show ?thesis
  proof (cases "\<exists>sg r. s = sg # r \<and> (sg = CHR ''+'' \<or> sg = CHR ''-'')")
    case True
    then obtain sg r where s: "s = sg # r" "sg = CHR ''+'' \<or> sg = CHR ''-''" by blast
    have "reaches_done TK_value_float ((buf @ [e]) @ [sg])
        (if takeWhile is_digit_char r = [] then None
         else Some (takeWhile is_digit_char r, dropWhile is_digit_char r))
        (scan_number_sign TK_value_float (lex_add (current (lex_get lx)) (lex_get lx)))"
      by (rule sign_reaches, rule add_current_at) (use assms(1) s in simp)
    moreover have "lex_exponent (e # s) =
        (if takeWhile is_digit_char r = [] then None
         else Some (e # sg # takeWhile is_digit_char r, dropWhile is_digit_char r))"
      using s e by (auto simp: lex_exponent_def Let_def)
    moreover have "scan_number_exponent t lx =
        scan_number_sign TK_value_float (lex_add (current (lex_get lx)) (lex_get lx))"
      using cur s by (auto simp: scan_number_exponent_def Let_def)
    ultimately show ?thesis
      by (auto simp: reaches_done_def split: if_splits)
  next
    case False
    have nosign: "head_code s \<noteq> 0x2B" "head_code s \<noteq> 0x2D"
      using False by (auto simp: head_code_def char_codes split: list.splits)
    have spec: "lex_exponent (e # s) =
        (if takeWhile is_digit_char s = [] then None
         else Some (e # takeWhile is_digit_char s, dropWhile is_digit_char s))"
      using False e by (auto simp: lex_exponent_def Let_def split: list.splits)
    show ?thesis
    proof (cases "is_digit_code (head_code s)")
      case True
      then show ?thesis
        using digits_reaches [OF assms(1) True, of TK_value_float] spec tw nosign cur
        by (auto simp: scan_number_exponent_def Let_def reaches_done_def)
    next
      case False
      then show ?thesis
        using reaches_done_error [OF get_at(1) [OF assms(1)]] spec tw nosign cur
        by (auto simp: scan_number_exponent_def Let_def)
    qed
  qed
qed

lemma exponent_code: "head_code s = 0x65 \<or> head_code s = 0x45 \<longleftrightarrow> (\<exists>e r. s = e # r \<and> (e = CHR ''e'' \<or> e = CHR ''E''))"
  by (cases s) (auto simp: char_codes)

text \<open>The common end of \<open>zero\<close>, \<open>any1\<close> and \<open>decimal2\<close>: an exponent, or done.\<close>

lemma exponent_or_done_reaches:
  assumes "lex_at lx s buf" and "lex_exponent s = Some ('''', s) \<Longrightarrow> t = kind"
    and "lex_exponent s \<noteq> Some ('''', s) \<Longrightarrow> kind = TK_value_float"
  shows "reaches_done kind buf (lex_exponent s)
    (if current (lex_get lx) = 0x65 \<or> current (lex_get lx) = 0x45
     then scan_number_exponent t (lex_add (current (lex_get lx)) (lex_get lx))
     else scan_number_done t (lex_get lx))"
proof (cases "head_code s = 0x65 \<or> head_code s = 0x45")
  case True
  then obtain e r where s: "s = e # r" "e = CHR ''e'' \<or> e = CHR ''E''" using exponent_code by blast
  have "lex_exponent s \<noteq> Some ('''', s)" using s by (auto simp: lex_exponent_def Let_def)
  then show ?thesis
    using exponent_reaches [OF add_current_at s(2), of lx r buf t] assms s True get_at(2) [OF assms(1)] by simp
next
  case False
  then have "lex_exponent s = Some ('''', s)"
    using exponent_code [of s] by (auto simp: lex_exponent_def split: list.splits)
  then show ?thesis
    using reaches_done_at [OF assms(1), of t] assms(2) False get_at(2) [OF assms(1)] by simp
qed

definition lex_decimals :: "string \<Rightarrow> (string \<times> string) option" where
  "lex_decimals s =
     map_option (\<lambda>(ep, r). (takeWhile is_digit_char s @ ep, r)) (lex_exponent (dropWhile is_digit_char s))"

lemma decimal2_reaches:
  "lex_at lx s buf \<Longrightarrow> reaches_done TK_value_float buf (lex_decimals s) (scan_number_decimal2 TK_value_float lx)"
proof (induction s arbitrary: lx buf)
  case Nil
  have "scan_number_decimal2 TK_value_float lx = scan_number_done TK_value_float (lex_get lx)"
    using get_at(2) [OF Nil] by (simp add: scan_number_decimal2.simps [of TK_value_float lx])
  then show ?case using reaches_done_at [OF Nil] by (simp add: lex_decimals_def lex_exponent_def)
next
  case (Cons c s)
  have cur: "current (lex_get lx) = head_code (c # s)" by (rule get_at(2) [OF Cons(2)])
  show ?case
  proof (cases "is_digit_char c")
    case True
    then have "is_digit_code (current (lex_get lx))" using digit_code [of "c # s"] cur by simp
    moreover have "lex_decimals (c # s) = map_option (\<lambda>(u, r). (c # u, r)) (lex_decimals s)"
      using True by (cases "lex_exponent (dropWhile is_digit_char s)") (auto simp: lex_decimals_def)
    ultimately show ?thesis
      using Cons(1) [OF add_current_at [OF Cons(2)]]
      by (cases "lex_decimals s")
        (auto simp: scan_number_decimal2.simps [of TK_value_float lx] Let_def reaches_done_def)
  next
    case False
    then have "\<not> is_digit_code (current (lex_get lx))" using digit_code [of "c # s"] cur by simp
    moreover have "lex_decimals (c # s) = lex_exponent (c # s)"
      using False by (cases "lex_exponent (c # s)") (auto simp: lex_decimals_def)
    ultimately show ?thesis
      using exponent_or_done_reaches [OF Cons(2), of TK_value_float TK_value_float]
      by (auto simp: scan_number_decimal2.simps [of TK_value_float lx] Let_def)
  qed
qed

text \<open>The fraction and the exponent after the integer part.\<close>

definition lex_tail :: "string \<Rightarrow> (string \<times> string) option" where
  "lex_tail s =
     (case lex_fraction s of
        None \<Rightarrow> None
      | Some (fp, r) \<Rightarrow> map_option (\<lambda>(ep, r). (fp @ ep, r)) (lex_exponent r))"

lemma point_at: "lex_at lx s buf \<Longrightarrow> lex_at (add_decimal_point lx) s (buf @ ''.'')"
proof -
  assume at: "lex_at lx s buf"
  have "lex_at (lex_add 0x2E lx) s (buf @ ''.'')"
    using add_at [OF at, of "0x2E"] char_of_code [of "CHR ''.''" "0x2E"] by simp
  then show ?thesis
    using at by (auto simp: add_decimal_point_def Let_def lex_at_def lex_inv_def pending_def)
qed

lemma decimal1_reaches:
  assumes "lex_at lx s (buf @ ''.'')"
  shows "reaches_done TK_value_float buf (lex_tail (CHR ''.'' # s)) (scan_number_decimal1 t lx)"
proof (cases "is_digit_code (head_code s)")
  case True
  then obtain c r where s: "s = c # r" "is_digit_char c" by (cases s) (auto simp: digit_code simp del: head_code_simps)
  have "lex_tail (CHR ''.'' # s) = map_option (\<lambda>(u, r). (CHR ''.'' # c # u, r)) (lex_decimals r)"
    using s by (cases "lex_exponent (dropWhile is_digit_char r)")
      (auto simp: lex_tail_def lex_fraction_def lex_decimals_def Let_def)
  moreover have "scan_number_decimal1 t lx =
      scan_number_decimal2 TK_value_float (lex_add (current (lex_get lx)) (lex_get lx))"
    using True get_at(2) [OF assms] by (simp add: scan_number_decimal1_def Let_def)
  moreover have "lex_at (lex_add (current (lex_get lx)) (lex_get lx)) r ((buf @ ''.'') @ [c])"
    using add_current_at [of lx c r] assms s by blast
  ultimately show ?thesis
    using decimal2_reaches by (cases "lex_decimals r") (auto simp: reaches_done_def, fastforce+)
next
  case False
  then have "lex_tail (CHR ''.'' # s) = None"
    by (cases s) (auto simp: lex_tail_def lex_fraction_def digit_code simp del: head_code_simps)
  then show ?thesis
    using False reaches_done_error [OF get_at(1) [OF assms]] get_at(2) [OF assms]
    by (auto simp: scan_number_decimal1_def Let_def)
qed

text \<open>The common end of \<open>zero\<close> and \<open>any1\<close>.\<close>

definition tail_kind :: "token_type \<Rightarrow> string \<Rightarrow> token_type" where
  "tail_kind t s = (if lex_tail s = Some ('''', s) then t else TK_value_float)"

lemma tail_reaches:
  assumes "lex_at lx s buf"
  shows "reaches_done (tail_kind t s) buf (lex_tail s)
    (if current (lex_get lx) = 0x2E then scan_number_decimal1 t (add_decimal_point (lex_get lx))
     else if current (lex_get lx) = 0x65 \<or> current (lex_get lx) = 0x45
     then scan_number_exponent t (lex_add (current (lex_get lx)) (lex_get lx))
     else scan_number_done t (lex_get lx))"
proof (cases "\<exists>r. s = CHR ''.'' # r")
  case True
  then obtain r where s: "s = CHR ''.'' # r" by blast
  have "lex_tail s \<noteq> Some ('''', s)"
    using s by (auto simp: lex_tail_def lex_fraction_def Let_def split: option.splits)
  then have "tail_kind t s = TK_value_float" by (simp add: tail_kind_def)
  then show ?thesis
    using decimal1_reaches [OF point_at [OF get_at(1) [OF assms]], of t] get_at(2) [OF assms] s by simp
next
  case False
  then have dot: "current (lex_get lx) \<noteq> 0x2E"
    using get_at(2) [OF assms] by (cases s) (auto simp: char_codes)
  have tail: "lex_tail s = lex_exponent s"
    using False by (cases "lex_exponent s") (auto simp: lex_tail_def lex_fraction_def split: list.splits)
  show ?thesis
    using exponent_or_done_reaches [OF assms, of t "tail_kind t s"] dot tail
    by (simp add: tail_kind_def)
qed

lemma zero_reaches: "lex_at lx s buf \<Longrightarrow> reaches_done (tail_kind t s) buf (lex_tail s) (scan_number_zero t lx)"
  using tail_reaches [of lx s buf t] by (simp add: scan_number_zero_def Let_def)

lemma any1_reaches:
  "lex_at lx s buf \<Longrightarrow>
   reaches_done (tail_kind t (dropWhile is_digit_char s)) (buf @ takeWhile is_digit_char s)
     (lex_tail (dropWhile is_digit_char s)) (scan_number_any1 t lx)"
proof (induction s arbitrary: lx buf)
  case Nil
  then show ?case
    using tail_reaches [OF Nil, of t] get_at(2) [OF Nil] by (simp add: scan_number_any1.simps [of t lx])
next
  case (Cons c s)
  have cur: "current (lex_get lx) = head_code (c # s)" by (rule get_at(2) [OF Cons(2)])
  show ?case
  proof (cases "is_digit_char c")
    case True
    then have "is_digit_code (current (lex_get lx))" using digit_code [of "c # s"] cur by simp
    then show ?thesis
      using Cons(1) [OF add_current_at [OF Cons(2)]] True
      by (simp add: scan_number_any1.simps [of t lx] Let_def)
  next
    case False
    then have "\<not> is_digit_code (current (lex_get lx))" using digit_code [of "c # s"] cur by simp
    then have "scan_number_any1 t lx =
      (if current (lex_get lx) = 0x2E then scan_number_decimal1 t (add_decimal_point (lex_get lx))
       else if current (lex_get lx) = 0x65 \<or> current (lex_get lx) = 0x45
       then scan_number_exponent t (lex_add (current (lex_get lx)) (lex_get lx))
       else scan_number_done t (lex_get lx))"
      by (auto simp: scan_number_any1.simps [of t lx] Let_def)
    then show ?thesis using tail_reaches [OF Cons(2), of t] False by simp
  qed
qed


lemma lex_fraction_parts:
  "lex_fraction s = Some (fp, r) \<Longrightarrow>
   fp = [] \<and> r = s \<or> (\<exists>ds. fp = CHR ''.'' # ds \<and> ds \<noteq> [] \<and> list_all is_digit_char ds)"
  by (auto simp: lex_fraction_def Let_def list_all_iff split: list.splits if_splits dest: set_takeWhileD)

lemma lex_exponent_parts:
  assumes "lex_exponent s = Some (ep, r)"
  shows "ep = [] \<and> r = s \<or>
    (\<exists>e sg ds. ep = e # sg @ ds \<and> (e = CHR ''e'' \<or> e = CHR ''E'') \<and>
       (sg = [] \<or> sg = ''+'' \<or> sg = ''-'') \<and> ds \<noteq> [] \<and> list_all is_digit_char ds)"
proof (cases s)
  case (Cons c t)
  define sg where "sg = (case t of d # _ \<Rightarrow> if d = CHR ''+'' \<or> d = CHR ''-'' then [d] else '''' | [] \<Rightarrow> '''')"
  define ds where "ds = takeWhile is_digit_char (drop (length sg) t)"
  have sg: "sg = [] \<or> sg = ''+'' \<or> sg = ''-''" by (auto simp: sg_def split: list.splits)
  have ds: "list_all is_digit_char ds" by (auto simp: ds_def list_all_iff dest: set_takeWhileD)
  show ?thesis
  proof (cases "c = CHR ''e'' \<or> c = CHR ''E''")
    case True
    have "lex_exponent s = (if ds = [] then None else Some (c # sg @ ds, dropWhile is_digit_char (drop (length sg) t)))"
      using True Cons by (simp add: lex_exponent_def Let_def sg_def ds_def)
    then show ?thesis using assms True sg ds by (auto split: if_splits)
  qed (use assms Cons in \<open>auto simp: lex_exponent_def\<close>)
qed (use assms in \<open>simp add: lex_exponent_def\<close>)

lemma lex_integer_part_digits:
  "lex_integer_part s = Some (ip, r) \<Longrightarrow> ip \<noteq> [] \<and> list_all is_digit_char ip"
  by (auto simp: lex_integer_part_def list_all_iff split: list.splits if_splits dest: set_takeWhileD)
    (simp_all add: is_digit_char_def)

text \<open>What \<open>scan_number\<close> promises about the number whose first character has been read.\<close>

definition scans_number :: "(string \<times> token_type \<times> string) option \<Rightarrow> failure + token_type \<times> lexer \<Rightarrow> bool" where
  "scans_number spec m \<longleftrightarrow>
     (case spec of
        Some (txt, kind, r) \<Rightarrow>
          \<exists>t lx. m = Inr (t, lx) \<and> lex_at lx r txt \<and> lexeme_of t lx = number_lexeme txt kind
      | None \<Rightarrow> \<exists>lx s b. m = Inr (TK_parse_error, lx) \<and> lex_at lx s b)"

lemma scans_number_tail:
  assumes m: "reaches_done (tail_kind t s2) (mn @ ip) (lex_tail s2) m"
    and ip: "ip \<noteq> []" "list_all is_digit_char ip" and mn: "mn = [] \<or> mn = ''-''"
    and t: "t = (if mn \<noteq> [] then TK_value_integer else TK_value_unsigned)"
  shows "scans_number
    (case lex_fraction s2 of
       None \<Rightarrow> None
     | Some (fp, s3) \<Rightarrow>
         (case lex_exponent s3 of
            None \<Rightarrow> None
          | Some (ep, s4) \<Rightarrow> Some (mn @ ip @ fp @ ep, number_kind mn fp ep, s4))) m"
proof (cases "lex_tail s2")
  case None
  then show ?thesis
    using m by (auto simp: lex_tail_def scans_number_def reaches_done_def split: option.splits)
next
  case (Some p)
  then obtain fp s3 ep s4 where f: "lex_fraction s2 = Some (fp, s3)" and e: "lex_exponent s3 = Some (ep, s4)"
    by (auto simp: lex_tail_def split: option.splits)
  have tail: "lex_tail s2 = Some (fp @ ep, s4)" using f e by (simp add: lex_tail_def)
  have "tail_kind t s2 = number_kind mn fp ep"
    using tail lex_fraction_parts [OF f] lex_exponent_parts [OF e] t by (auto simp: tail_kind_def number_kind_def)
  moreover have parts: "number_parts mn ip fp ep"
    using ip mn lex_fraction_parts [OF f] lex_exponent_parts [OF e] by (auto simp: number_parts_def)
  ultimately obtain lx where "m = scan_number_done (number_kind mn fp ep) (lex_get lx)"
      "lex_at lx s4 (mn @ ip @ fp @ ep)"
    using m tail by (auto simp: reaches_done_def)
  then show ?thesis
    using scan_number_done_at [OF _ parts, of lx s4] f e by (auto simp: scans_number_def)
qed

lemma integer_part_reaches:
  assumes "lex_at lx s (mn @ [c])" and "lex_integer_part (c # s) = Some (ip, s2)"
  shows "reaches_done (tail_kind t s2) (mn @ ip) (lex_tail s2)
    (if c = CHR ''0'' then scan_number_zero t lx else scan_number_any1 t lx)"
  using assms zero_reaches [OF assms(1), of t] any1_reaches [OF assms(1), of t]
  by (auto simp: lex_integer_part_def split: if_splits)

lemma nonzero_digit_code:
  "0x31 \<le> (of_char c :: int) \<and> (of_char c :: int) \<le> 0x39 \<longleftrightarrow> is_digit_char c \<and> c \<noteq> CHR ''0''"
proof -
  have "0x31 \<le> n \<and> n \<le> 0x39 \<longleftrightarrow> is_digit_code n \<and> n \<noteq> 0x30" for n :: int by auto
  moreover have "(of_char c :: int) = 0x30 \<longleftrightarrow> c = CHR ''0''" by (simp add: char_codes)
  ultimately show ?thesis using digit_code [of "[c]"] by auto
qed


lemma lex_integer_part_None:
  "lex_integer_part (c # s) = None \<longleftrightarrow> \<not> is_digit_char c"
  by (auto simp: lex_integer_part_def is_digit_char_def)

lemma lex_number_digit:
  "c \<noteq> CHR ''-'' \<Longrightarrow> lex_number (c # s) =
   (case lex_integer_part (c # s) of
      None \<Rightarrow> None
    | Some (ip, s2) \<Rightarrow>
        (case lex_fraction s2 of
           None \<Rightarrow> None
         | Some (fp, s3) \<Rightarrow>
             (case lex_exponent s3 of
                None \<Rightarrow> None
              | Some (ep, s4) \<Rightarrow> Some ([] @ ip @ fp @ ep, number_kind [] fp ep, s4))))"
  by (simp add: lex_number_def)

lemma lex_number_minus:
  "lex_number (CHR ''-'' # s) =
   (case lex_integer_part s of
      None \<Rightarrow> None
    | Some (ip, s2) \<Rightarrow>
        (case lex_fraction s2 of
           None \<Rightarrow> None
         | Some (fp, s3) \<Rightarrow>
             (case lex_exponent s3 of
                None \<Rightarrow> None
              | Some (ep, s4) \<Rightarrow> Some (''-'' @ ip @ fp @ ep, number_kind ''-'' fp ep, s4))))"
  by (simp add: lex_number_def)

lemma first_char_at:
  assumes "lex_at lx s b" and "current lx = of_char c"
  shows "lex_at (lex_add (current (lex_reset lx)) (lex_reset lx)) s [c]"
  using add_at [OF reset_at [OF assms(1)], of "of_char c"] assms(2) by simp

lemma scan_number_minus_lex:
  assumes at: "lex_at lx s ''-''"
  shows "scans_number (lex_number (CHR ''-'' # s)) (scan_number_minus t lx)"
proof (cases "lex_integer_part s")
  case None
  then have "\<not> is_digit_code (head_code s)"
    by (cases s) (auto simp: digit_code lex_integer_part_None simp del: head_code_simps)
  then show ?thesis
    using get_at(2) [OF at] error_at [OF get_at(1) [OF at]] None
    by (auto simp: scan_number_minus_def Let_def number_error_def scans_number_def lex_number_minus)
next
  case (Some p)
  then obtain ip s2 c r where p: "p = (ip, s2)" and s: "s = c # r"
    by (cases s; cases p) (auto simp: lex_integer_part_def)
  have d: "is_digit_char c" using Some s lex_integer_part_None [of c r] by auto
  let ?lx = "lex_add (current (lex_get lx)) (lex_get lx)"
  have "lex_at ?lx r (''-'' @ [c])" using add_current_at [of lx c r "''-''"] at s by simp
  from integer_part_reaches [OF this, of ip s2 TK_value_integer]
  have "reaches_done (tail_kind TK_value_integer s2) (''-'' @ ip) (lex_tail s2)
      (if c = CHR ''0'' then scan_number_zero TK_value_integer ?lx else scan_number_any1 TK_value_integer ?lx)"
    using Some p s by simp
  moreover have "scan_number_minus t lx =
      (if c = CHR ''0'' then scan_number_zero TK_value_integer ?lx else scan_number_any1 TK_value_integer ?lx)"
    using get_at(2) [OF at] s d nonzero_digit_code [of c] by (auto simp: scan_number_minus_def Let_def char_codes)
  ultimately show ?thesis
    using scans_number_tail [of TK_value_integer s2 "''-''" ip] lex_integer_part_digits [OF Some [unfolded p]] Some p
    by (simp add: lex_number_minus)
qed

lemma scan_number_lex:
  assumes at: "lex_at lx s b" and cur: "current lx = of_char c" and c: "c = CHR ''-'' \<or> is_digit_char c"
  shows "scans_number (lex_number (c # s)) (scan_number lx)"
proof (cases "c = CHR ''-''")
  case True
  then show ?thesis
    using scan_number_minus_lex [of _ s TK_value_unsigned] first_char_at [OF at cur] cur
    by (simp add: scan_number_def Let_def)
next
  case False
  then have d: "is_digit_char c" using c by simp
  then obtain ip s2 where ip: "lex_integer_part (c # s) = Some (ip, s2)"
    using lex_integer_part_None [of c s] by (cases "lex_integer_part (c # s)") auto
  let ?lx = "lex_add (current (lex_reset lx)) (lex_reset lx)"
  have "reaches_done (tail_kind TK_value_unsigned s2) ([] @ ip) (lex_tail s2)
      (if c = CHR ''0'' then scan_number_zero TK_value_unsigned ?lx else scan_number_any1 TK_value_unsigned ?lx)"
    using integer_part_reaches [OF _ ip, of ?lx "[]"] first_char_at [OF at cur] by simp
  moreover have "scan_number lx =
      (if c = CHR ''0'' then scan_number_zero TK_value_unsigned ?lx else scan_number_any1 TK_value_unsigned ?lx)"
    using cur d False nonzero_digit_code [of c] by (auto simp: scan_number_def Let_def char_codes)
  ultimately show ?thesis
    using scans_number_tail [of TK_value_unsigned s2 "[]" ip] lex_integer_part_digits [OF ip] ip
    by (simp add: lex_number_digit [OF False])
qed


section \<open>Tokens are scanned as specified\<close>

lemma eof_char: "of_char c < (128 :: int) \<Longrightarrow> char_of eof \<noteq> c"
proof
  assume c: "of_char c < (128 :: int)" and "char_of eof = c"
  then have "of_char c = (of_char (char_of eof) :: int)" by simp
  also have "\<dots> = 255" by (simp add: take_bit_eq_mod)
  finally show False using c by simp
qed

lemma scan_literal_loop_lex:
  "lex_at lx s b \<Longrightarrow> \<forall>c\<in>set cs. of_char c < (128 :: int) \<Longrightarrow>
   if take (length cs) s = cs
   then \<exists>lx'. scan_literal_loop cs t lx = (t, lx') \<and> lex_at lx' (drop (length cs) s) b
   else \<exists>lx' s' b'. scan_literal_loop cs t lx = (TK_parse_error, lx') \<and> lex_at lx' s' b'"
proof (induction cs arbitrary: lx s)
  case (Cons c cs)
  have at: "lex_at (lex_get lx) (tl s) b" and cur: "current (lex_get lx) = head_code s"
    using get_at [OF Cons(2)] by simp_all
  have "char_of (current (lex_get lx)) = c \<longleftrightarrow> (\<exists>r. s = c # r)"
    using Cons(3) eof_char [of c] unfolding cur by (cases s) auto
  then show ?case
    using Cons(1) [OF at] Cons(3) error_at [OF at] by (cases s) (auto simp: Let_def)
qed simp

text \<open>
  A scan function yields the lexeme and leaves the rest of the text to be read; after an error what
  is left is not specified.
\<close>

definition scans :: "lexeme \<times> string \<Rightarrow> failure + token_type \<times> lexer \<Rightarrow> bool" where
  "scans spec m \<longleftrightarrow>
     (\<exists>t lx s b. m = Inr (t, lx) \<and> lexeme_of t lx = fst spec \<and> lex_at lx s b \<and>
        (t \<noteq> TK_parse_error \<longrightarrow> s = snd spec))"

lemma scansI: "lex_at lx r b \<Longrightarrow> lexeme_of t lx = l \<Longrightarrow> scans (l, r) (Inr (t, lx))"
  by (auto simp: scans_def)

lemma scans_errorI: "lex_at lx s b \<Longrightarrow> scans (L_token TK_parse_error, r) (Inr (TK_parse_error, lx))"
  by (auto simp: scans_def lexeme_of_def)

lemma scans_literal:
  assumes "lex_at lx s b" and "current lx = of_char c" and "\<forall>d\<in>set cs. of_char d < (128 :: int)"
    and t: "\<And>lx. lexeme_of t lx = L_token t"
  shows "scans (lex_literal (c # cs) t (c # s)) (scan_literal (c # cs) t lx)"
  using scan_literal_loop_lex [OF assms(1,3), of t] assms(2)
  by (auto simp: scan_literal_def json_assert_def lex_literal_def split: if_splits
      intro!: scansI scans_errorI t)

lemma scans_string:
  assumes "lex_at lx s b" and "current lx = 0x22"
  shows "scans (case lex_string [] s of None \<Rightarrow> (L_token TK_parse_error, []) | Some (str, r) \<Rightarrow> (L_string str, r))
    (scan_string lx)"
  using scan_string_loop_lex [OF reset_at [OF assms(1)]] assms(2) token_buffer_at
  by (auto simp: scan_string_def json_assert_def Let_def lexeme_of_def split: option.splits
      intro!: scansI scans_errorI)

lemma lexeme_of_number: "lexeme_of t lx = number_lexeme txt kind \<Longrightarrow> t \<noteq> TK_parse_error"
  by (auto simp: lexeme_of_def number_lexeme_def split: if_splits)

lemma scans_number_token:
  assumes "lex_at lx s b" and "current lx = of_char c" and "c = CHR ''-'' \<or> is_digit_char c"
  shows "scans (case lex_number (c # s) of
      None \<Rightarrow> (L_token TK_parse_error, [])
    | Some (txt, kind, r) \<Rightarrow> (number_lexeme txt kind, r)) (scan_number lx)"
  using scan_number_lex [OF assms]
  by (auto simp: scans_number_def split: option.splits intro!: scansI scans_errorI)

lemma scans_if:
  "(P \<Longrightarrow> scans x m) \<Longrightarrow> (\<not> P \<Longrightarrow> scans y n) \<Longrightarrow> scans (if P then x else y) (if P then m else n)"
  by simp

lemma digit_code1: "is_digit_code (of_char c) \<longleftrightarrow> is_digit_char c"
  using digit_code [of "[c]"] by simp

lemma scan_token_lex:
  assumes at: "lex_at lx (tl s) b" and cur: "current lx = head_code s"
  shows "scans (lex_nows s) (scan_token lx)"
proof (cases s)
  case Nil
  then show ?thesis
    using at cur by (auto simp: scan_token_eof lex_nows_def lexeme_of_def intro!: scansI)
next
  case (Cons c r)
  have at': "lex_at lx r b" and cur': "current lx = of_char c" using at cur Cons by simp_all
  have lits: "c = CHR ''t'' \<Longrightarrow> scans (lex_literal ''true'' TK_literal_true (c # r)) (scan_literal ''true'' TK_literal_true lx)"
      "c = CHR ''f'' \<Longrightarrow> scans (lex_literal ''false'' TK_literal_false (c # r)) (scan_literal ''false'' TK_literal_false lx)"
      "c = CHR ''n'' \<Longrightarrow> scans (lex_literal ''null'' TK_literal_null (c # r)) (scan_literal ''null'' TK_literal_null lx)"
    using scans_literal [OF at' cur'] by (simp_all add: lexeme_of_def)
  have str: "c = CHR 0x22 \<Longrightarrow> scans (case lex_string [] r of None \<Rightarrow> (L_token TK_parse_error, [])
      | Some (str, r) \<Rightarrow> (L_string str, r)) (scan_string lx)"
    using scans_string [OF at'] cur' by simp
  show ?thesis
    unfolding scan_token_def lex_nows_def Let_def cur' Cons list.case
    by (simp only: char_codes of_char_not_eof digit_code1 simp_thms)
      (intro scans_if lits str scans_number_token [OF at' cur'] scans_errorI [OF error_at [OF at']]
        scansI [OF at']; simp add: lexeme_of_def)
qed

lemma ws_code: "head_code s = 0x20 \<or> head_code s = 0x09 \<or> head_code s = 0x0A \<or> head_code s = 0x0D \<longleftrightarrow>
    (\<exists>c r. s = c # r \<and> is_ws c)"
  by (cases s) (auto simp: char_codes is_ws_def)

lemma skip_whitespace_lex:
  "lex_inv lx s b \<Longrightarrow>
   lex_at (skip_whitespace lx) (tl (dropWhile is_ws s)) b \<and>
   current (skip_whitespace lx) = head_code (dropWhile is_ws s)"
proof (induction s arbitrary: lx)
  case Nil
  then show ?case
    using get_inv [OF Nil] by (simp add: skip_whitespace.simps [of lx])
next
  case (Cons c s)
  note at = get_inv [OF Cons(2)]
  show ?case
  proof (cases "is_ws c")
    case True
    then have "skip_whitespace lx = skip_whitespace (lex_get lx)"
      using at(2) ws_code [of "c # s"] by (simp add: skip_whitespace.simps [of lx] Let_def)
    then show ?thesis using Cons(1) [of "lex_get lx"] at(1) True by (simp add: lex_at_def)
  next
    case False
    then have "skip_whitespace lx = lex_get lx"
      using at(2) ws_code [of "c # s"] by (simp add: skip_whitespace.simps [of lx] Let_def)
    then show ?thesis using at False by simp
  qed
qed

lemma skip_comments_off: "lex_at lx s b \<Longrightarrow> skip_comments lx = Inr (None, lx)"
  by (simp add: skip_comments.simps [of lx] lex_at_def lex_inv_def)

text \<open>The scanner implements the specification once the first character has been read.\<close>

lemma scan_ready:
  assumes "lex_inv lx s b"
  shows "scans (lex_next s)
    (ebind (skip_comments (skip_whitespace lx)) (\<lambda>(r, lx). case r of Some t \<Rightarrow> Inr (t, lx) | None \<Rightarrow> scan_token lx))"
  using skip_whitespace_lex [OF assms] skip_comments_off
    scan_token_lex [of "skip_whitespace lx" "dropWhile is_ws s" b]
  by (auto simp: lex_next_def)

lemma scan_lex: "lex_at lx s b \<Longrightarrow> scans (lex_next s) (scan lx)"
  using scan_ready [OF lex_atD] by (simp add: scan_def lex_at_def)

text \<open>The first token: a byte order mark is skipped.\<close>

definition lex_first :: "string \<Rightarrow> lexeme \<times> string" where
  "lex_first s =
     (if s \<noteq> [] \<and> hd s = CHR 0xEF
      then (if take 3 s = [CHR 0xEF, CHR 0xBB, CHR 0xBF] then lex_next (drop 3 s) else (L_token TK_parse_error, []))
      else lex_next s)"

lemma lexer_new_inv: "lex_inv (lexer_new s False) s []"
  by (simp add: lex_inv_def lexer_new_def pending_def get_decimal_point_def)

lemma scan_first: "scans (lex_first s) (scan (lexer_new s False))"
proof -
  let ?lx = "lexer_new s False" let ?g1 = "lex_get ?lx" let ?g2 = "lex_get ?g1" let ?g3 = "lex_get ?g2"
  have total: "chars_read_total (position ?lx) = 0" by (simp add: lexer_new_def)
  note at1 = get_inv [OF lexer_new_inv [of s]]
  note at2 = get_at [OF at1(1)]
  note at3 = get_at [OF at2(1)]
  show ?thesis
  proof (cases "head_code s = 0xEF")
    case True
    then obtain r where s: "s = CHR 0xEF # r" by (cases s) (auto simp: code_iff [of "CHR 0xEF" "0xEF", simplified])
    show ?thesis
    proof (cases "take 2 r = [CHR 0xBB, CHR 0xBF]")
      case True
      then obtain r' where r: "r = CHR 0xBB # CHR 0xBF # r'"
        by (cases r; cases "tl r") (auto simp: numeral_2_eq_2)
      have "scan ?lx = ebind (skip_comments (skip_whitespace ?g3))
          (\<lambda>(r, lx). case r of Some t \<Rightarrow> Inr (t, lx) | None \<Rightarrow> scan_token lx)"
        using at1 at2 at3 s r total by (simp add: scan_def skip_bom_def Let_def)
      then show ?thesis
        using scan_ready [OF lex_atD [OF at3(1)]] s r by (simp add: lex_first_def)
    next
      case False
      then have "lex_first s = (L_token TK_parse_error, [])"
        using s by (cases r; cases "tl r") (auto simp: lex_first_def)
      moreover have "\<exists>lx s' b. skip_bom ?lx = Inr (False, lx) \<and> lex_at lx s' b"
        using at1 at2 at3 s False
        by (cases r; cases "tl r")
          (auto simp: skip_bom_def Let_def numeral_2_eq_2 code_iff [of "CHR 0xBB" "0xBB", simplified]
            code_iff [of "CHR 0xBF" "0xBF", simplified])
      ultimately show ?thesis
        using total by (auto simp: scan_def intro!: scans_errorI error_at)
    qed
  next
    case False
    then have "lex_first s = lex_next s" by (cases s) (auto simp: lex_first_def)
    moreover obtain lx' where "lex_unget ?g1 = Inr lx'" "lex_inv lx' s []"
      using unget_inv [OF lexer_new_inv] by blast
    ultimately show ?thesis
      using False at1 total scan_ready [of lx' s "[]"] by (simp add: scan_def skip_bom_def Let_def)
  qed
qed

section \<open>Well-formed UTF-8\<close>

function utf8_ok :: "string \<Rightarrow> bool" where
  "utf8_ok s =
     (case s of
        [] \<Rightarrow> True
      | c # r \<Rightarrow>
          if of_char c < (0x80 :: int) then utf8_ok r
          else if utf8_ranges (of_char c) = [] then False
          else (case take_ranges (utf8_ranges (of_char c)) r of
                  None \<Rightarrow> False
                | Some (t, r') \<Rightarrow> utf8_ok r'))"
  by pat_completeness auto
termination
  by (relation "measure length") (auto dest: take_ranges_length)

declare utf8_ok.simps [simp del]

lemma utf8_ok_Nil [simp]: "utf8_ok []"
  by (simp add: utf8_ok.simps)

lemma utf8_ok_ascii: "of_char c < (0x80 :: int) \<Longrightarrow> utf8_ok (c # r) = utf8_ok r"
  by (simp add: utf8_ok.simps [of "c # r"])

lemma take_ranges_append:
  "take_ranges rs s = Some (t, r) \<Longrightarrow> s = t @ r \<and> take_ranges rs (t @ r') = Some (t, r')"
proof (induction rs s arbitrary: t r rule: take_ranges.induct)
  case (3 lo hi rs c s)
  then obtain t' where "take_ranges rs s = Some (t', r)" "t = c # t'" "lo \<le> of_char c \<and> of_char c \<le> hi"
    by (auto split: if_splits)
  with 3(1) [of t' r] show ?case by auto
qed auto

lemma utf8_ranges_ascii: "of_char c < (0x80 :: int) \<Longrightarrow> utf8_ranges (of_char c) = []"
  by (auto simp: utf8_ranges_def)

lemma utf8_ok_char:
  "take_ranges (utf8_ranges (of_char c)) s = Some (t, r) \<Longrightarrow> utf8_ranges (of_char c) \<noteq> [] \<Longrightarrow>
   utf8_ok (c # t @ r') = utf8_ok r'"
  using take_ranges_append [of "utf8_ranges (of_char c)" s t r r'] utf8_ranges_ascii [of c]
  by (subst utf8_ok.simps) auto

lemma utf8_ok_append: "utf8_ok a \<Longrightarrow> utf8_ok (a @ b) = utf8_ok b"
proof (induction a rule: utf8_ok.induct)
  case (1 a)
  show ?case
  proof (cases a)
    case (Cons c r)
    show ?thesis
    proof (cases "of_char c < (0x80 :: int)")
      case True
      then show ?thesis using 1(1) [OF Cons True] 1(3) Cons by (simp add: utf8_ok_ascii)
    next
      case False
      obtain t r' where t: "take_ranges (utf8_ranges (of_char c)) r = Some (t, r')" and ne: "utf8_ranges (of_char c) \<noteq> []"
        using 1(3) False Cons
        by (subst (asm) utf8_ok.simps) (auto split: if_splits option.splits)
      have r: "r = t @ r'" using take_ranges_append [OF t] by simp
      then have "utf8_ok r'" using utf8_ok_char [OF t ne, of r'] 1(3) Cons by simp
      then have "utf8_ok (r' @ b) = utf8_ok b" using 1(2) [OF Cons False ne t] by simp
      then show ?thesis using utf8_ok_char [OF t ne, of "r' @ b"] Cons r by simp
    qed
  qed simp
qed

definition scalar_value :: "nat \<Rightarrow> bool" where
  "scalar_value cp \<longleftrightarrow> cp < 0xD800 \<or> 0xE000 \<le> cp \<and> cp < 0x110000"

lemma of_char_char_of_nat: "n < 256 \<Longrightarrow> of_char (char_of n) = int n"
proof -
  assume "n < 256"
  have "(of_char (char_of n) :: int) = int (of_char (char_of n :: char))" by (simp only: of_nat_of_char)
  also have "\<dots> = int n" using \<open>n < 256\<close> by simp
  finally show ?thesis .
qed

lemma utf8_ok_encode:
  assumes "scalar_value cp"
  shows "utf8_ok (utf8_encode cp)"
proof -
  define a b c d where "a = cp div 0x40000" and "b = cp div 0x1000 mod 0x40" and "c = cp div 0x40 mod 0x40"
    and "d = cp mod 0x40"
  have cp: "cp = 0x40000 * a + 0x1000 * b + 0x40 * c + d"
  proof -
    have "cp div 0x40 div 0x40 = cp div 0x1000" "cp div 0x1000 div 0x40 = cp div 0x40000"
      by (simp_all flip: div_mult2_eq)
    then show ?thesis
      using mult_div_mod_eq [of "0x40" cp] mult_div_mod_eq [of "0x40" "cp div 0x40"]
        mult_div_mod_eq [of "0x40" "cp div 0x1000"]
      unfolding a_def b_def c_def d_def by linarith
  qed
  have lt: "b < 0x40" "c < 0x40" "d < 0x40" by (simp_all add: b_def c_def d_def)
  have sv: "cp < 0xD800 \<or> 0xE000 \<le> cp \<and> cp < 0x110000" using assms by (simp add: scalar_value_def)
  consider "cp < 0x80" | "0x80 \<le> cp" "cp < 0x800" | "0x800 \<le> cp" "cp < 0x10000" | "0x10000 \<le> cp" by linarith
  then show ?thesis
  proof cases
    case 1
    then show ?thesis by (simp add: utf8_encode_def utf8_ok_ascii of_char_char_of_nat)
  next
    case 2
    have hi: "cp div 0x40 < 0x20" "2 \<le> cp div 0x40" using 2 by auto
    then show ?thesis
      using 2 lt
      by (subst utf8_ok.simps) (simp add: utf8_encode_def of_char_char_of_nat utf8_ranges_def)
  next
    case 3
    then have "a = 0" and b: "cp div 0x1000 = b" by (auto simp: a_def b_def)
    have cp': "cp = 0x1000 * b + 0x40 * c + d" using cp \<open>a = 0\<close> by simp
    have facts: "b = 0 \<longrightarrow> 0x20 \<le> c" "b = 13 \<longrightarrow> c < 0x20" "b < 0x10"
      using 3 sv cp' lt by linarith+
    have "utf8_encode cp = [char_of (0xE0 + b), char_of (0x80 + c), char_of (0x80 + d)]"
      using 3 b by (simp add: utf8_encode_def c_def d_def)
    then show ?thesis
      using facts lt
      by (subst utf8_ok.simps) (auto simp: of_char_char_of_nat utf8_ranges_def)
  next
    case 4
    have facts: "a = 0 \<longrightarrow> 0x10 \<le> b" "a = 4 \<longrightarrow> b < 0x10" "a \<le> 4"
      using 4 sv cp lt by linarith+
    have "utf8_encode cp = [char_of (0xF0 + a), char_of (0x80 + b), char_of (0x80 + c), char_of (0x80 + d)]"
      using 4 by (simp add: utf8_encode_def a_def b_def c_def d_def)
    then show ?thesis
      using facts lt
      by (subst utf8_ok.simps) (auto simp: of_char_char_of_nat utf8_ranges_def)
  qed
qed

lemma hex4_less: "hex4 s = Some (n, r) \<Longrightarrow> n < 0x10000"
proof (cases s rule: hex4.cases)
  case (1 a b c d r')
  assume "hex4 s = Some (n, r)"
  then obtain w x y z where "hex_val a = Some w" "hex_val b = Some x" "hex_val c = Some y" "hex_val d = Some z"
      "n = 4096 * w + 256 * x + 16 * y + z"
    using 1 by (auto split: option.splits)
  then show ?thesis using hex_val_less [of a w] hex_val_less [of b x] hex_val_less [of c y] hex_val_less [of d z]
    by linarith
qed auto

lemma unescape_unicode_utf8:
  assumes "unescape_unicode s = Some (u, r)"
  shows "utf8_ok u"
proof -
  obtain hi r1 where hi: "hex4 s = Some (hi, r1)" using assms by (auto simp: unescape_unicode_def split: option.splits)
  have lt: "hi < 0x10000" by (rule hex4_less [OF hi])
  show ?thesis
  proof (cases "0xD800 \<le> hi \<and> hi < 0xDC00")
    case True
    then obtain lo where "0xDC00 \<le> lo \<and> lo < 0xE000" "u = utf8_encode (0x10000 + 0x400 * (hi - 0xD800) + (lo - 0xDC00))"
      using assms hi by (auto simp: unescape_unicode_def split: list.splits option.splits if_splits)
    moreover from this(1) True have "scalar_value (0x10000 + 0x400 * (hi - 0xD800) + (lo - 0xDC00))"
      by (auto simp: scalar_value_def)
    ultimately show ?thesis using utf8_ok_encode by blast
  next
    case False
    then have "u = utf8_encode hi" "scalar_value hi"
      using assms hi lt by (auto simp: unescape_unicode_def scalar_value_def split: if_splits)
    then show ?thesis by (simp add: utf8_ok_encode)
  qed
qed

lemma lex_char_utf8:
  assumes "lex_char s = Some (u, r)"
  shows "utf8_ok u"
proof -
  obtain c s' where s: "s = c # s'" using assms by (cases s) (auto simp: lex_char_def)
  consider (esc) "unescape s' = Some (u, r)" | (ascii) "u = [c]" "(of_char c :: int) < 0x80"
    | (multi) t where "u = c # t" "utf8_ranges (of_char c) \<noteq> []" "take_ranges (utf8_ranges (of_char c)) s' = Some (t, r)"
    using assms s by (auto simp: lex_char_def Let_def split: if_splits)
  then show ?thesis
  proof cases
    case esc
    then show ?thesis
      by (auto simp: unescape_def utf8_ok_ascii split: list.splits if_splits dest: unescape_unicode_utf8)
  next
    case ascii
    then show ?thesis by (simp add: utf8_ok_ascii)
  next
    case multi
    then show ?thesis using utf8_ok_char [of c s' t r "[]"] by simp
  qed
qed

lemma lex_string_utf8: "lex_string buf s = Some (str, r) \<Longrightarrow> utf8_ok buf \<Longrightarrow> utf8_ok str"
proof (induction buf s rule: lex_string.induct)
  case (1 buf s)
  show ?case
    using 1(2,3) 1(1) lex_char_utf8 utf8_ok_append
    by (subst (asm) lex_string.simps) (fastforce split: list.splits if_splits option.splits)
qed

text \<open>Every string lexeme is well-formed UTF-8.\<close>

fun lexeme_ok :: "lexeme \<Rightarrow> bool" where
  "lexeme_ok (L_string str) = utf8_ok str"
| "lexeme_ok _ = True"

lemma number_lexeme_ok: "lexeme_ok (number_lexeme txt kind)"
  by (simp add: number_lexeme_def)

lemma lex_next_ok: "lexeme_ok (fst (lex_next s))"
  using lex_string_utf8 [of "[]"] number_lexeme_ok
  by (auto simp: lex_next_def lex_nows_def lex_literal_def split: list.splits option.splits)

lemma lex_first_ok: "lexeme_ok (fst (lex_first s))"
  using lex_next_ok by (simp add: lex_first_def)

end
