(* ===== verification/Json_Escape.thy ===== *)
theory Json_Escape
  imports Json_Serializer Json_Tokens
begin

text \<open>
  What \<open>serializer::dump_escaped\<close> writes.  The states of the table-driven UTF-8 decoder are related to
  the ranges of bytes by which the lexer recognises UTF-8, so that both agree on which strings are well
  formed; with the strict error handler and without \<open>ensure_ascii\<close>, the only setting the program uses,
  a well-formed string is escaped byte by byte, any other one stops the process, and the string buffer
  never overflows.
\<close>

lemma buf_append_ok:
  "pos + length cs \<le> length buf \<Longrightarrow>
   buf_append buf pos cs = Inr (take pos buf @ cs @ drop (pos + length cs) buf, pos + length cs)"
proof (induction cs arbitrary: buf pos)
  case (Cons c cs)
  have "take (Suc pos) (buf[pos := c]) = take pos buf @ [c]" using Cons.prems by (simp add: take_Suc_conv_app_nth)
  then show ?case using Cons by (simp add: buf_put_def)
qed simp

section \<open>The decoder of UTF-8\<close>

text \<open>The states of the decoder and the ranges of the bytes it still expects.\<close>

definition utf8_pending :: "(int \<times> int) list list" where
  "utf8_pending =
     [[(0x80, 0xBF)], [(0x80, 0xBF), (0x80, 0xBF)], [(0xA0, 0xBF), (0x80, 0xBF)], [(0x80, 0x9F), (0x80, 0xBF)],
      [(0x90, 0xBF), (0x80, 0xBF), (0x80, 0xBF)], [(0x80, 0xBF), (0x80, 0xBF), (0x80, 0xBF)],
      [(0x80, 0x8F), (0x80, 0xBF), (0x80, 0xBF)]]"

definition state_of :: "(int \<times> int) list \<Rightarrow> nat" where
  "state_of rs = (case map_of (zip ([] # utf8_pending) [0, 2, 3, 4, 5, 6, 7, 8]) rs of Some n \<Rightarrow> n | None \<Rightarrow> 1)"

text \<open>The code point read so far is at least this large, so that a complete one is not an ASCII character.\<close>

definition least_codepoint :: "(int \<times> int) list \<Rightarrow> nat" where
  "least_codepoint rs =
     (case rs of
        [] \<Rightarrow> 0x80
      | [_] \<Rightarrow> 2
      | (lo, _) # _ \<Rightarrow> if lo = 0xA0 \<or> lo = 0x90 then 0 else 1)"

definition byte_type :: "nat \<Rightarrow> nat" where
  "byte_type n =
     (if n < 0x80 then 0 else if n < 0x90 then 1 else if n < 0xA0 then 9 else if n < 0xC0 then 7
      else if n < 0xC2 then 8 else if n < 0xE0 then 2 else if n = 0xE0 then 10 else if n = 0xED then 4
      else if n < 0xF0 then 3 else if n = 0xF0 then 11 else if n < 0xF4 then 6 else if n = 0xF4 then 5 else 8)"

lemma utf8d_length: "length utf8d = 400"
  by (simp add: utf8d_def)

lemma utf8d_type: "n < 256 \<Longrightarrow> utf8d ! n = byte_type n"
proof -
  have "\<forall>n\<in>set [0..<256]. utf8d ! n = byte_type n" by code_simp
  moreover assume "n < 256"
  ultimately show ?thesis by simp
qed

lemma byte_type_less: "byte_type n < 12"
  by (simp add: byte_type_def)

text \<open>The transitions: from the first byte of a character, and from the bytes that follow it.\<close>

lemma utf8d_lead: "\<forall>t\<in>set [0..<12]. utf8d ! (256 + t) = [0, 1, 2, 3, 5, 8, 7, 1, 1, 1, 4, 6] ! t"
  by code_simp

definition accepts_type :: "int \<times> int \<Rightarrow> nat \<Rightarrow> bool" where
  "accepts_type r t =
     (if r = (0x80, 0xBF) then t \<in> {1, 7, 9} else if r = (0xA0, 0xBF) then t = 7 else if r = (0x80, 0x9F) then t \<in> {1, 9}
      else if r = (0x90, 0xBF) then t \<in> {7, 9} else t = 1)"

lemma utf8d_next:
  "\<forall>rs\<in>set utf8_pending. \<forall>t\<in>set [0..<12].
     utf8d ! (256 + state_of rs * 16 + t) = (if accepts_type (hd rs) t then state_of (tl rs) else 1)"
  by code_simp

lemma utf8_pending_tl: "rs \<in> set utf8_pending \<Longrightarrow> tl rs = [] \<or> tl rs \<in> set utf8_pending"
  by (auto simp: utf8_pending_def)

lemma accepts_type_range:
  assumes "rs \<in> set utf8_pending"
  shows "accepts_type (hd rs) (byte_type n) \<longleftrightarrow> fst (hd rs) \<le> int n \<and> int n \<le> snd (hd rs)"
  using assms by (auto simp: utf8_pending_def accepts_type_def byte_type_def)

lemma decode_eq:
  "decode st cp (byte_of c) =
     (let t = byte_type (of_char c); i = 256 + st * 16 + t;
          cp' = (if st \<noteq> 0 then (ucast (byte_of c) AND 0x3F) OR push_bit 6 cp else drop_bit t 0xFF AND ucast (byte_of c))
      in if i < 400 then Inr (utf8d ! i, cp') else Inl Assertion_failed)"
proof -
  have "of_char c < (256 :: nat)" by simp
  then have "of_char c < (400 :: nat)" by linarith
  then show ?thesis by (simp add: decode_def Let_def unat_byte_of utf8d_length json_assert_def utf8d_type)
qed

lemma of_char_int: "(of_char c :: int) = int (of_char c)"
  by (simp only: of_nat_of_char)

lemma ucast_byte_of: "(ucast (byte_of c) :: u32) = word_of_nat (of_char c)"
proof -
  have "(of_nat (unat (byte_of c)) :: u32) = ucast (byte_of c)" by simp
  then show ?thesis by (simp only: unat_byte_of)
qed

definition lead_ok :: "nat \<Rightarrow> bool" where
  "lead_ok n \<longleftrightarrow>
     (let rs = utf8_ranges (int n); cp = (drop_bit (byte_type n) 0xFF AND word_of_nat n :: u32);
          st = [0, 1, 2, 3, 5, 8, 7, 1, 1, 1, 4, 6] ! byte_type n
      in if n < 0x80 then unat cp = n
         else if rs = [] then st = 1
         else rs \<in> set utf8_pending \<and> st = state_of rs \<and> least_codepoint rs \<le> unat cp \<and> unat cp < 64)"

lemma lead_ok_all: "n < 256 \<Longrightarrow> lead_ok n"
proof -
  have "\<forall>n\<in>set [0..<256]. lead_ok n" by code_simp
  moreover assume "n < 256"
  ultimately show ?thesis by simp
qed

lemma decode_ascii:
  assumes "of_char c < (0x80 :: int)"
  shows "decode 0 cp (byte_of c) = Inr (0, word_of_nat (of_char c))"
proof -
  have n: "of_char c < (0x80 :: nat)" using assms by (simp add: of_char_int)
  have "(drop_bit 0 0xFF AND word_of_nat (of_char c) :: u32) = word_of_nat (of_char c)"
    using lead_ok_all [of "of_char c"] n
    by (simp add: lead_ok_def Let_def byte_type_def word_unat_eq_iff unat_of_nat)
  moreover have "utf8d ! 256 = 0" using utf8d_lead by (auto dest: bspec [of _ _ 0])
  ultimately show ?thesis
    using n by (simp add: decode_eq Let_def byte_type_def ucast_byte_of del: drop_bit_0)
qed

lemma decode_invalid:
  assumes "(0x80 :: int) \<le> of_char c" and "utf8_ranges (of_char c) = []"
  shows "\<exists>cp'. decode 0 cp (byte_of c) = Inr (1, cp')"
  using assms lead_ok_all [of "of_char c"] utf8d_lead byte_type_less [of "of_char c"]
  by (simp add: decode_eq Let_def lead_ok_def of_char_int)

lemma decode_first:
  assumes "utf8_ranges (of_char c) \<noteq> []"
  shows "\<exists>cp'. decode 0 cp (byte_of c) = Inr (state_of (utf8_ranges (of_char c)), cp') \<and>
    utf8_ranges (of_char c) \<in> set utf8_pending \<and> least_codepoint (utf8_ranges (of_char c)) \<le> unat cp' \<and> unat cp' < 64"
proof -
  have "(0x80 :: int) \<le> of_char c" using assms utf8_ranges_ascii [of c] by linarith
  then show ?thesis
    using assms lead_ok_all [of "of_char c"] utf8d_lead byte_type_less [of "of_char c"]
    by (simp add: decode_eq Let_def lead_ok_def of_char_int ucast_byte_of)
qed

lemma codepoint_shift:
  assumes "unat (cp :: u32) < 2 ^ 26"
  shows "unat ((ucast (byte_of c) AND 0x3F) OR push_bit 6 cp) = 64 * unat cp + of_char c mod 64"
proof -
  have m: "(0x3F :: u32) = mask 6" by (simp add: mask_eq_exp_minus_1)
  have "((ucast (byte_of c) AND 0x3F) OR push_bit 6 cp) = push_bit 6 cp + (ucast (byte_of c) AND 0x3F)"
    by (subst disjunctive_add_eq_or) (auto simp: m bit_eq_iff bit_simps or.commute)
  moreover have "unat (push_bit 6 cp) = 64 * unat cp"
    using assms by (simp add: push_bit_eq_mult unat_mult_lem [THEN iffD1])
  moreover have "unat (ucast (byte_of c) AND 0x3F :: u32) = of_char c mod 64"
  proof -
    have "(of_char c :: nat) < 2 ^ 32" by (rule less_trans [OF nat_of_char_less_256]) simp
    then show ?thesis
      unfolding m take_bit_eq_mask [symmetric] ucast_byte_of unsigned_take_bit_eq
      by (simp only: unat_of_nat) (simp add: take_bit_eq_mod)
  qed
  ultimately show ?thesis using assms by (simp add: unat_add_lem [THEN iffD1])
qed


lemma continuation_mod: "0x80 \<le> n \<Longrightarrow> n \<le> 0xBF \<Longrightarrow> n mod 64 = n - (0x80 :: nat)"
  by (simp add: le_mod_geq)

lemma least_codepoint_tl:
  assumes "rs \<in> set utf8_pending" "fst (hd rs) \<le> int n" "int n \<le> snd (hd rs)" "least_codepoint rs \<le> a"
  shows "least_codepoint (tl rs) \<le> 64 * a + n mod 64"
proof -
  have "0xA0 \<le> n \<Longrightarrow> n \<le> 0xBF \<Longrightarrow> 0x20 \<le> n mod 64" "0x90 \<le> n \<Longrightarrow> n \<le> 0xBF \<Longrightarrow> 0x10 \<le> n mod 64"
    by (simp_all add: continuation_mod)
  then show ?thesis
    using assms by (auto simp: utf8_pending_def least_codepoint_def)
qed

lemma state_of_pending: "rs \<in> set utf8_pending \<Longrightarrow> 2 \<le> state_of rs \<and> state_of rs \<le> 8"
  by (auto simp: utf8_pending_def state_of_def)

lemma state_of_Nil [simp]: "state_of [] = 0"
  by (simp add: state_of_def)

lemma decode_next:
  assumes rs: "rs \<in> set utf8_pending" and cp: "unat cp < 2 ^ 26" "least_codepoint rs \<le> unat cp"
  shows "\<exists>cp'. decode (state_of rs) cp (byte_of c) =
      Inr (if fst (hd rs) \<le> of_char c \<and> of_char c \<le> snd (hd rs) then state_of (tl rs) else 1, cp') \<and>
    unat cp' = 64 * unat cp + of_char c mod 64 \<and>
    (fst (hd rs) \<le> of_char c \<and> of_char c \<le> snd (hd rs) \<longrightarrow> least_codepoint (tl rs) \<le> unat cp')"
proof -
  let ?t = "byte_type (of_char c)"
  have st: "2 \<le> state_of rs" "state_of rs \<le> 8" using state_of_pending [OF rs] by auto
  have "?t < 12" by (rule byte_type_less)
  then have i: "256 + state_of rs * 16 + ?t < 400" using st by linarith
  have "utf8d ! (256 + state_of rs * 16 + ?t) = (if accepts_type (hd rs) ?t then state_of (tl rs) else 1)"
    using utf8d_next rs \<open>?t < 12\<close> by fastforce
  then show ?thesis
    using st i codepoint_shift [OF cp(1), of c] accepts_type_range [OF rs, of "of_char c"]
      least_codepoint_tl [OF rs _ _ cp(2), of "of_char c"]
    by (simp add: decode_eq Let_def of_char_int)
qed

section \<open>Escaped strings\<close>

text \<open>The bytes from \<open>r\<close> on are well-formed UTF-8 when those of a character are expected first.\<close>

fun utf8_from :: "(int \<times> int) list \<Rightarrow> string \<Rightarrow> bool" where
  "utf8_from [] [] = True"
| "utf8_from [] (c # r) =
     (if of_char c < (0x80 :: int) then utf8_from [] r
      else utf8_ranges (of_char c) \<noteq> [] \<and> utf8_from (utf8_ranges (of_char c)) r)"
| "utf8_from (x # rs) [] = False"
| "utf8_from (x # rs) (c # r) = (fst x \<le> of_char c \<and> of_char c \<le> snd x \<and> utf8_from rs r)"

lemma utf8_from_ranges:
  "utf8_from rs s = (case take_ranges rs s of None \<Rightarrow> False | Some (t, r) \<Rightarrow> utf8_from [] r)"
  by (induction rs s rule: take_ranges.induct) (auto split: option.splits)

lemma utf8_from_ok: "utf8_from [] s = utf8_ok s"
proof (induction s rule: utf8_ok.induct)
  case (1 s)
  then show ?case
    by (subst utf8_ok.simps) (auto simp: utf8_from_ranges [of "_ # _"] neq_Nil_conv split: list.splits option.splits)
qed

text \<open>What a byte becomes in the output.\<close>

definition escape_char :: "char \<Rightarrow> string" where
  "escape_char c =
     (if c = CHR 0x08 then [CHR 0x5C, CHR ''b''] else if c = CHR 0x09 then [CHR 0x5C, CHR ''t'']
      else if c = CHR 0x0A then [CHR 0x5C, CHR ''n''] else if c = CHR 0x0C then [CHR 0x5C, CHR ''f'']
      else if c = CHR 0x0D then [CHR 0x5C, CHR ''r''] else if c = CHR 0x22 then [CHR 0x5C, CHR 0x22]
      else if c = CHR 0x5C then [CHR 0x5C, CHR 0x5C]
      else if of_char c < (0x20 :: nat) then escape_u16 (of_char c) else [c])"

abbreviation escape_text :: "string \<Rightarrow> string" where
  "escape_text s \<equiv> concat (map escape_char s)"

lemma es_put_ok:
  assumes "es_bytes es + length cs \<le> length (string_buffer (es_ser es))"
  shows "es_put cs es = Inr (es\<lparr>es_ser := (es_ser es)\<lparr>string_buffer :=
      take (es_bytes es) (string_buffer (es_ser es)) @ cs @ drop (es_bytes es + length cs) (string_buffer (es_ser es))\<rparr>,
    es_bytes := es_bytes es + length cs\<rparr>)"
  using assms by (simp add: es_put_def buf_append_ok)

text \<open>
  The serializer has written \<open>tx\<close> after what \<open>ser\<close> had written, the last part still in the buffer;
  nothing else has changed.
\<close>

definition buffered :: "serializer \<Rightarrow> string \<Rightarrow> nat \<Rightarrow> escape \<Rightarrow> bool" where
  "buffered ser tx n es \<longleftrightarrow>
     (es_ser es)\<lparr>so := so ser, string_buffer := string_buffer ser\<rparr> = ser \<and>
     length (string_buffer (es_ser es)) = 512 \<and> es_bytes es \<le> n \<and>
     so (es_ser es) @ take (es_bytes es) (string_buffer (es_ser es)) = so ser @ tx"

lemma buffered_put:
  assumes "buffered ser tx n es" and "n + length cs \<le> 512"
  shows "\<exists>es'. es_put cs es = Inr es' \<and> buffered ser (tx @ cs) (n + length cs) es' \<and>
    es_codepoint es' = es_codepoint es \<and> es_state es' = es_state es"
  using assms es_put_ok [of es cs] by (auto simp: buffered_def)

lemma buffered_printf:
  assumes "buffered ser tx n es" and "n + length cs < 512"
  shows "\<exists>es'. es_printf cs es = Inr es' \<and> buffered ser (tx @ cs) (n + length cs) es' \<and>
    es_codepoint es' = es_codepoint es \<and> es_state es' = es_state es"
  using assms es_put_ok [of es "cs @ [CHR 0x00]"] by (auto simp: buffered_def es_printf_def)

lemma buffered_flush:
  assumes "buffered ser tx n es" and "n \<le> 512"
  shows "\<exists>es'. es_flush es = Inr es' \<and> buffered ser tx 499 es' \<and>
    es_codepoint es' = es_codepoint es \<and> es_state es' = es_state es"
  using assms by (auto simp: buffered_def es_flush_def write_buffer_def write_characters_def)

lemma buffered_mono: "buffered ser tx n es \<Longrightarrow> n \<le> m \<Longrightarrow> buffered ser tx m es"
  by (simp add: buffered_def)

definition puts :: "serializer \<Rightarrow> string \<Rightarrow> escape \<Rightarrow> failure + escape \<Rightarrow> bool" where
  "puts ser tx es m \<longleftrightarrow> (\<exists>es'. m = Inr es' \<and> buffered ser tx 512 es' \<and> es_state es' = es_state es)"

lemma puts_put: "buffered ser tx n es \<Longrightarrow> n + length cs \<le> 512 \<Longrightarrow> tx' = tx @ cs \<Longrightarrow> puts ser tx' es (es_put cs es)"
  using buffered_put [of ser tx n es cs] buffered_mono by (fastforce simp: puts_def)

lemma puts_printf: "buffered ser tx n es \<Longrightarrow> n + length cs < 512 \<Longrightarrow> tx' = tx @ cs \<Longrightarrow> puts ser tx' es (es_printf cs es)"
  using buffered_printf [of ser tx n es cs] buffered_mono by (fastforce simp: puts_def)

text \<open>A code point is ready: an ASCII character, or one whose last byte is \<open>c\<close>.\<close>

definition codepoint_of :: "char \<Rightarrow> u32 \<Rightarrow> bool" where
  "codepoint_of c cp \<longleftrightarrow>
     (if of_char c < (0x80 :: nat) then unat cp = of_char c else 0x80 \<le> unat cp)"

lemma codepoint_of_cases:
  assumes "codepoint_of c cp"
  shows "(cp = 0x08) = (c = CHR 0x08)" "(cp = 0x09) = (c = CHR 0x09)" "(cp = 0x0A) = (c = CHR 0x0A)"
    "(cp = 0x0C) = (c = CHR 0x0C)" "(cp = 0x0D) = (c = CHR 0x0D)" "(cp = 0x22) = (c = CHR 0x22)"
    "(cp = 0x5C) = (c = CHR 0x5C)" "(cp \<le> 0x1F) = (of_char c < (0x20 :: nat))"
    "of_char c < (0x20 :: nat) \<Longrightarrow> unat cp = of_char c"
proof -
  have eq: "(cp = word_of_nat (of_char d)) = (c = d)" if "of_char d < (0x80 :: nat)" for d
  proof -
    have "(cp = word_of_nat (of_char d)) = (unat cp = of_char d)"
      using that by (auto simp: word_unat_eq_iff unat_of_nat)
    also have "\<dots> = (of_char c = (of_char d :: nat))"
      using assms that by (auto simp: codepoint_of_def split: if_splits)
    finally show ?thesis by simp
  qed
  show "(cp = 0x08) = (c = CHR 0x08)" "(cp = 0x09) = (c = CHR 0x09)" "(cp = 0x0A) = (c = CHR 0x0A)"
    "(cp = 0x0C) = (c = CHR 0x0C)" "(cp = 0x0D) = (c = CHR 0x0D)" "(cp = 0x22) = (c = CHR 0x22)"
    "(cp = 0x5C) = (c = CHR 0x5C)"
    using eq [of "CHR 0x08"] eq [of "CHR 0x09"] eq [of "CHR 0x0A"] eq [of "CHR 0x0C"] eq [of "CHR 0x0D"]
      eq [of "CHR 0x22"] eq [of "CHR 0x5C"] by simp_all
  show "(cp \<le> 0x1F) = (of_char c < (0x20 :: nat))" "of_char c < (0x20 :: nat) \<Longrightarrow> unat cp = of_char c"
    using assms by (auto simp: codepoint_of_def word_le_nat_alt split: if_splits)
qed

lemma length_escape_u16 [simp]: "length (escape_u16 n) = 6"
  by (simp add: escape_u16_def)

lemma accept_ok:
  assumes b: "buffered ser tx n es" "n \<le> 502" and c: "codepoint_of c (es_codepoint es)"
  shows "\<exists>es'. accept_codepoint False c es = Inr es' \<and> buffered ser (tx @ escape_char c) 499 es' \<and> es_state es' = es_state es"
proof -
  note cases = codepoint_of_cases [OF c]
  have small: "of_char c < (0x20 :: nat) \<Longrightarrow> es_codepoint es \<le> 0xFFFF" using cases(9) by (simp add: word_le_nat_alt)
  define m where "m = (if es_codepoint es = 0x08 then es_put [CHR 0x5C, CHR ''b''] es
         else if es_codepoint es = 0x09 then es_put [CHR 0x5C, CHR ''t''] es
         else if es_codepoint es = 0x0A then es_put [CHR 0x5C, CHR ''n''] es
         else if es_codepoint es = 0x0C then es_put [CHR 0x5C, CHR ''f''] es
         else if es_codepoint es = 0x0D then es_put [CHR 0x5C, CHR ''r''] es
         else if es_codepoint es = 0x22 then es_put [CHR 0x5C, CHR 0x22] es
         else if es_codepoint es = 0x5C then es_put [CHR 0x5C, CHR 0x5C] es
         else if es_codepoint es \<le> 0x1F then
           (if es_codepoint es \<le> 0xFFFF then es_printf (escape_u16 (unat (es_codepoint es))) es
            else es_printf (escape_u16 (unat (0xD7C0 + drop_bit 10 (es_codepoint es))) @
                            escape_u16 (unat (0xDC00 + (es_codepoint es AND 0x3FF)))) es)
         else es_put [c] es)"
  have "puts ser (tx @ escape_char c) es m"
    using b(2) small cases(9) unfolding m_def cases(1-8)
    by (simp add: escape_char_def puts_put [OF b(1)] puts_printf [OF b(1)])
  then obtain es1 where es1: "m = Inr es1" "buffered ser (tx @ escape_char c) 512 es1" "es_state es1 = es_state es"
    by (auto simp: puts_def)
  then show ?thesis
    using buffered_flush [OF es1(2)] by (auto simp: accept_codepoint_def Let_def m_def buffered_def)
qed


text \<open>The ranges expected after one more byte; \<open>None\<close> when the byte is not allowed.\<close>

fun utf8_next :: "(int \<times> int) list \<Rightarrow> char \<Rightarrow> (int \<times> int) list option" where
  "utf8_next [] c =
     (if of_char c < (0x80 :: int) then Some []
      else if utf8_ranges (of_char c) = [] then None else Some (utf8_ranges (of_char c)))"
| "utf8_next (x # rs) c = (if fst x \<le> of_char c \<and> of_char c \<le> snd x then Some rs else None)"

lemma utf8_from_next: "utf8_from rs (c # r) = (case utf8_next rs c of None \<Rightarrow> False | Some rs' \<Rightarrow> utf8_from rs' r)"
  by (cases rs) auto

definition escaping :: "serializer \<Rightarrow> string \<Rightarrow> (int \<times> int) list \<Rightarrow> escape \<Rightarrow> bool" where
  "escaping ser tx rs es \<longleftrightarrow>
     es_state es = state_of rs \<and>
     (rs = [] \<and> buffered ser tx 499 es \<or>
      rs \<in> set utf8_pending \<and> buffered ser tx (503 - length rs) es \<and>
      least_codepoint rs \<le> unat (es_codepoint es) \<and> unat (es_codepoint es) < 2 ^ (6 * (4 - length rs)))"

lemma escape_char_high: "(0x80 :: int) \<le> of_char c \<Longrightarrow> escape_char c = [c]"
  by (auto simp: escape_char_def of_char_int)

lemma buffered_update [simp]:
  "buffered ser tx n (es\<lparr>es_state := st, es_codepoint := cp\<rparr>) = buffered ser tx n es"
  "buffered ser tx n (es\<lparr>es_undumped := u\<rparr>) = buffered ser tx n es"
  by (simp_all add: buffered_def)

lemma pending_length: "rs \<in> set utf8_pending \<Longrightarrow> 1 \<le> length rs \<and> length rs \<le> 3"
  by (auto simp: utf8_pending_def)

lemma pending_low: "rs \<in> set utf8_pending \<Longrightarrow> fst (hd rs) \<le> of_char c \<Longrightarrow> (0x80 :: int) \<le> of_char c"
  by (auto simp: utf8_pending_def)

text \<open>A byte that does not complete its character is copied.\<close>

lemma step_incomplete:
  assumes "decode (es_state es) (es_codepoint es) (byte_of (s ! i)) = Inr (state_of rs, cp)" and "rs \<in> set utf8_pending"
    and "buffered ser tx (502 - length rs) es" and "least_codepoint rs \<le> unat cp" "unat cp < 2 ^ (6 * (4 - length rs))"
    and "(0x80 :: int) \<le> of_char (s ! i)"
  shows "\<exists>es'. escape_step False s i es = Inr (i + 1, es') \<and> escaping ser (tx @ escape_char (s ! i)) rs es'"
proof -
  have len: "1 \<le> length rs" "length rs \<le> 3" and st: "2 \<le> state_of rs"
    using pending_length [OF assms(2)] state_of_pending [OF assms(2)] by auto
  obtain es1 where es1: "es_put [s ! i] (es\<lparr>es_state := state_of rs, es_codepoint := cp\<rparr>) = Inr es1"
      "buffered ser (tx @ [s ! i]) (502 - length rs + 1) es1" "es_codepoint es1 = cp" "es_state es1 = state_of rs"
    using buffered_put [of ser tx "502 - length rs" "es\<lparr>es_state := state_of rs, es_codepoint := cp\<rparr>" "[s ! i]"] assms(3) len
    by fastforce
  have "502 - length rs + 1 = 503 - length rs" using len by simp
  then show ?thesis
    using es1 assms st by (auto simp: escape_step_def escaping_def escape_char_high)
qed

lemma step_complete:
  assumes "decode (es_state es) (es_codepoint es) (byte_of (s ! i)) = Inr (0, cp)"
    and "buffered ser tx 502 es" and "codepoint_of (s ! i) cp"
  shows "\<exists>es'. escape_step False s i es = Inr (i + 1, es') \<and> escaping ser (tx @ escape_char (s ! i)) [] es'"
proof -
  let ?es = "es\<lparr>es_state := 0, es_codepoint := cp\<rparr>"
  obtain es' where "accept_codepoint False (s ! i) ?es = Inr es'"
      "buffered ser (tx @ escape_char (s ! i)) 499 es'" "es_state es' = 0"
    using accept_ok [of ser tx 502 ?es "s ! i"] assms(2,3) by auto
  then show ?thesis using assms(1) by (auto simp: escape_step_def escaping_def)
qed

lemma step_reject:
  assumes "decode (es_state es) (es_codepoint es) (byte_of (s ! i)) = Inr (1, cp)" and "error_handler (es_ser es) = EH_strict"
  shows "escape_step False s i es = Inl (Type_error 316)"
  using assms by (simp add: escape_step_def reject_byte_def)

lemma escaping_strict:
  assumes "escaping ser tx rs es" "error_handler ser = EH_strict"
  shows "error_handler (es_ser es) = EH_strict"
proof -
  have "(es_ser es)\<lparr>so := so ser, string_buffer := string_buffer ser\<rparr> = ser"
    using assms(1) by (auto simp: escaping_def buffered_def)
  then show ?thesis
    using assms(2) by (metis serializer.select_convs(5) serializer.surjective serializer.update_convs(1,3))
qed

lemma escaping_step_first:
  assumes esc: "escaping ser tx [] es" and h: "error_handler (es_ser es) = EH_strict"
  shows "case utf8_next [] (s ! i) of
      None \<Rightarrow> escape_step False s i es = Inl (Type_error 316)
    | Some rs' \<Rightarrow> \<exists>es'. escape_step False s i es = Inr (i + 1, es') \<and> escaping ser (tx @ escape_char (s ! i)) rs' es'"
proof -
  let ?c = "s ! i"
  have st: "es_state es = 0" using esc by (simp add: escaping_def)
  have b: "buffered ser tx 499 es" using esc by (auto simp: escaping_def utf8_pending_def)
  consider (ascii) "of_char ?c < (0x80 :: int)" | (bad) "(0x80 :: int) \<le> of_char ?c" "utf8_ranges (of_char ?c) = []"
    | (lead) "(0x80 :: int) \<le> of_char ?c" "utf8_ranges (of_char ?c) \<noteq> []" by linarith
  then show ?thesis
  proof cases
    case ascii
    then have "codepoint_of ?c (word_of_nat (of_char ?c))"
      by (simp add: codepoint_of_def of_char_int unat_of_nat)
    then show ?thesis
      using step_complete [of es s i] decode_ascii [OF ascii] st ascii buffered_mono [OF b] by simp
  next
    case bad
    then show ?thesis using decode_invalid [OF bad, of "es_codepoint es"] step_reject [OF _ h] st by auto
  next
    case lead
    let ?rs = "utf8_ranges (of_char ?c)"
    obtain cp where cp: "decode 0 (es_codepoint es) (byte_of ?c) = Inr (state_of ?rs, cp)" "?rs \<in> set utf8_pending"
        "least_codepoint ?rs \<le> unat cp" "unat cp < 64"
      using decode_first [OF lead(2)] by blast
    have "499 \<le> 502 - length ?rs" using pending_length [OF cp(2)] by linarith
    moreover have "(64 :: nat) \<le> 2 ^ (6 * (4 - length ?rs))"
    proof -
      have "6 \<le> 6 * (4 - length ?rs)" using pending_length [OF cp(2)] by linarith
      from power_increasing [OF this, of "2 :: nat"] show ?thesis by simp
    qed
    ultimately show ?thesis
      using step_incomplete [of es s i ?rs cp ser tx] cp st lead buffered_mono [OF b] by simp
  qed
qed

lemma escaping_step_next:
  assumes esc: "escaping ser tx (x # rs') es" and h: "error_handler (es_ser es) = EH_strict"
  shows "case utf8_next (x # rs') (s ! i) of
      None \<Rightarrow> escape_step False s i es = Inl (Type_error 316)
    | Some rs' \<Rightarrow> \<exists>es'. escape_step False s i es = Inr (i + 1, es') \<and> escaping ser (tx @ escape_char (s ! i)) rs' es'"
proof -
  let ?c = "s ! i"
  define rs where "rs = x # rs'"
  note Cons = rs_def
  have st: "es_state es = state_of rs" using esc by (simp add: escaping_def rs_def)
  have p: "rs \<in> set utf8_pending" "least_codepoint rs \<le> unat (es_codepoint es)"
      "unat (es_codepoint es) < 2 ^ (6 * (4 - length rs))" and b: "buffered ser tx (503 - length rs) es"
    using esc Cons by (auto simp: escaping_def)
  have "(2 :: nat) ^ (6 * (4 - length rs)) \<le> 2 ^ 18"
    using pending_length [OF p(1)] by (intro power_increasing) auto
  then have small: "unat (es_codepoint es) < 2 ^ 26" using p(3) by simp
  obtain cp where cp: "decode (state_of rs) (es_codepoint es) (byte_of ?c) =
        Inr (if fst (hd rs) \<le> of_char ?c \<and> of_char ?c \<le> snd (hd rs) then state_of (tl rs) else 1, cp)"
      "unat cp = 64 * unat (es_codepoint es) + of_char ?c mod 64"
      "fst (hd rs) \<le> of_char ?c \<and> of_char ?c \<le> snd (hd rs) \<longrightarrow> least_codepoint (tl rs) \<le> unat cp"
    using decode_next [OF p(1) small p(2)] by blast
  show ?thesis
  proof (cases "fst x \<le> of_char ?c \<and> of_char ?c \<le> snd x")
    case False
    then show ?thesis using cp(1) step_reject [OF _ h] st Cons by auto
  next
    case True
    have hi: "(0x80 :: int) \<le> of_char ?c" using pending_low [OF p(1)] True Cons by simp
    have d: "decode (es_state es) (es_codepoint es) (byte_of ?c) = Inr (state_of rs', cp)" "least_codepoint rs' \<le> unat cp"
      using cp True st Cons by auto
    consider "rs' = []" | "rs' \<in> set utf8_pending" using utf8_pending_tl [OF p(1)] Cons by auto
    then show ?thesis
    proof cases
      case 1
      then have "codepoint_of ?c cp" using d(2) hi by (simp add: codepoint_of_def least_codepoint_def of_char_int)
      then show ?thesis using step_complete [of es s i cp ser tx] d(1) 1 b Cons True by simp
    next
      case 2
      have "unat cp < 64 * 2 ^ (6 * (4 - length rs))"
      proof -
        have "of_char ?c mod 64 < (64 :: nat)" by simp
        then show ?thesis using cp(2) p(3) by linarith
      qed
      also have "64 * 2 ^ (6 * (4 - length rs)) = (2 :: nat) ^ (6 + 6 * (4 - length rs))" by (simp add: power_add)
      also have "6 + 6 * (4 - length rs) = 6 * (4 - length rs')" using pending_length [OF p(1)] Cons by simp
      finally show ?thesis using step_incomplete [OF d(1) 2, of ser tx] d(2) b hi Cons True by simp
    qed
  qed
qed

lemma escaping_step:
  assumes "escaping ser tx rs es" and "error_handler ser = EH_strict"
  shows "case utf8_next rs (s ! i) of
      None \<Rightarrow> escape_step False s i es = Inl (Type_error 316)
    | Some rs' \<Rightarrow> \<exists>es'. escape_step False s i es = Inr (i + 1, es') \<and> escaping ser (tx @ escape_char (s ! i)) rs' es'"
  using escaping_step_first escaping_step_next escaping_strict [OF assms] assms(1) by (cases rs) blast+

lemma escaping_finish:
  assumes "escaping ser tx rs es" and "error_handler ser = EH_strict"
  shows "if rs = []
    then \<exists>buf. finish_escape False es = Inr (ser\<lparr>so := so ser @ tx, string_buffer := buf\<rparr>) \<and> length buf = 512
    else finish_escape False es = Inl (Type_error 316)"
proof (cases "rs = []")
  case True
  then have b: "buffered ser tx 499 es" and st: "es_state es = 0"
    using assms by (auto simp: escaping_def utf8_pending_def)
  have ser: "ser\<lparr>so := so ser @ tx, string_buffer := string_buffer (es_ser es)\<rparr> = (es_ser es)\<lparr>so := so ser @ tx\<rparr>"
  proof -
    have "(es_ser es)\<lparr>so := so ser, string_buffer := string_buffer ser\<rparr> = ser" using b by (simp add: buffered_def)
    from arg_cong [OF this, of "\<lambda>x. x\<lparr>so := so ser @ tx, string_buffer := string_buffer (es_ser es)\<rparr>"]
    show ?thesis by (cases "es_ser es") simp
  qed
  have eq: "so (es_ser es) @ take (es_bytes es) (string_buffer (es_ser es)) = so ser @ tx" using b by (simp add: buffered_def)
  have "finish_escape False es = Inr ((es_ser es)\<lparr>so := so ser @ tx\<rparr>)"
  proof (cases "es_bytes es = 0")
    case True
    then have o: "so ser @ tx = so (es_ser es)" using eq by simp
    show ?thesis unfolding o using True st by (simp add: finish_escape_def Let_def)
  next
    case False
    have "es_bytes es \<le> length (string_buffer (es_ser es))" using b by (simp add: buffered_def)
    then show ?thesis
      unfolding eq [symmetric] using False st by (simp add: finish_escape_def Let_def write_buffer_def write_characters_def)
  qed
  then show ?thesis using ser b True by (metis buffered_def)
next
  case False
  then have "es_state es \<noteq> 0" using assms(1) state_of_pending [of rs] by (auto simp: escaping_def)
  then show ?thesis using False escaping_strict [OF assms] by (simp add: finish_escape_def)
qed

lemma escape_loop_text:
  assumes "escaping ser tx rs es" and "error_handler ser = EH_strict" and "i \<le> length s"
  shows "if utf8_from rs (drop i s)
    then \<exists>buf. ebind (escape_loop False s i es) (finish_escape False) =
        Inr (ser\<lparr>so := so ser @ tx @ escape_text (drop i s), string_buffer := buf\<rparr>) \<and> length buf = 512
    else ebind (escape_loop False s i es) (finish_escape False) = Inl (Type_error 316)"
  using assms(1,3)
proof (induction "length s - i" arbitrary: i tx rs es)
  case 0
  then have "escape_loop False s i es = Inr es" "drop i s = []" by (simp_all add: escape_loop.simps)
  then show ?case using escaping_finish [OF 0(2) assms(2)] by (cases rs) auto
next
  case (Suc n)
  then have i: "i < length s" by simp
  then have d: "drop i s = s ! i # drop (Suc i) s" by (simp add: Cons_nth_drop_Suc)
  have loop: "escape_loop False s i es = ebind (escape_step False s i es) (\<lambda>(i, es). escape_loop False s i es)"
    using i by (subst escape_loop.simps) simp
  note step = escaping_step [OF Suc.prems(1) assms(2), of s i]
  show ?case
  proof (cases "utf8_next rs (s ! i)")
    case None
    then show ?thesis using step loop d by (simp add: utf8_from_next)
  next
    case (Some rs')
    then obtain es' where es': "escape_step False s i es = Inr (i + 1, es')" "escaping ser (tx @ escape_char (s ! i)) rs' es'"
      using step by auto
    have "n = length s - (i + 1)" "i + 1 \<le> length s" using Suc.hyps(2) i by simp_all
    from Suc.hyps(1) [OF this(1) es'(2) this(2)] show ?thesis
      using es'(1) loop d Some by (auto simp: utf8_from_next split: if_splits)
  qed
qed

lemma dump_escaped_text:
  assumes "length (string_buffer ser) = 512" and "error_handler ser = EH_strict"
  shows "if utf8_ok s
    then \<exists>buf. dump_escaped False s ser = Inr (ser\<lparr>so := so ser @ escape_text s, string_buffer := buf\<rparr>) \<and> length buf = 512
    else dump_escaped False s ser = Inl (Type_error 316)"
  using escape_loop_text [of ser "[]" "[]"
      "\<lparr>es_ser = ser, es_codepoint = 0, es_state = 0, es_bytes = 0, es_after_accept = 0, es_undumped = 0\<rparr>" 0 s] assms
  by (auto simp: dump_escaped_def escaping_def buffered_def utf8_from_ok split: if_splits)

end
