(* ===== verification/Double_Rounding.thy ===== *)
theory Double_Rounding
  imports Complex_Main C_Numbers
begin

text \<open>
  Correctness of the rounding in \<open>strtod\<close>: a ratio that lies strictly between the midpoints to the
  neighbours of a positive double is converted to that double.
\<close>

section \<open>Logarithms\<close>

lemma bit_length_bounds: "0 < n \<Longrightarrow> 2 ^ (bit_length n - 1) \<le> n \<and> n < 2 ^ bit_length n \<and> 0 < bit_length n"
proof (induction n rule: bit_length.induct)
  case (1 n)
  show ?case
  proof (cases "n = 1")
    case True
    have "bit_length 1 = 1" by (subst bit_length.simps, subst bit_length.simps) simp
    then show ?thesis using True by simp
  next
    case False
    then have "0 < n div 2" using 1(2) by simp
    note IH = 1(1) [OF _ this]
    have b: "bit_length n = Suc (bit_length (n div 2))" using 1(2) by (simp add: bit_length.simps [of n])
    obtain k where k: "bit_length (n div 2) = Suc k" using IH 1(2) by (cases "bit_length (n div 2)") auto
    have "2 ^ k \<le> n div 2" "n div 2 < 2 ^ Suc k" using IH 1(2) k by auto
    then show ?thesis using b k by auto
  qed
qed

lemma ratio_le_pow2_iff:
  assumes "0 < q"
  shows "ratio_le_pow2 p q k \<longleftrightarrow> 2 powi k \<le> real p / real q"
proof (cases "0 \<le> k")
  case True
  then have k: "2 powi k = (2 :: real) ^ nat k" by (simp add: power_int_def)
  have "2 powi k \<le> real p / real q \<longleftrightarrow> 2 ^ nat k * real q \<le> real p"
    unfolding k using assms by (subst pos_le_divide_eq) simp_all
  also have "\<dots> \<longleftrightarrow> real (q * 2 ^ nat k) \<le> real p" by (simp add: mult.commute)
  also have "\<dots> \<longleftrightarrow> q * 2 ^ nat k \<le> p" by (rule of_nat_le_iff)
  finally show ?thesis using True by (simp add: ratio_le_pow2_def)
next
  case False
  then have "k = - int (nat (- k))" by simp
  then have "2 powi k = (2 :: real) powi - int (nat (- k))" by (rule arg_cong)
  then have k: "2 powi k = 1 / (2 :: real) ^ nat (- k)" unfolding power_int_minus power_int_of_nat inverse_eq_divide .
  have "2 powi k \<le> real p / real q \<longleftrightarrow> real q \<le> real p * 2 ^ nat (- k)"
    unfolding k using assms by (subst pos_le_divide_eq, simp, subst times_divide_eq_left, subst pos_divide_le_eq) (simp_all add: mult.commute)
  also have "\<dots> \<longleftrightarrow> real q \<le> real (p * 2 ^ nat (- k))" by simp
  also have "\<dots> \<longleftrightarrow> q \<le> p * 2 ^ nat (- k)" by (rule of_nat_le_iff)
  finally show ?thesis using False by (simp add: ratio_le_pow2_def)
qed

lemma real_bit_length: "0 < n \<Longrightarrow> 2 powi (int (bit_length n) - 1) \<le> real n \<and> real n < 2 powi int (bit_length n)"
proof -
  assume "0 < n"
  note b = bit_length_bounds [OF this]
  have "real (2 ^ (bit_length n - 1)) \<le> real n" "real n < real (2 ^ bit_length n)"
    unfolding of_nat_le_iff of_nat_less_iff using b by blast+
  moreover have "int (bit_length n) - 1 = int (bit_length n - 1)" using b by simp
  ultimately show ?thesis by (simp only: power_int_of_nat of_nat_power of_nat_numeral)
qed

lemma floor_log2_bounds:
  assumes "0 < p" "0 < q"
  shows "2 powi floor_log2 p q \<le> real p / real q \<and> real p / real q < 2 powi (floor_log2 p q + 1)"
proof -
  let ?k = "int (bit_length p) - int (bit_length q)"
  note p = real_bit_length [OF assms(1)] and q = real_bit_length [OF assms(2)]
  have "real p / real q < 2 powi int (bit_length p) / 2 powi (int (bit_length q) - 1)"
    using p q by (intro frac_less) auto
  also have "\<dots> = 2 powi (int (bit_length p) - (int (bit_length q) - 1))" by (rule power_int_diff [symmetric]) simp
  also have "int (bit_length p) - (int (bit_length q) - 1) = ?k + 1" by simp
  finally have up: "real p / real q < 2 powi (?k + 1)" .
  have "2 powi (?k - 1) = (2 :: real) powi (int (bit_length p) - 1 - int (bit_length q))" by (rule arg_cong [of _ _ "(powi) 2"]) simp
  also have "\<dots> = 2 powi (int (bit_length p) - 1) / (2 :: real) powi int (bit_length q)" by (rule power_int_diff) simp
  also have "\<dots> \<le> real p / real q" using p q assms by (intro frac_le) auto
  finally have low: "2 powi (?k - 1) \<le> real p / real q" .
  show ?thesis
    using up low by (auto simp: floor_log2_def Let_def ratio_le_pow2_iff [OF assms(2)])
qed

lemma floor_log2_le:
  assumes "0 < p" "0 < q"
  shows "k \<le> floor_log2 p q \<longleftrightarrow> 2 powi k \<le> real p / real q"
proof -
  note b = floor_log2_bounds [OF assms]
  show ?thesis
  proof
    assume "k \<le> floor_log2 p q"
    then have "2 powi k \<le> (2 :: real) powi floor_log2 p q" by (rule power_int_increasing) simp
    then show "2 powi k \<le> real p / real q" using b by linarith
  next
    assume "2 powi k \<le> real p / real q"
    then have "(2 :: real) powi k < 2 powi (floor_log2 p q + 1)" using b by linarith
    then show "k \<le> floor_log2 p q" by (metis linorder_not_less power_int_increasing zle_add1_eq_le one_le_numeral)
  qed
qed

section \<open>Rounding\<close>

lemma round_half_even_near:
  assumes "0 < d" "real m - 1 / 2 < real n / real d" "real n / real d < real m + 1 / 2"
  shows "round_half_even n d = m"
proof -
  have l: "2 * int m * int d - int d < 2 * int n" and u: "2 * int n < 2 * int m * int d + int d"
  proof -
    have "(2 * real m - 1) * real d < 2 * real n" using assms(1,2) by (simp add: field_simps)
    then have "real_of_int (2 * int m * int d - int d) < real_of_int (2 * int n)" by (simp add: algebra_simps)
    then show "2 * int m * int d - int d < 2 * int n" by linarith
    have "2 * real n < (2 * real m + 1) * real d" using assms(1,3) by (simp add: field_simps)
    then have "real_of_int (2 * int n) < real_of_int (2 * int m * int d + int d)" by (simp add: algebra_simps)
    then show "2 * int n < 2 * int m * int d + int d" by linarith
  qed
  define k r where "k = n div d" and "r = n mod d"
  have n: "int n = int k * int d + int r" "r < d" using assms(1) by (simp_all add: k_def r_def flip: of_nat_mult of_nat_add)
  have "int k < int m + 1"
  proof (rule ccontr)
    assume "\<not> ?thesis"
    then have "(int m + 1) * int d \<le> int k * int d" by (intro mult_right_mono) auto
    then show False using u n by (simp add: algebra_simps)
  qed
  moreover have "int m \<le> int k + 1"
  proof (rule ccontr)
    assume "\<not> ?thesis"
    then have "(int k + 2) * int d \<le> int m * int d" by (intro mult_right_mono) auto
    then show False using l n by (simp add: algebra_simps)
  qed
  ultimately consider "m = k" | "m = k + 1" by linarith
  then show ?thesis
  proof cases
    case 1
    then have "2 * r < d" using u n by (simp add: algebra_simps)
    then show ?thesis using 1 by (simp add: round_half_even_def Let_def flip: k_def r_def)
  next
    case 2
    then have "d < 2 * r" using l n by (simp add: algebra_simps)
    then show ?thesis using 2 by (simp add: round_half_even_def Let_def flip: k_def r_def)
  qed
qed


lemma round_scaled:
  assumes "0 < q" "real k - 1 / 2 < real p / real q / 2 powi e" "real p / real q / 2 powi e < real k + 1 / 2"
  shows "(if 0 \<le> e then round_half_even p (q * 2 ^ nat e) else round_half_even (p * 2 ^ nat (- e)) q) = k"
proof (cases "0 \<le> e")
  case True
  then have e: "2 powi e = (2 :: real) ^ nat e" by (simp add: power_int_def)
  have "real p / real q / 2 powi e = real p / real (q * 2 ^ nat e)" unfolding e by simp
  then have "round_half_even p (q * 2 ^ nat e) = k" using assms by (intro round_half_even_near) (simp, metis, metis)
  then show ?thesis using True by simp
next
  case False
  then have "e = - int (nat (- e))" by simp
  then have "2 powi e = (2 :: real) powi - int (nat (- e))" by (rule arg_cong)
  then have e: "2 powi e = inverse ((2 :: real) ^ nat (- e))" unfolding power_int_minus power_int_of_nat .
  have "real p / real q / 2 powi e = real (p * 2 ^ nat (- e)) / real q" unfolding e by (simp add: field_simps)
  then have "round_half_even (p * 2 ^ nat (- e)) q = k" using assms by (intro round_half_even_near) simp_all
  then show ?thesis using False by simp
qed

definition double_value :: "nat \<Rightarrow> int \<Rightarrow> nat" where
  "double_value f e = nat (e + 1074) * 2 ^ 52 + f"

lemma double_of_ratio_unit:
  assumes "0 < p" "0 < q" and u: "max (- 1074) (floor_log2 p q - 52) = u"
    and k: "real k - 1 / 2 < real p / real q / 2 powi u" "real p / real q / 2 powi u < real k + 1 / 2"
  shows "double_of_ratio p q = min (0x7FF * 2 ^ 52) (nat (u + 1074) * 2 ^ 52 + k)"
  using assms(1) u round_scaled [OF assms(2) k] by (simp add: double_of_ratio_def Let_def)

lemma double_value_finite:
  assumes "f < 2 ^ 53" "e \<le> 971"
  shows "double_value f e < 0x7FF * 2 ^ 52"
proof -
  have "nat (e + 1074) \<le> 2045" using assms(2) by simp
  then have "nat (e + 1074) * 2 ^ 52 \<le> 2045 * 2 ^ 52" by (rule mult_right_mono) simp
  then show ?thesis using assms(1) by (simp add: double_value_def)
qed

lemma double_of_ratio_near:
  assumes "0 < p" "0 < q" and f: "f < 2 ^ 53" "0 < f" and e: "- 1074 \<le> e" "e \<le> 971" "2 ^ 52 \<le> f \<or> e = - 1074"
    and up: "real p / real q < (real f + 1 / 2) * 2 powi e"
    and low: "(real f - (if f = 2 ^ 52 \<and> - 1074 < e then 1 / 4 else 1 / 2)) * 2 powi e < real p / real q"
  shows "double_of_ratio p q = double_value f e"
proof -
  let ?x = "real p / real q" and ?g = "if f = 2 ^ 52 \<and> - 1074 < e then 1 / 4 else 1 / 2 :: real"
  define y where "y = ?x / 2 powi e"
  have x: "?x = y * 2 powi e" by (simp add: y_def)
  have pos: "(0 :: real) < 2 powi e" by simp
  have y: "real f - ?g < y" "y < real f + 1 / 2" using low up unfolding x mult_less_cancel_right_pos [OF pos] by simp_all
  have scale: "2 powi (e + i) \<le> ?x \<longleftrightarrow> 2 powi i \<le> y" for i
  proof -
    have "2 powi (e + i) = 2 powi i * (2 :: real) powi e" by (simp add: power_int_add mult.commute)
    then show ?thesis unfolding x by (simp only: mult_le_cancel_right_pos [OF pos])
  qed
  note log = floor_log2_le [OF assms(1,2)]
  have "\<not> 2 powi 53 \<le> y"
  proof -
    have "real f + 1 \<le> 2 ^ 53" using f(1) by (metis Suc_eq_plus1 Suc_leI of_nat_1 of_nat_add of_nat_le_iff of_nat_numeral of_nat_power)
    then show ?thesis using y(2) by simp
  qed
  then have hi: "floor_log2 p q - 52 \<le> e" using log [of "e + 53"] scale [of 53] by linarith
  show ?thesis
  proof (cases "2 ^ 52 \<le> y \<or> e = - 1074")
    case True
    then have "max (- 1074) (floor_log2 p q - 52) = e"
      using hi e(1) log [of "e + 52"] scale [of 52] by auto
    moreover have "real f - 1 / 2 < y" using y(1) by (auto split: if_splits)
    ultimately have "double_of_ratio p q = min (0x7FF * 2 ^ 52) (nat (e + 1074) * 2 ^ 52 + f)"
      using double_of_ratio_unit [OF assms(1,2), of e f] y(2) by (simp add: y_def)
    then show ?thesis using double_value_finite [OF f(1) e(2)] by (simp add: double_value_def)
  next
    case False
    then have f52: "2 ^ 52 \<le> f" and ylt: "y < 2 ^ 52" using e(3) by auto
    have "f = 2 ^ 52"
    proof (rule ccontr)
      assume "f \<noteq> 2 ^ 52"
      then have "2 ^ 52 + 1 \<le> f" using f52 by linarith
      then have "real (2 ^ 52 + 1) \<le> real f" by (rule of_nat_mono)
      then show False using y(1) ylt by (simp split: if_splits)
    qed
    then have g: "?g = 1 / 4" and ff: "real f = 2 ^ 52" using False e(1) by auto
    have ylow: "2 ^ 52 - 1 / 4 < y" using y(1) unfolding g ff by simp
    then have "2 powi 51 \<le> y" by simp
    then have "e + 51 \<le> floor_log2 p q" using log [of "e + 51"] scale [of 51] by simp
    moreover have "\<not> e + 52 \<le> floor_log2 p q" using ylt log [of "e + 52"] scale [of 52] by simp
    ultimately have u: "max (- 1074) (floor_log2 p q - 52) = e - 1" using False e(1) by linarith
    have "?x / 2 powi (e - 1) = 2 * y" unfolding y_def by (simp add: power_int_diff)
    then have "double_of_ratio p q = min (0x7FF * 2 ^ 52) (nat (e - 1 + 1074) * 2 ^ 52 + 2 ^ 53)"
      using ylow ylt by (intro double_of_ratio_unit [OF assms(1,2) u]) simp_all
    moreover have "nat (e - 1 + 1074) * 2 ^ 52 + 2 ^ 53 = double_value f e"
    proof -
      have "nat (e + 1074) = Suc (nat (e - 1 + 1074))" using False e(1) by linarith
      then show ?thesis using \<open>f = 2 ^ 52\<close> by (simp add: double_value_def)
    qed
    ultimately show ?thesis using double_value_finite [OF f(1) e(2)] by simp
  qed
qed

end
