(* ===== verification/Grisu_Scaling.thy ===== *)
theory Grisu_Scaling
  imports Float_Format Double_Rounding
begin

text \<open>
  The arithmetic of Grisu2 (\<^verbatim>\<open>dtoa_impl\<close> in \<^verbatim>\<open>json.hpp\<close>) on numbers: multiplication rounds to nearest, the boundaries
  of a double are scaled to a common exponent, the table of powers of ten is accurate, and the scaled
  boundaries are safe.
\<close>

section \<open>Multiplication\<close>

text \<open>The product of two 64-bit numbers from the products of their halves.\<close>

lemma product_halves:
  fixes a b c d :: nat
  defines "q \<equiv> (b * d) div 2 ^ 32 + (b * c) mod 2 ^ 32 + (a * d) mod 2 ^ 32 + 2 ^ 31"
  shows "((a * 2 ^ 32 + b) * (c * 2 ^ 32 + d) + 2 ^ 63) div 2 ^ 64 =
    a * c + (a * d) div 2 ^ 32 + (b * c) div 2 ^ 32 + q div 2 ^ 32"
proof -
  define p0 p1 p2 where "p0 = b * d" and "p1 = b * c" and "p2 = a * d"
  have "(a * 2 ^ 32 + b) * (c * 2 ^ 32 + d) + 2 ^ 63 = a * c * 2 ^ 64 + (p1 + p2) * 2 ^ 32 + p0 + 2 ^ 63"
    by (simp add: p0_def p1_def p2_def algebra_simps)
  also have "\<dots> = (a * c + p2 div 2 ^ 32 + p1 div 2 ^ 32) * 2 ^ 64 + (q * 2 ^ 32 + p0 mod 2 ^ 32)"
  proof -
    have m: "p0 = (p0 div 2 ^ 32) * 2 ^ 32 + p0 mod 2 ^ 32" "p1 = (p1 div 2 ^ 32) * 2 ^ 32 + p1 mod 2 ^ 32"
      "p2 = (p2 div 2 ^ 32) * 2 ^ 32 + p2 mod 2 ^ 32" by simp_all
    have q: "q = p0 div 2 ^ 32 + p1 mod 2 ^ 32 + p2 mod 2 ^ 32 + 2 ^ 31" by (simp add: q_def p0_def p1_def p2_def)
    define k0 k1 k2 r0 r1 r2 where "k0 = p0 div 2 ^ 32" and "k1 = p1 div 2 ^ 32" and "k2 = p2 div 2 ^ 32"
      and "r0 = p0 mod 2 ^ 32" and "r1 = p1 mod 2 ^ 32" and "r2 = p2 mod 2 ^ 32"
    note m' = m [folded k0_def k1_def k2_def r0_def r1_def r2_def] and q' = q [folded k0_def k1_def k2_def r0_def r1_def r2_def]
    show ?thesis unfolding q' k0_def [symmetric] k1_def [symmetric] k2_def [symmetric] r0_def [symmetric]
      by (subst m'(1), subst m'(2), subst m'(3)) (simp add: algebra_simps)
  qed
  finally have eq: "(a * 2 ^ 32 + b) * (c * 2 ^ 32 + d) + 2 ^ 63 =
      (a * c + p2 div 2 ^ 32 + p1 div 2 ^ 32) * 2 ^ 64 + (q * 2 ^ 32 + p0 mod 2 ^ 32)" .
  have "((a * 2 ^ 32 + b) * (c * 2 ^ 32 + d) + 2 ^ 63) div 2 ^ 64 =
      a * c + p2 div 2 ^ 32 + p1 div 2 ^ 32 + (q * 2 ^ 32 + p0 mod 2 ^ 32) div 2 ^ 64"
    unfolding eq by (rule div_mult_self3) simp
  also have "(q * 2 ^ 32 + p0 mod 2 ^ 32) div 2 ^ 64 = q div 2 ^ 32"
  proof -
    have "(q * 2 ^ 32 + p0 mod 2 ^ 32) div (2 ^ 32 * 2 ^ 32) = (q * 2 ^ 32 + p0 mod 2 ^ 32) div 2 ^ 32 div 2 ^ 32"
      by (rule div_mult2_eq)
    then show ?thesis by simp
  qed
  finally show ?thesis by (simp add: p1_def p2_def)
qed

lemma unat_low_half: "unat (x AND 0xFFFFFFFF :: u64) = unat x mod 2 ^ 32"
proof -
  have m: "(0xFFFFFFFF :: u64) = mask 32" by (simp add: mask_eq_exp_minus_1)
  show ?thesis unfolding m take_bit_eq_mask [symmetric] unsigned_take_bit_eq by (simp add: take_bit_eq_mod)
qed

lemma unat_high_half: "unat (drop_bit 32 x :: u64) = unat x div 2 ^ 32"
  by (simp add: unat_div drop_bit_eq_div)

lemma unat_less_64: "unat (x :: u64) < 2 ^ 64"
  using unsigned_less [of x] by simp

lemma unat_mult_small: "unat (x :: u64) * unat y < 2 ^ 64 \<Longrightarrow> unat (x * y) = unat x * unat y"
  by (simp add: unat_mult_lem [THEN iffD1])

lemma unat_add_small: "unat (x :: u64) + unat y < 2 ^ 64 \<Longrightarrow> unat (x + y) = unat x + unat y"
  by (simp add: unat_add_lem [THEN iffD1])

text \<open>\<open>diyfp::mul\<close> is the product divided by \<open>2\<^sup>6\<^sup>4\<close>, rounded to nearest.\<close>

lemma diyfp_mul_rounds:
  "unat (df (diyfp_mul x y)) = (unat (df x) * unat (df y) + 2 ^ 63) div 2 ^ 64 \<and> de (diyfp_mul x y) = de x + de y + 64"
proof -
  define a b c d where "a = unat (df x) div 2 ^ 32" and "b = unat (df x) mod 2 ^ 32"
    and "c = unat (df y) div 2 ^ 32" and "d = unat (df y) mod 2 ^ 32"
  have x: "unat (df x) = a * 2 ^ 32 + b" and y: "unat (df y) = c * 2 ^ 32 + d" by (simp_all add: a_def b_def c_def d_def)
  have le: "a \<le> 2 ^ 32 - 1" "b \<le> 2 ^ 32 - 1" "c \<le> 2 ^ 32 - 1" "d \<le> 2 ^ 32 - 1"
    using unat_less_64 [of "df x"] unat_less_64 [of "df y"] by (auto simp: a_def b_def c_def d_def)
  have prod: "u * v \<le> (2 ^ 32 - 1) * (2 ^ 32 - 1)" if "u \<le> 2 ^ 32 - 1" "v \<le> 2 ^ 32 - 1" for u v :: nat
    by (rule mult_le_mono [OF that])
  let ?ul = "df x AND 0xFFFFFFFF" and ?uh = "drop_bit 32 (df x)" and ?vl = "df y AND 0xFFFFFFFF" and ?vh = "drop_bit 32 (df y)"
  have u: "unat ?ul = b" "unat ?uh = a" "unat ?vl = d" "unat ?vh = c"
    by (simp_all only: unat_low_half unat_high_half a_def b_def c_def d_def)
  have p0: "unat (?ul * ?vl) = b * d" and p1: "unat (?ul * ?vh) = b * c" and p2: "unat (?uh * ?vl) = a * d"
    and p3: "unat (?uh * ?vh) = a * c"
    using le prod [of b d] prod [of b c] prod [of a d] prod [of a c] by (auto simp: u unat_mult_small)
  let ?Q = "drop_bit 32 (?ul * ?vl) + (?ul * ?vh AND 0xFFFFFFFF) + (?uh * ?vl AND 0xFFFFFFFF) + push_bit (64 - 32 - 1) 1"
  have one: "unat (push_bit (64 - 32 - 1) 1 :: u64) = 2 ^ 31" by simp
  have parts: "(b * d) div 2 ^ 32 < 2 ^ 32" "(b * c) mod 2 ^ 32 < 2 ^ 32" "(a * d) mod 2 ^ 32 < 2 ^ 32"
    using prod [OF le(2,4)] by (auto simp: less_mult_imp_div_less)
  have Q: "unat ?Q = (b * d) div 2 ^ 32 + (b * c) mod 2 ^ 32 + (a * d) mod 2 ^ 32 + 2 ^ 31"
    using parts by (simp add: unat_add_small p0 p1 p2 unat_low_half unat_high_half one del: push_bit_numeral)
  let ?h = "?uh * ?vh + drop_bit 32 (?uh * ?vl) + drop_bit 32 (?ul * ?vh) + drop_bit 32 ?Q"
  have bound: "(unat (df x) * unat (df y) + 2 ^ 63) div 2 ^ 64 < 2 ^ 64"
  proof -
    have "unat (df x) * unat (df y) \<le> (2 ^ 64 - 1) * (2 ^ 64 - 1)"
      using unat_less_64 [of "df x"] unat_less_64 [of "df y"] by (intro mult_le_mono) auto
    then show ?thesis by (intro less_mult_imp_div_less) simp
  qed
  note eq = product_halves [of a b c d, folded x y]
  have "unat ?h = a * c + (a * d) div 2 ^ 32 + (b * c) div 2 ^ 32 + unat ?Q div 2 ^ 32"
    using bound unfolding eq Q [symmetric]
    by (simp add: unat_add_small p1 p2 p3 unat_high_half)
  then have "unat ?h = (unat (df x) * unat (df y) + 2 ^ 63) div 2 ^ 64" unfolding eq Q .
  then show ?thesis by (simp add: diyfp_mul_def Let_def add.assoc)
qed


section \<open>Normalisation\<close>

lemma unat_of_nat_small: "n < 2 ^ 64 \<Longrightarrow> unat (of_nat n :: u64) = n"
  by (simp add: unat_of_nat)

lemma push_bit_of_nat: "push_bit k (of_nat n :: u64) = of_nat (n * 2 ^ k)"
  by (simp add: push_bit_eq_mult)

lemma normalize_loop_spec:
  assumes "0 < f" "f < 2 ^ 64" "2 ^ 63 \<le> f * 2 ^ n"
  shows "\<exists>s\<le>n. normalize_loop n \<lparr>df = of_nat f, de = e\<rparr> = \<lparr>df = of_nat (f * 2 ^ s), de = e - int s\<rparr> \<and>
    2 ^ 63 \<le> f * 2 ^ s \<and> f * 2 ^ s < 2 ^ 64"
  using assms
proof (induction n arbitrary: f e)
  case (Suc n)
  have top: "drop_bit 63 (of_nat f :: u64) = 0 \<longleftrightarrow> f < 2 ^ 63"
  proof -
    have "unat (drop_bit 63 (of_nat f :: u64)) = f div 2 ^ 63"
      using Suc.prems(2) by (simp add: drop_bit_eq_div unat_div unat_of_nat_small)
    then have "drop_bit 63 (of_nat f :: u64) = 0 \<longleftrightarrow> f div 2 ^ 63 = 0" by (metis unat_eq_zero unsigned_0)
    then show ?thesis by (simp add: div_eq_0_iff)
  qed
  show ?case
  proof (cases "f < 2 ^ 63")
    case True
    have two: "push_bit 1 (of_nat f :: u64) = of_nat (2 * f)" by (simp add: push_bit_of_nat mult.commute)
    obtain s where s: "s \<le> n" "normalize_loop n \<lparr>df = of_nat (2 * f), de = e - 1\<rparr> = \<lparr>df = of_nat (2 * f * 2 ^ s), de = e - 1 - int s\<rparr>"
        "2 ^ 63 \<le> 2 * f * 2 ^ s" "2 * f * 2 ^ s < 2 ^ 64"
      using Suc.IH [of "2 * f" "e - 1"] Suc.prems True by auto
    have f: "2 * f * 2 ^ s = f * 2 ^ Suc s" by simp
    show ?thesis
      using s(1,3,4) s(2) top True two unfolding f
      by (intro exI [of _ "Suc s"]) (simp add: algebra_simps)
  next
    case False
    then show ?thesis using top Suc.prems by (intro exI [of _ 0]) simp
  qed
qed auto

lemma diyfp_normalize_spec:
  assumes "0 < f" "f < 2 ^ 64"
  obtains s where "s \<le> 63" "diyfp_normalize \<lparr>df = of_nat f, de = e\<rparr> = Inr \<lparr>df = of_nat (f * 2 ^ s), de = e - int s\<rparr>"
    "2 ^ 63 \<le> f * 2 ^ s" "f * 2 ^ s < 2 ^ 64"
proof -
  have "2 ^ 63 \<le> f * 2 ^ 63" using assms(1) by simp
  then obtain s where s: "s \<le> 63" "normalize_loop 63 \<lparr>df = of_nat f, de = e\<rparr> = \<lparr>df = of_nat (f * 2 ^ s), de = e - int s\<rparr>"
      "2 ^ 63 \<le> f * 2 ^ s" "f * 2 ^ s < 2 ^ 64"
    using normalize_loop_spec [OF assms] by blast
  have "of_nat f \<noteq> (0 :: u64)" using assms unat_of_nat_small [of f] by auto
  then show thesis using that s by (simp add: diyfp_normalize_def)
qed

lemma normalize_shift_unique:
  fixes f :: nat
  assumes "2 ^ 63 \<le> f * 2 ^ s" "f * 2 ^ s < 2 ^ 64" "2 ^ 63 \<le> f * 2 ^ t" "f * 2 ^ t < 2 ^ 64"
  shows "s = t"
proof -
  have "\<not> a < b" if "2 ^ 63 \<le> f * 2 ^ a" "f * 2 ^ b < 2 ^ 64" for a b
  proof
    assume "a < b"
    then have "f * 2 ^ Suc a \<le> f * 2 ^ b" by (intro mult_le_mono2 power_increasing) auto
    moreover have "2 ^ 64 \<le> f * 2 ^ Suc a" using that(1) by simp
    ultimately show False using that(2) by (meson le_trans linorder_not_less)
  qed
  then show ?thesis using assms by (metis linorder_neqE_nat)
qed

lemma unat_drop_bit: "unat (drop_bit d (w :: u64)) = unat w div 2 ^ d"
  using unat_less_64 [of w] by (simp only: unsigned_drop_bit_eq) (simp add: drop_bit_eq_div take_bit_nat_eq_self)

lemma diyfp_normalize_to_spec:
  assumes "f * 2 ^ d < 2 ^ 64" "e - t = int d"
  shows "diyfp_normalize_to \<lparr>df = of_nat f, de = e\<rparr> t = Inr \<lparr>df = of_nat (f * 2 ^ d), de = t\<rparr>"
proof -
  have f: "f < 2 ^ 64" by (rule le_less_trans [OF _ assms(1)]) simp
  have "unat (drop_bit d (of_nat (f * 2 ^ d)) :: u64) = unat (of_nat f :: u64)"
    unfolding unat_drop_bit unat_of_nat_small [OF assms(1)] unat_of_nat_small [OF f] by simp
  then have "drop_bit d (of_nat (f * 2 ^ d) :: u64) = of_nat f" using unsigned_word_eqI by blast
  then show ?thesis using assms(2) by (simp add: diyfp_normalize_to_def Let_def push_bit_of_nat)
qed


section \<open>Boundaries\<close>

text \<open>
  A positive finite double: significand \<open>f\<close> and exponent \<open>e\<close>, with the pattern \<open>double_value f e\<close>.  The lower neighbour
  is closer at the powers of two above the smallest normal number.
\<close>

definition significand_ok :: "nat \<Rightarrow> int \<Rightarrow> bool" where
  "significand_ok f e \<longleftrightarrow> 0 < f \<and> f < 2 ^ 53 \<and> - 1074 \<le> e \<and> e \<le> 971 \<and> (2 ^ 52 \<le> f \<or> e = - 1074)"

definition lower_closer :: "nat \<Rightarrow> int \<Rightarrow> bool" where
  "lower_closer f e \<longleftrightarrow> f = 2 ^ 52 \<and> - 1074 < e"

definition lower_bound :: "nat \<Rightarrow> int \<Rightarrow> nat \<Rightarrow> nat" where
  "lower_bound f e s = (if lower_closer f e then (4 * f - 1) * 2 ^ (s - 1) else (2 * f - 1) * 2 ^ s)"

lemma unat_low_52: "unat (x AND (0x10000000000000 - 1) :: u64) = unat x mod 2 ^ 52"
proof -
  have m: "(0x10000000000000 - 1 :: u64) = mask 52" by (simp add: mask_eq_exp_minus_1)
  show ?thesis unfolding m take_bit_eq_mask [symmetric] unsigned_take_bit_eq by (simp add: take_bit_eq_mod)
qed

lemma isfinite_positive:
  assumes "isfinite x" "double_positive x"
  shows "unat x div 2 ^ 52 < 0x7FF"
proof -
  have "\<not> bit (unat x) 63" using assms(2) by (simp add: double_positive_def double_negative_def bit_unsigned_iff)
  then have "even (unat x div 2 ^ 63)" by (simp add: bit_iff_odd)
  moreover have "unat x div 2 ^ 63 < 2" using unat_less_64 [of x] by (intro less_mult_imp_div_less) simp
  ultimately have "unat x div 2 ^ 63 = 0" by (metis less_2_cases odd_one One_nat_def)
  then have v: "unat x < 2 ^ 63" by (simp add: div_eq_0_iff)
  have m: "(0x7FF :: u64) = mask 11" by (simp add: mask_eq_exp_minus_1)
  have "double_exponent x = unat x div 2 ^ 52 mod 2 ^ 11"
    unfolding double_exponent_def m take_bit_eq_mask [symmetric] unsigned_take_bit_eq unat_drop_bit by (simp only: take_bit_eq_mod)
  moreover have "unat x div 2 ^ 52 < 2 ^ 11" using v by (intro less_mult_imp_div_less) simp
  ultimately show ?thesis using assms(1) by (simp add: isfinite_def)
qed

lemma double_parts:
  assumes "isfinite x" "double_positive x"
  obtains f e where "significand_ok f e" "unat x = double_value f e"
    "compute_boundaries x =
       (let v = \<lparr>df = of_nat f, de = e\<rparr>;
            m_plus = \<lparr>df = of_nat (2 * f + 1), de = e - 1\<rparr>;
            m_minus = (if lower_closer f e then \<lparr>df = of_nat (4 * f - 1), de = e - 2\<rparr>
                       else \<lparr>df = of_nat (2 * f - 1), de = e - 1\<rparr>)
        in ebind (diyfp_normalize m_plus)
            (\<lambda>w_plus. ebind (diyfp_normalize_to m_minus (de w_plus))
              (\<lambda>w_minus. ebind (diyfp_normalize v)
                (\<lambda>w. Inr \<lparr>b_w = w, b_minus = w_minus, b_plus = w_plus\<rparr>))))"
proof -
  define E F where "E = unat x div 2 ^ 52" and "F = unat x mod 2 ^ 52"
  have E: "E < 0x7FF" using isfinite_positive [OF assms] by (simp add: E_def)
  have EF: "unat x = E * 2 ^ 52 + F" "F < 2 ^ 52" by (simp_all add: E_def F_def)
  have v0: "unat x \<noteq> 0" using assms(2) by (auto simp: double_positive_def unat_eq_zero)
  define f e where "f = (if E = 0 then F else F + 2 ^ 52)" and "e = (if E = 0 then - 1074 else int E - 1075)"
  have ok: "significand_ok f e"
  proof (cases "E = 0")
    case True
    then show ?thesis using EF v0 by (simp add: significand_ok_def f_def e_def)
  next
    case False
    then show ?thesis using E EF(2) by (simp add: significand_ok_def f_def e_def)
  qed
  have val: "unat x = double_value f e"
  proof (cases "E = 0")
    case True
    then show ?thesis using EF by (simp add: double_value_def f_def e_def)
  next
    case False
    then have "nat (int E - 1075 + 1074) = E - 1" "E = Suc (E - 1)" by simp_all
    then have "E * 2 ^ 52 = (E - 1) * 2 ^ 52 + 2 ^ 52" by (metis add.commute mult_Suc)
    then show ?thesis unfolding EF(1) double_value_def f_def e_def using False \<open>nat (int E - 1075 + 1074) = E - 1\<close> by simp
  qed
  have wE: "unat (drop_bit 52 x) = E" by (simp add: unat_drop_bit E_def)
  have "F < 2 ^ 64" using EF(2) by simp
  then have "unat (x AND (0x10000000000000 - 1)) = unat (of_nat F :: u64)" by (simp only: unat_low_52 F_def [symmetric] unat_of_nat_small)
  then have wF: "x AND (0x10000000000000 - 1) = of_nat F" using unsigned_word_eqI by blast
  have E0: "drop_bit 52 x = 0 \<longleftrightarrow> E = 0" using wE by (metis unat_eq_zero unsigned_0)
  have E1: "1 < drop_bit 52 x \<longleftrightarrow> 1 < E" using wE by (simp add: word_less_nat_alt)
  have "F < 2 ^ 64" using EF(2) by simp
  then have F0: "(of_nat F :: u64) = 0 \<longleftrightarrow> F = 0" using unat_of_nat_small [of F] unat_eq_zero [of "of_nat F :: u64"] by simp
  have closer: "lower_closer f e \<longleftrightarrow> F = 0 \<and> 1 < E"
    using EF(2) by (cases "E = 0") (simp_all add: lower_closer_def f_def e_def, linarith?)
  have v: "(if E = 0 then \<lparr>df = of_nat F, de = - 1074\<rparr> else \<lparr>df = of_nat F + 0x10000000000000, de = int E - 1075\<rparr>) =
      \<lparr>df = of_nat f :: u64, de = e\<rparr>" by (simp add: f_def e_def)
  have f1: "1 \<le> f" using ok by (simp add: significand_ok_def)
  then have m: "2 * (of_nat f :: u64) + 1 = of_nat (2 * f + 1)" "4 * (of_nat f :: u64) - 1 = of_nat (4 * f - 1)"
      "2 * (of_nat f :: u64) - 1 = of_nat (2 * f - 1)" by (simp_all add: of_nat_diff)
  show thesis
    by (rule that [OF ok val])
      (use assms in \<open>simp only: compute_boundaries_def Let_def wE wF E0 E1 F0 v closer m json_assert_True ebind_Inr diyfp.simps if_True\<close>)
qed


text \<open>The three numbers with a common exponent.\<close>

lemma shift_bounds:
  assumes "significand_ok f e" "2 ^ 63 \<le> (2 * f + 1) * 2 ^ s" "(2 * f + 1) * 2 ^ s < 2 ^ 64"
  shows "10 \<le> s \<and> s \<le> 62 \<and> 2 ^ 63 \<le> f * 2 ^ (s + 1) \<and> f * 2 ^ (s + 1) < 2 ^ 64"
proof (intro conjI)
  have f: "1 \<le> f" "2 * f + 1 < 2 ^ 54" using assms(1) by (auto simp: significand_ok_def)
  show "10 \<le> s"
  proof (rule ccontr)
    assume "\<not> 10 \<le> s"
    then have "(2 :: nat) ^ s \<le> 2 ^ 9" by (intro power_increasing) auto
    then have "(2 * f + 1) * 2 ^ s \<le> (2 ^ 54 - 1) * 2 ^ 9" using f(2) by (intro mult_le_mono) auto
    then show False using assms(2) by simp
  qed
  show s62: "s \<le> 62"
  proof (rule ccontr)
    assume "\<not> s \<le> 62"
    then have "(2 :: nat) ^ 63 \<le> 2 ^ s" by (intro power_increasing) auto
    then have "3 * 2 ^ 63 \<le> (2 * f + 1) * 2 ^ s" using f(1) by (intro mult_le_mono) auto
    then show False using assms(3) by simp
  qed
  have p: "(2 :: nat) ^ 63 = 2 * 2 ^ (62 - s) * 2 ^ s" using s62 by (simp flip: power_add power_Suc)
  then have "2 * 2 ^ (62 - s) \<le> 2 * f + 1" using assms(2) by (metis mult_le_cancel2 zero_less_numeral zero_less_power)
  then have "2 ^ (62 - s) \<le> f" by linarith
  then have "2 * 2 ^ (62 - s) * 2 ^ s \<le> 2 * f * 2 ^ s" by simp
  then show "2 ^ 63 \<le> f * 2 ^ (s + 1)" unfolding p [symmetric] by (simp add: algebra_simps)
  have "f * 2 ^ (s + 1) \<le> (2 * f + 1) * 2 ^ s" by (simp add: algebra_simps)
  then show "f * 2 ^ (s + 1) < 2 ^ 64" using assms(3) by (rule le_less_trans)
qed

lemma boundaries_spec:
  assumes "isfinite x" "double_positive x"
  obtains f e s where "significand_ok f e" "unat x = double_value f e" "10 \<le> s" "s \<le> 62"
    "2 ^ 63 \<le> f * 2 ^ (s + 1)" "(2 * f + 1) * 2 ^ s < 2 ^ 64"
    "compute_boundaries x = Inr
       \<lparr>b_w = \<lparr>df = of_nat (f * 2 ^ (s + 1)), de = e - 1 - int s\<rparr>,
        b_minus = \<lparr>df = of_nat (lower_bound f e s), de = e - 1 - int s\<rparr>,
        b_plus = \<lparr>df = of_nat ((2 * f + 1) * 2 ^ s), de = e - 1 - int s\<rparr>\<rparr>"
proof -
  obtain f e where fe: "significand_ok f e" "unat x = double_value f e" and cb: "compute_boundaries x =
       (let v = \<lparr>df = of_nat f, de = e\<rparr>;
            m_plus = \<lparr>df = of_nat (2 * f + 1), de = e - 1\<rparr>;
            m_minus = (if lower_closer f e then \<lparr>df = of_nat (4 * f - 1), de = e - 2\<rparr>
                       else \<lparr>df = of_nat (2 * f - 1), de = e - 1\<rparr>)
        in ebind (diyfp_normalize m_plus)
            (\<lambda>w_plus. ebind (diyfp_normalize_to m_minus (de w_plus))
              (\<lambda>w_minus. ebind (diyfp_normalize v)
                (\<lambda>w. Inr \<lparr>b_w = w, b_minus = w_minus, b_plus = w_plus\<rparr>))))"
    by (rule double_parts [OF assms])
  have f: "0 < f" "f < 2 ^ 64" "0 < 2 * f + 1" "2 * f + 1 < 2 ^ 64" using fe(1) by (auto simp: significand_ok_def)
  obtain s where "s \<le> 63" and s: "diyfp_normalize \<lparr>df = of_nat (2 * f + 1), de = e - 1\<rparr> =
        Inr \<lparr>df = of_nat ((2 * f + 1) * 2 ^ s), de = e - 1 - int s\<rparr>"
      "2 ^ 63 \<le> (2 * f + 1) * 2 ^ s" "(2 * f + 1) * 2 ^ s < 2 ^ 64"
    by (rule diyfp_normalize_spec [OF f(3,4), of "e - 1"])
  note sb = shift_bounds [OF fe(1) s(2,3)]
  obtain t where "t \<le> 63" and t: "diyfp_normalize \<lparr>df = of_nat f, de = e\<rparr> = Inr \<lparr>df = of_nat (f * 2 ^ t), de = e - int t\<rparr>"
      "2 ^ 63 \<le> f * 2 ^ t" "f * 2 ^ t < 2 ^ 64"
    by (rule diyfp_normalize_spec [OF f(1,2), of e])
  have ts: "t = s + 1" using normalize_shift_unique [OF t(2,3)] sb by blast
  have minus: "diyfp_normalize_to (if lower_closer f e then \<lparr>df = of_nat (4 * f - 1), de = e - 2\<rparr>
        else \<lparr>df = of_nat (2 * f - 1), de = e - 1\<rparr>) (e - 1 - int s) =
      Inr \<lparr>df = of_nat (lower_bound f e s), de = e - 1 - int s\<rparr>"
  proof (cases "lower_closer f e")
    case True
    have "(4 * f - 1) * 2 ^ (s - 1) \<le> 2 * (2 * f) * 2 ^ (s - 1)" by (intro mult_right_mono) auto
    also have "\<dots> = f * 2 ^ (s + 1)" using sb by (cases s) auto
    finally have "(4 * f - 1) * 2 ^ (s - 1) < 2 ^ 64" using sb by (meson le_less_trans)
    moreover have "e - 2 - (e - 1 - int s) = int (s - 1)" using sb by (simp add: of_nat_diff)
    ultimately show ?thesis using True diyfp_normalize_to_spec by (simp only: lower_bound_def if_True)
  next
    case False
    have "(2 * f - 1) * 2 ^ s \<le> (2 * f + 1) * 2 ^ s" by (intro mult_right_mono) auto
    then have "(2 * f - 1) * 2 ^ s < 2 ^ 64" using s(3) by (rule le_less_trans)
    moreover have "e - 1 - (e - 1 - int s) = int s" by simp
    ultimately show ?thesis using False diyfp_normalize_to_spec by (simp only: lower_bound_def if_False)
  qed
  have e: "e - int (s + 1) = e - 1 - int s" by simp
  show thesis
    by (rule that [OF fe, of s]) (use sb s(3) in \<open>simp_all only: cb Let_def s(1) t(1) ts minus e ebind_Inr diyfp.simps\<close>)
qed

section \<open>Powers of ten\<close>

subsection \<open>The entry for a binary exponent\<close>

definition window_ok :: "nat \<times> cached_power \<Rightarrow> bool" where
  "window_ok = (\<lambda>(i, c, e, k). (e + 34) * 78913 < (8 * int i - 308) * 262144 \<and> (8 * int i - 300) * 262144 < (e + 64) * 78913 \<and>
     2 ^ 63 \<le> uint c)"

lemma windows_ok: "length kCachedPowers = 79 \<and> list_all window_ok (zip [0..<79] kCachedPowers)"
  by code_simp

lemmas kCachedPowers_length = conjunct1 [OF windows_ok]

lemma window_nth:
  assumes "i < 79" "kCachedPowers ! i = (c, e, k)"
  shows "window_ok (i, c, e, k)"
proof -
  have "(i, c, e, k) = zip [0..<79] kCachedPowers ! i" using assms windows_ok by simp
  moreover have "i < length (zip [0..<79] kCachedPowers)" using assms(1) windows_ok by simp
  ultimately show ?thesis using windows_ok by (simp add: list_all_length)
qed

lemma sdiv_262144:
  fixes f :: int
  defines "k \<equiv> (f * 78913) sdiv 262144 + (if 0 < f then 1 else 0)"
  shows "(k - 1) * 262144 \<le> f * 78913 \<and> f * 78913 \<le> k * 262144"
proof (cases "0 < f")
  case True
  then have "(f * 78913) sdiv 262144 = (f * 78913) div 262144" by (simp add: signed_divide_int_def)
  then show ?thesis using True unfolding k_def by (simp add: algebra_simps) linarith
next
  case False
  then have "(f * 78913) sdiv 262144 = - ((- (f * 78913)) div 262144)"
    by (cases "f = 0") (simp_all add: signed_divide_int_def sgn_if)
  then show ?thesis using False unfolding k_def by simp linarith
qed

lemma cached_power_found:
  assumes "- 1137 \<le> e" "e \<le> 960"
  obtains c ce ck where "get_cached_power_for_binary_exponent e = Inr (c, ce, ck)" "(c, ce, ck) \<in> set kCachedPowers"
    "- 60 \<le> ce + e + 64" "ce + e + 64 \<le> - 32" "2 ^ 63 \<le> unat c"
proof -
  define f where "f = - 60 - e - 1"
  define k where "k = (f * 78913) sdiv 262144 + (if 0 < f then 1 else 0)"
  note kf = sdiv_262144 [of f, folded k_def]
  have f: "- 1021 \<le> f" "f \<le> 1076" using assms by (auto simp: f_def)
  have "(k - 1) * 262144 \<le> 1076 * 78913" "- 1021 * 78913 \<le> k * 262144" using kf f by linarith+
  then have k: "- 307 \<le> k" "k \<le> 324" by simp_all
  define i where "i = nat ((300 + k + 7) div 8)"
  have i: "int i = (300 + k + 7) div 8" "i < 79" using k by (auto simp: i_def)
  have sd: "(300 + k + (8 - 1)) sdiv 8 = int i" using k i(1) by (simp add: signed_divide_int_def sgn_if)
  obtain c ce ck where c: "kCachedPowers ! i = (c, ce, ck)" by (metis prod_cases3)
  have w: "(ce + 34) * 78913 < (8 * int i - 308) * 262144" "(8 * int i - 300) * 262144 < (ce + 64) * 78913" "2 ^ 63 \<le> uint c"
    using window_nth [OF i(2) c] by (auto simp: window_ok_def)
  have ik: "8 * int i - 307 \<le> k" "k \<le> 8 * int i - 300" using i(1) by linarith+
  have "(8 * int i - 308) * 262144 \<le> (k - 1) * 262144" "k * 262144 \<le> (8 * int i - 300) * 262144" using ik by auto
  then have "(ce + 34) * 78913 < f * 78913" "f * 78913 < (ce + 64) * 78913" using w kf by linarith+
  then have win: "- 60 \<le> ce + e + 64" "ce + e + 64 \<le> - 32" by (auto simp: f_def)
  have "get_cached_power_for_binary_exponent e = Inr (c, ce, ck)"
    unfolding get_cached_power_for_binary_exponent_def Let_def f_def [symmetric] k_def [symmetric] sd nat_int c
    using assms i(2) win by (simp add: kCachedPowers_length json_assert_def)
  moreover have "(c, ce, ck) \<in> set kCachedPowers" using i(2) kCachedPowers_length c by (metis nth_mem)
  moreover have "2 ^ 63 \<le> unat c" using w(3) by (metis of_nat_le_iff of_nat_numeral of_nat_power uint_nat)
  ultimately show thesis using win that by blast
qed

subsection \<open>Accuracy\<close>

text \<open>
  Each entry is \<open>10\<^sup>k\<close> with an error of at most half a unit.  The entries with positive and with negative exponents are
  compared with running powers.
\<close>

fun accurate_up :: "int \<Rightarrow> int \<Rightarrow> int \<Rightarrow> int \<Rightarrow> cached_power list \<Rightarrow> bool" where
  "accurate_up p q e0 k0 [] = True"
| "accurate_up p q e0 k0 ((c, e, k) # cs) =
     (let q' = q * 2 ^ nat (e - e0)
      in k = k0 \<and> e0 \<le> e \<and> \<bar>2 * uint c * q' - 2 * p * 2 ^ 50\<bar> \<le> q' \<and> accurate_up (p * 100000000) q' e (k0 + 8) cs)"

fun accurate_down :: "int \<Rightarrow> int \<Rightarrow> int \<Rightarrow> int \<Rightarrow> cached_power list \<Rightarrow> bool" where
  "accurate_down p q e0 k0 [] = True"
| "accurate_down p q e0 k0 ((c, e, k) # cs) =
     (let q' = q * 2 ^ nat (e0 - e)
      in k = k0 \<and> e \<le> e0 \<and> \<bar>2 * uint c * p - 2 * q'\<bar> \<le> p \<and> accurate_down (p * 100000000) q' e (k0 - 8) cs)"

lemma accurate_table:
  "accurate_up 10000 1 (- 50) 4 (drop 38 kCachedPowers)"
  "accurate_down 10000 (2 ^ 70) (- 70) (- 4) (rev (take 38 kCachedPowers))"
  by code_simp+


definition accurate :: "cached_power \<Rightarrow> bool" where
  "accurate = (\<lambda>(c, e, k). \<bar>real (unat c) * 2 powi e - 10 powi k\<bar> \<le> 2 powi e / 2)"

lemma real_uint: "real_of_int (uint (c :: u64)) = real (unat c)"
  by (metis of_int_of_nat_eq uint_nat)

lemma powi_step: "e0 \<le> e \<Longrightarrow> (2 :: real) powi e = 2 powi e0 * 2 ^ nat (e - e0)"
  by (metis add_diff_cancel_left' diff_add_cancel int_nat_eq le_iff_diff_le_0 nonneg_int_cases power_int_add power_int_of_nat
      zero_neq_numeral add.commute diff_ge_0_iff_ge)

lemma accurate_up_entries:
  assumes "accurate_up p q e0 k0 cs" "real_of_int p = 10 powi k0" "real_of_int q = 2 powi e0 * 2 ^ 50" "0 < q"
  shows "list_all accurate cs"
  using assms
proof (induction p q e0 k0 cs rule: accurate_up.induct)
  case (2 p q e0 k0 c e k cs)
  define q' where "q' = q * 2 ^ nat (e - e0)"
  have a: "k = k0" "e0 \<le> e" "\<bar>2 * uint c * q' - 2 * p * 2 ^ 50\<bar> \<le> q'" "accurate_up (p * 100000000) q' e (k0 + 8) cs"
    using 2(2) by (simp_all add: Let_def q'_def)
  have q': "real_of_int q' = 2 powi e * 2 ^ 50" unfolding q'_def powi_step [OF a(2)] using 2(4) by simp
  have "real_of_int \<bar>2 * uint c * q' - 2 * p * 2 ^ 50\<bar> \<le> real_of_int q'" unfolding of_int_le_iff by (rule a(3))
  then have "\<bar>2 * real (unat c) * real_of_int q' - 2 * real_of_int p * 2 ^ 50\<bar> \<le> real_of_int q'" by (simp add: real_uint)
  then have "accurate (c, e, k)" unfolding q' 2(3) a(1) [symmetric] accurate_def abs_le_iff case_prod_conv by (simp add: algebra_simps)
  moreover have "real_of_int (p * 100000000) = 10 powi (k0 + 8)" using 2(3) by (simp add: power_int_add)
  moreover have "0 < q'" using 2(5) by (simp add: q'_def)
  ultimately show ?case using 2(1) [OF q'_def a(4)] q' by simp
qed simp

lemma accurate_down_entries:
  assumes "accurate_down p q e0 k0 cs" "real_of_int p = 10 powi - k0" "real_of_int q = 2 powi - e0"
  shows "list_all accurate cs"
  using assms
proof (induction p q e0 k0 cs rule: accurate_down.induct)
  case (2 p q e0 k0 c e k cs)
  define q' where "q' = q * 2 ^ nat (e0 - e)"
  have a: "k = k0" "e \<le> e0" "\<bar>2 * uint c * p - 2 * q'\<bar> \<le> p" "accurate_down (p * 100000000) q' e (k0 - 8) cs"
    using 2(2) by (simp_all add: Let_def q'_def)
  have q': "real_of_int q' = 2 powi - e" using powi_step [of "- e0" "- e"] a(2) 2(4) by (simp add: q'_def)
  have "real_of_int \<bar>2 * uint c * p - 2 * q'\<bar> \<le> real_of_int p" unfolding of_int_le_iff by (rule a(3))
  then have "\<bar>2 * real (unat c) * real_of_int p - 2 * real_of_int q'\<bar> \<le> real_of_int p" by (simp add: real_uint)
  then have b: "\<bar>2 * real (unat c) * inverse (10 powi k) - 2 * inverse (2 powi e)\<bar> \<le> inverse (10 powi k)"
    unfolding q' 2(3) a(1) by (simp add: power_int_minus)
  have "accurate (c, e, k)"
  proof -
    have x: "(0 :: real) < 10 powi k" "(0 :: real) < 2 powi e" by simp_all
    define P Q where "P = (10 :: real) powi k" and "Q = (2 :: real) powi e"
    have PQ: "0 < P" "0 < Q" using x by (simp_all add: P_def Q_def)
    have "\<bar>2 * real (unat c) * inverse P - 2 * inverse Q\<bar> * (P * Q) \<le> inverse P * (P * Q)"
      using b PQ unfolding P_def [symmetric] Q_def [symmetric] by (intro mult_right_mono) auto
    moreover have "\<bar>2 * real (unat c) * inverse P - 2 * inverse Q\<bar> * (P * Q) = \<bar>(2 * real (unat c) * inverse P - 2 * inverse Q) * (P * Q)\<bar>"
      using PQ by (simp add: abs_mult)
    moreover have "(2 * real (unat c) * inverse P - 2 * inverse Q) * (P * Q) = 2 * (real (unat c) * Q - P)"
      using PQ by (simp add: field_simps)
    moreover have "inverse P * (P * Q) = Q" using PQ by simp
    ultimately have "\<bar>2 * (real (unat c) * Q - P)\<bar> \<le> Q" by metis
    then show ?thesis unfolding accurate_def P_def [symmetric] Q_def [symmetric] abs_le_iff case_prod_conv by (simp add: algebra_simps)
  qed
  moreover have "real_of_int (p * 100000000) = 10 powi - (k0 - 8)" using 2(3) power_int_add [of "10 :: real" "- k0" 8] by simp
  ultimately show ?case using 2(1) [OF q'_def a(4)] q' by simp
qed simp

lemma cached_power_accurate: "(c, e, k) \<in> set kCachedPowers \<Longrightarrow> \<bar>real (unat c) * 2 powi e - 10 powi k\<bar> \<le> 2 powi e / 2"
proof -
  assume "(c, e, k) \<in> set kCachedPowers"
  moreover have "list_all accurate (drop 38 kCachedPowers)"
    by (rule accurate_up_entries [OF accurate_table(1)]) (simp_all add: power_int_minus)
  moreover have "list_all accurate (rev (take 38 kCachedPowers))"
    by (rule accurate_down_entries [OF accurate_table(2)]) simp_all
  moreover have "set kCachedPowers = set (take 38 kCachedPowers) \<union> set (drop 38 kCachedPowers)"
    by (metis append_take_drop_id set_append)
  ultimately have "accurate (c, e, k)" by (auto simp: list_all_iff)
  then show ?thesis by (simp add: accurate_def)
qed

section \<open>Safe boundaries\<close>

text \<open>The scale factor \<open>10\<^sup>k / 2\<^bsup>e + 64\<^esup>\<close> that multiplication by a cached power approximates.\<close>

definition scale :: "int \<Rightarrow> int \<Rightarrow> real" where
  "scale ce ck = 10 powi ck / 2 powi (ce + 64)"

lemma scale_pos: "0 < scale ce ck"
  by (simp add: scale_def)

lemma scale_near:
  assumes "\<bar>real c * 2 powi ce - 10 powi ck\<bar> \<le> 2 powi ce / 2"
  shows "\<bar>real c - scale ce ck * 2 ^ 64\<bar> \<le> 1 / 2"
proof -
  have p: "(0 :: real) < 2 powi ce" by simp
  have "scale ce ck * 2 ^ 64 = 10 powi ck / 2 powi ce" by (simp add: scale_def power_int_add)
  then have "real c - scale ce ck * 2 ^ 64 = (real c * 2 powi ce - 10 powi ck) / 2 powi ce" by (simp add: field_simps)
  then have "\<bar>real c - scale ce ck * 2 ^ 64\<bar> = \<bar>real c * 2 powi ce - 10 powi ck\<bar> / 2 powi ce" using p by (simp add: abs_divide)
  then show ?thesis using assms p by (simp add: pos_divide_le_eq)
qed

lemma scaled_product_near:
  assumes "m < 2 ^ 64" and c: "\<bar>real c * 2 powi ce - 10 powi ck\<bar> \<le> 2 powi ce / 2"
  shows "\<bar>real ((m * c + 2 ^ 63) div 2 ^ 64) - real m * scale ce ck\<bar> < 1"
proof -
  define W where "W = (m * c + 2 ^ 63) div 2 ^ 64"
  have "W * 2 ^ 64 \<le> m * c + 2 ^ 63" "m * c + 2 ^ 63 < (W + 1) * 2 ^ 64"
    unfolding W_def by (simp_all add: dividend_less_div_times)
  then have "real (W * 2 ^ 64) \<le> real (m * c + 2 ^ 63)" "real (m * c + 2 ^ 63) < real ((W + 1) * 2 ^ 64)"
    unfolding of_nat_le_iff of_nat_less_iff by blast+
  then have W: "\<bar>real W * 2 ^ 64 - real m * real c\<bar> \<le> 2 ^ 63" by (simp add: abs_le_iff)
  have "real m * real c - real m * scale ce ck * 2 ^ 64 = real m * (real c - scale ce ck * 2 ^ 64)" by (simp add: algebra_simps)
  then have "\<bar>real m * real c - real m * scale ce ck * 2 ^ 64\<bar> = real m * \<bar>real c - scale ce ck * 2 ^ 64\<bar>" by (simp only: abs_mult abs_of_nat)
  also have "\<dots> \<le> real m * (1 / 2)" by (intro mult_left_mono scale_near [OF c]) simp
  also have "\<dots> < 2 ^ 63"
  proof -
    have "real m < real (2 ^ 64)" unfolding of_nat_less_iff by (rule assms(1))
    then show ?thesis by simp
  qed
  finally have "\<bar>real W * 2 ^ 64 - real m * scale ce ck * 2 ^ 64\<bar> < 2 ^ 64" using W by (simp add: abs_le_iff abs_less_iff)
  then show ?thesis unfolding W_def [symmetric] by (simp add: abs_less_iff)
qed

lemma scale_at_least:
  assumes "2 ^ 63 \<le> c" "\<bar>real c * 2 powi ce - 10 powi ck\<bar> \<le> 2 powi ce / 2"
  shows "49 / 100 < scale ce ck"
proof -
  have "real (2 ^ 63) \<le> real c" unfolding of_nat_le_iff by (rule assms(1))
  then have "2 ^ 63 \<le> real c" by simp
  moreover have "real c \<le> scale ce ck * 2 ^ 64 + 1 / 2" using scale_near [OF assms(2)] by (simp only: abs_le_iff) linarith
  ultimately show ?thesis by simp
qed

lemma real_lower_bound:
  assumes "0 < f" "1 \<le> s"
  shows "real (lower_bound f e s) = (2 * real f - (if lower_closer f e then 1 / 2 else 1)) * 2 ^ s"
proof -
  obtain n where s: "s = Suc n" using assms(2) by (cases s) auto
  show ?thesis using assms(1) by (simp add: lower_bound_def of_nat_diff s field_simps)
qed

lemma lower_bound_less:
  assumes "significand_ok f e" "10 \<le> s" "(2 * f + 1) * 2 ^ s < 2 ^ 64"
  shows "lower_bound f e s < 2 ^ 64"
proof -
  have "real (lower_bound f e s) = (2 * real f - (if lower_closer f e then 1 / 2 else 1)) * 2 ^ s"
    by (rule real_lower_bound) (use assms in \<open>auto simp: significand_ok_def\<close>)
  also have "\<dots> \<le> (2 * real f + 1) * 2 ^ s" by (intro mult_right_mono) auto
  also have "\<dots> = real ((2 * f + 1) * 2 ^ s)" by (simp add: algebra_simps)
  finally show ?thesis using assms(3) unfolding of_nat_le_iff by (rule le_less_trans)
qed

lemma rounded_product_less: "x < 2 ^ 64 \<Longrightarrow> (x * unat (c :: u64) + 2 ^ 63) div 2 ^ 64 < 2 ^ 64"
proof -
  assume "x < 2 ^ 64"
  then have "x * unat c \<le> (2 ^ 64 - 1) * (2 ^ 64 - 1)" using unat_less_64 [of c] by (intro mult_le_mono) auto
  then show ?thesis by (intro less_mult_imp_div_less) simp
qed

text \<open>The interval is wide enough, relative to its upper end, for 17 digits.\<close>

lemma relative_width:
  assumes "significand_ok f e" "501 < T"
  shows "(2 * real f + 1) * T \<le> ((1 + (if lower_closer f e then 1 / 2 else 1)) * T - 4) * 10 ^ 16"
proof (cases "lower_closer f e")
  case True
  then have "real f = 2 ^ 52" by (simp add: lower_closer_def)
  then show ?thesis using True assms(2) by simp
next
  case False
  have "real (2 * f + 1) \<le> real (2 ^ 54)" unfolding of_nat_le_iff using assms(1) by (simp add: significand_ok_def)
  then have "real (2 * f + 1) * T \<le> 2 ^ 54 * T" using assms(2) by (intro mult_right_mono) auto
  moreover have "real (2 * f + 1) = 2 * real f + 1" by simp
  ultimately have "(2 * real f + 1) * T \<le> 2 ^ 54 * T" by metis
  moreover have "2 ^ 54 * T \<le> (2 * T - 4) * 10 ^ 16" using assms(2) by simp
  ultimately have "(2 * real f + 1) * T \<le> (2 * T - 4) * 10 ^ 16" by (rule order_trans)
  moreover have "(1 + (if lower_closer f e then 1 / 2 else 1)) * T - 4 = 2 * T - 4" using False by simp
  ultimately show ?thesis by metis
qed

lemma safe_boundaries:
  assumes fe: "significand_ok f e" and s: "10 \<le> s" "2 ^ 63 \<le> f * 2 ^ (s + 1)" "(2 * f + 1) * 2 ^ s < 2 ^ 64"
    and c: "2 ^ 63 \<le> c" "\<bar>real c * 2 powi ce - 10 powi ck\<bar> \<le> 2 powi ce / 2"
  defines "Wp \<equiv> ((2 * f + 1) * 2 ^ s * c + 2 ^ 63) div 2 ^ 64" and "W \<equiv> (f * 2 ^ (s + 1) * c + 2 ^ 63) div 2 ^ 64"
    and "Wm \<equiv> (lower_bound f e s * c + 2 ^ 63) div 2 ^ 64"
  shows "Wm + 1 \<le> W" and "W + 1 \<le> Wp" and "2 ^ 60 < Wp" and "Wp - 1 \<le> (Wp - 1 - (Wm + 1)) * 10 ^ 16"
    and "real (Wp - 1) < (2 * real f + 1) * 2 ^ s * scale ce ck"
    and "(2 * real f - (if lower_closer f e then 1 / 2 else 1)) * 2 ^ s * scale ce ck < real (Wm + 1)"
proof -
  have f: "0 < f" "f < 2 ^ 53" using fe by (auto simp: significand_ok_def)
  define g where "g = (if lower_closer f e then 1 / 2 else 1 :: real)"
  have g: "1 / 2 \<le> g" "g \<le> 1" by (auto simp: g_def)
  have lb: "real (lower_bound f e s) = (2 * real f - g) * 2 ^ s" using real_lower_bound [OF f(1)] s(1) by (simp add: g_def)
  define T where "T = 2 ^ s * scale ce ck"
  have "(2 :: real) ^ 10 \<le> 2 ^ s" using s(1) by (intro power_increasing) auto
  then have "2 ^ 10 * (49 / 100) \<le> 2 ^ s * scale ce ck" using scale_at_least [OF c] by (intro mult_mono) auto
  then have T: "501 < T" by (simp add: T_def)
  note lb64 = lower_bound_less [OF fe s(1,3)]
  have w64: "f * 2 ^ (s + 1) < 2 ^ 64" using s(3) by (simp add: algebra_simps)
  define F G where "F = real f * T" and "G = g * T"
  have P: "real Wp < 2 * F + T + 1" "2 * F + T - 1 < real Wp"
    using scaled_product_near [OF s(3) c(2), folded Wp_def, unfolded abs_less_iff] by (simp_all add: F_def T_def algebra_simps)
  have V: "real W < 2 * F + 1" "2 * F - 1 < real W"
    using scaled_product_near [OF w64 c(2), folded W_def, unfolded abs_less_iff] by (simp_all add: F_def T_def algebra_simps)
  have M: "real Wm < 2 * F - G + 1" "2 * F - G - 1 < real Wm"
    using scaled_product_near [OF lb64 c(2), folded Wm_def, unfolded abs_less_iff lb] by (simp_all add: F_def G_def T_def algebra_simps)
  have G: "1 / 2 * T \<le> G" "G \<le> T" using g T mult_right_mono [of g 1 T] unfolding G_def by (auto intro: mult_right_mono)
  have "real (Wm + 1) < real W" using V M G T by simp
  then show mw: "Wm + 1 \<le> W" unfolding of_nat_less_iff by simp
  have "real (W + 1) < real Wp" using P V T by simp
  then show wp: "W + 1 \<le> Wp" unfolding of_nat_less_iff by simp
  have "real (2 ^ 60) < real Wp"
  proof -
    have "real (2 ^ 63) \<le> real (f * 2 ^ (s + 1))" unfolding of_nat_le_iff by (rule s(2))
    then have "2 ^ 63 * (49 / 100) \<le> real (f * 2 ^ (s + 1)) * scale ce ck"
      using scale_at_least [OF c] by (intro mult_mono) auto
    also have "\<dots> = 2 * F" by (simp add: F_def T_def)
    finally show ?thesis using P T by simp
  qed
  then show "2 ^ 60 < Wp" unfolding of_nat_less_iff .
  have d1: "real (Wp - 1) = real Wp - 1" using wp by (simp add: of_nat_diff)
  have "(2 * real f + 1) * 2 ^ s * scale ce ck = 2 * F + T" by (simp add: F_def T_def algebra_simps)
  then show up: "real (Wp - 1) < (2 * real f + 1) * 2 ^ s * scale ce ck" unfolding d1 using P by linarith
  have "(2 * real f - g) * 2 ^ s * scale ce ck = 2 * F - G" by (simp add: F_def G_def T_def algebra_simps)
  then show "(2 * real f - (if lower_closer f e then 1 / 2 else 1)) * 2 ^ s * scale ce ck < real (Wm + 1)"
    unfolding g_def [symmetric] using M by simp
  have "real (Wp - 1) \<le> real ((Wp - 1 - (Wm + 1)) * 10 ^ 16)"
  proof -
    have "Wm + 2 \<le> Wp" using mw wp by simp
    then have d: "real (Wp - 1 - (Wm + 1)) = real Wp - real Wm - 2" by (simp add: of_nat_diff)
    have "2 * F + T \<le> (T + G - 4) * 10 ^ 16"
      using relative_width [OF fe T] by (simp add: F_def G_def g_def algebra_simps)
    moreover have "(T + G - 4) * 10 ^ 16 \<le> (real Wp - real Wm - 2) * 10 ^ 16" using P M by (intro mult_right_mono) auto
    ultimately have "real Wp - 1 \<le> (real Wp - real Wm - 2) * 10 ^ 16" using P by linarith
    then show ?thesis unfolding d1 of_nat_mult d by simp
  qed
  then show "Wp - 1 \<le> (Wp - 1 - (Wm + 1)) * 10 ^ 16" unfolding of_nat_le_iff .
qed

end
