(* ===== verification/Grisu_Digits.thy ===== *)
theory Grisu_Digits
  imports Grisu_Scaling
begin

text \<open>
  Digit generation of Grisu2: started on scaled boundaries \<open>M\<^sup>-\<close> and \<open>M\<^sup>+\<close> no assertion of
  \<open>grisu2_digit_gen\<close> and \<open>grisu2_round\<close> fails, at most 17 digits are written, the first one is not
  zero, and the decimal number lies between the boundaries.
\<close>

section \<open>Buffers of digits\<close>

definition digits_in :: "string \<Rightarrow> string \<Rightarrow> string \<Rightarrow> int \<Rightarrow> digits" where
  "digits_in pre ds post x = \<lparr>dg_buf = pre @ ds @ post, dg_off = length pre, dg_len = length ds, dg_exp = x\<rparr>"

lemma digits_in_exp [simp]:
  "digits_in pre ds post x\<lparr>dg_exp := dg_exp (digits_in pre ds post x) + j\<rparr> = digits_in pre ds post (x + j)"
  "digits_in pre ds post x\<lparr>dg_exp := dg_exp (digits_in pre ds post x) - j\<rparr> = digits_in pre ds post (x - j)"
  by (simp_all add: digits_in_def)

text \<open>
  A step that appends the digits \<open>es\<close> and adds \<open>j\<close> to the exponent, whatever the buffer holds, if there
  is room for the digits.
\<close>

definition appends :: "(digits \<Rightarrow> failure + 'a) \<Rightarrow> string \<Rightarrow> int \<Rightarrow> (digits \<Rightarrow> 'a) \<Rightarrow> bool" where
  "appends F es j wrap \<longleftrightarrow>
     (\<forall>pre ds post x. length es \<le> length post \<longrightarrow>
        F (digits_in pre ds post x) = Inr (wrap (digits_in pre (ds @ es) (drop (length es) post) (x + j))))"

lemma push_digit_spec:
  "push_digit d (digits_in pre ds (p # post) x) = Inr (digits_in pre (ds @ [digit_char (unat d)]) post x)"
proof -
  have "buf_put ((pre @ ds) @ p # post) (length pre + length ds) c = Inr ((pre @ ds) @ c # post)" for c
    by (rule buf_put_append) simp
  then show ?thesis by (simp add: push_digit_def digits_in_def digit_char_def)
qed

lemma appends_push:
  assumes "appends F es j wrap"
  shows "appends (\<lambda>g. ebind (push_digit d g) F) (digit_char (unat d) # es) j wrap"
  unfolding appends_def
proof (intro allI impI)
  fix pre ds post x
  assume "length (digit_char (unat d) # es) \<le> length (post :: string)"
  then obtain p post' where post: "post = p # post'" "length es \<le> length post'" by (cases post) auto
  show "ebind (push_digit d (digits_in pre ds post x)) F = Inr (wrap (digits_in pre (ds @ digit_char (unat d) # es)
      (drop (length (digit_char (unat d) # es)) post) (x + j)))"
    using assms post(2) by (simp add: post(1) push_digit_spec appends_def)
qed

section \<open>Rounding\<close>

lemma digit_char_pred: "0 < d \<Longrightarrow> d \<le> 9 \<Longrightarrow> char_of_byte (byte_of (digit_char d) - 1) = digit_char (d - 1)"
proof -
  assume d: "0 < d" "d \<le> 9"
  have b: "byte_of (digit_char d) = of_nat (48 + d)" using d by (simp add: byte_of_nat of_char_digit_char)
  have "byte_of (digit_char d) - 1 = of_nat (48 + (d - 1))" unfolding b using d by (simp add: of_nat_diff)
  moreover have "byte_of (digit_char (d - 1)) = of_nat (48 + (d - 1))" using d by (simp add: byte_of_nat of_char_digit_char)
  ultimately show ?thesis by (metis char_of_byte_of)
qed

lemma digit_char_zero: "d \<le> 9 \<Longrightarrow> digit_char d = CHR ''0'' \<longleftrightarrow> d = 0"
proof -
  assume "d \<le> 9"
  then have "of_char (digit_char d) = 48 + d" by (simp add: of_char_digit_char)
  moreover have "of_char (CHR ''0'') = (48 :: nat)" by simp
  ultimately show ?thesis by (metis add_cancel_left_right digit_char_def add_0_right char_of_char)
qed

text \<open>
  The loop of \<open>grisu2_round\<close> moves units of the last digit to the rest.  Because the rest exceeded \<open>delta\<close>
  before the last digit was taken off, the digit never drops below zero.
\<close>

lemma grisu2_round_loop_spec:
  fixes ten_k :: u64
  assumes "d \<le> 9" "unat rest \<le> unat delta" "unat delta < d * unat ten_k + unat rest"
  shows "\<exists>d' rest'. grisu2_round_loop (digit_char d) dst delta rest ten_k = Inr (digit_char d') \<and> d' \<le> d \<and>
    d' * unat ten_k + rest' = d * unat ten_k + unat rest \<and> rest' \<le> unat delta"
  using assms
proof (induction d arbitrary: rest)
  case 0
  then show ?case by simp
next
  case (Suc d)
  show ?case
  proof (cases "rest < dst \<and> ten_k \<le> delta - rest \<and> (rest + ten_k < dst \<or> rest + ten_k - dst < dst - rest)")
    case True
    have "rest \<le> delta" using Suc.prems(2) by (simp add: word_le_nat_alt)
    then have "unat ten_k \<le> unat delta - unat rest" using True by (simp add: word_le_nat_alt unat_sub)
    then have sum: "unat rest + unat ten_k \<le> unat delta" using Suc.prems(2) by simp
    then have r: "unat (rest + ten_k) = unat rest + unat ten_k" using unat_less_64 [of delta] by (intro unat_add_small) simp
    obtain d' rest' where "grisu2_round_loop (digit_char d) dst delta (rest + ten_k) ten_k = Inr (digit_char d')" "d' \<le> d"
        "d' * unat ten_k + rest' = d * unat ten_k + unat (rest + ten_k)" "rest' \<le> unat delta"
      using Suc.IH [of "rest + ten_k"] Suc.prems sum unfolding r by auto
    moreover have "grisu2_round_loop (digit_char (Suc d)) dst delta rest ten_k = grisu2_round_loop (digit_char d) dst delta (rest + ten_k) ten_k"
      using True Suc.prems(1) digit_char_zero [of "Suc d"] digit_char_pred [of "Suc d"]
      by (subst grisu2_round_loop.simps) (simp add: json_assert_def)
    ultimately show ?thesis unfolding r by (intro exI [of _ d'] exI [of _ rest']) simp
  next
    case False
    then have "grisu2_round_loop (digit_char (Suc d)) dst delta rest ten_k = Inr (digit_char (Suc d))"
      by (subst grisu2_round_loop.simps) (simp only: if_False)
    then show ?thesis using Suc.prems by (intro exI [of _ "Suc d"] exI [of _ "unat rest"]) simp
  qed
qed

lemma grisu2_round_spec:
  fixes ten_k :: u64
  assumes "d \<le> 9" "unat rest \<le> unat delta" "unat delta < d * unat ten_k + unat rest" "unat dst \<le> unat delta"
  obtains d' rest' where "d' \<le> d" "d' * unat ten_k + rest' = d * unat ten_k + unat rest" "rest' \<le> unat delta"
    "\<And>pre ds post x. grisu2_round dst delta rest ten_k (digits_in pre (ds @ [digit_char d]) post x) =
       Inr (digits_in pre (ds @ [digit_char d']) post x)"
proof -
  obtain d' rest' where d': "grisu2_round_loop (digit_char d) dst delta rest ten_k = Inr (digit_char d')" "d' \<le> d"
      "d' * unat ten_k + rest' = d * unat ten_k + unat rest" "rest' \<le> unat delta"
    using grisu2_round_loop_spec [OF assms(1-3)] by blast
  have ten: "0 < ten_k" using assms(2,3) by (cases "ten_k = 0") (auto simp: word_gt_0)
  have le: "dst \<le> delta" "rest \<le> delta" using assms by (simp_all add: word_le_nat_alt)
  have "grisu2_round dst delta rest ten_k (digits_in pre (ds @ [digit_char d]) post x) =
       Inr (digits_in pre (ds @ [digit_char d']) post x)" for pre ds post x
  proof -
    have "buf_get ((pre @ ds) @ digit_char d # post) (length pre + length ds) = Inr (digit_char d)" by (rule buf_get_append) simp
    moreover have "buf_put ((pre @ ds) @ digit_char d # post) (length pre + length ds) c = Inr ((pre @ ds) @ c # post)" for c
      by (rule buf_put_append) simp
    ultimately show ?thesis using ten le d'(1) by (simp add: grisu2_round_def digits_in_def)
  qed
  then show thesis using that d' by blast
qed

text \<open>A digit is written and then rounded, which ends the generation.\<close>

lemma appends_push_round:
  fixes d ten_k :: u64
  assumes "unat d \<le> 9" "unat rest \<le> unat delta" "unat delta < unat d * unat ten_k + unat rest" "unat dst \<le> unat delta"
  obtains d' rest' where "d' \<le> unat d" "d' * unat ten_k + rest' = unat d * unat ten_k + unat rest" "rest' \<le> unat delta"
    "\<And>j wrap. appends (\<lambda>g. ebind (push_digit d g)
       (\<lambda>g. ebind (grisu2_round dst delta rest ten_k (g\<lparr>dg_exp := dg_exp g + j\<rparr>)) (\<lambda>g. Inr (wrap g)))) [digit_char d'] j wrap"
proof -
  obtain d' rest' where d': "d' \<le> unat d" "d' * unat ten_k + rest' = unat d * unat ten_k + unat rest" "rest' \<le> unat delta"
      and round: "\<And>pre ds post x. grisu2_round dst delta rest ten_k (digits_in pre (ds @ [digit_char (unat d)]) post x) =
        Inr (digits_in pre (ds @ [digit_char d']) post x)"
    using grisu2_round_spec [OF assms] by blast
  have "appends (\<lambda>g. ebind (push_digit d g)
      (\<lambda>g. ebind (grisu2_round dst delta rest ten_k (g\<lparr>dg_exp := dg_exp g + j\<rparr>)) (\<lambda>g. Inr (wrap g)))) [digit_char d'] j wrap" for j wrap
    unfolding appends_def
  proof (intro allI impI)
    fix pre ds post x
    assume "length [digit_char d'] \<le> length (post :: string)"
    then obtain p post' where "post = p # post'" by (cases post) auto
    then show "ebind (push_digit d (digits_in pre ds post x))
        (\<lambda>g. ebind (grisu2_round dst delta rest ten_k (g\<lparr>dg_exp := dg_exp g + j\<rparr>)) (\<lambda>g. Inr (wrap g))) =
        Inr (wrap (digits_in pre (ds @ [digit_char d']) (drop (length [digit_char d']) post) (x + j)))"
      by (simp add: push_digit_spec round)
  qed
  then show thesis using that d' by blast
qed

section \<open>Digits after the decimal point\<close>

lemma digits_val_Cons: "digits_val (c # cs) = digit_val c * 10 ^ length cs + digits_val cs"
  by (induction cs rule: rev_induct) (simp_all add: digits_val_snoc [of "c # cs" for cs, simplified], simp add: digits_val_def)

text \<open>\<open>decimal_text es\<close>: digits only.\<close>

abbreviation decimal_text :: "string \<Rightarrow> bool" where
  "decimal_text es \<equiv> list_all is_digit_char es"

lemma unat_times_10: "unat (x :: u64) < 2 ^ 60 \<Longrightarrow> unat (x * 10) = unat x * 10"
  using unat_mult_small [of x 10] by simp

lemma unat_and_one_minus:
  assumes "sh \<le> 60"
  shows "unat (x AND (push_bit sh 1 - 1) :: u64) = unat x mod 2 ^ sh"
proof -
  have m: "(push_bit sh 1 - 1 :: u64) = mask sh" by (simp add: mask_eq_exp_minus_1 push_bit_eq_mult)
  show ?thesis unfolding m take_bit_eq_mask [symmetric] unsigned_take_bit_eq by (simp add: take_bit_eq_mod)
qed

lemma unat_one_shifted: "sh \<le> 60 \<Longrightarrow> unat (push_bit sh 1 :: u64) = 2 ^ sh"
proof -
  assume "sh \<le> 60"
  then have "(2 :: nat) ^ sh \<le> 2 ^ 60" by (rule power_increasing) simp
  then have "(2 :: nat) ^ sh < 2 ^ 64" by simp
  then show ?thesis using unat_of_nat_small [of "2 ^ sh"] by (simp add: push_bit_eq_mult)
qed

text \<open>One iteration of the loop.\<close>

lemma fractional_iteration:
  fixes p2 :: u64
  assumes sh: "sh \<le> 60" "one_f = push_bit sh 1" and p2: "unat p2 < 2 ^ sh"
  defines "d \<equiv> drop_bit sh (p2 * 10)" and "r \<equiv> p2 * 10 AND (one_f - 1)"
  shows "unat d * 2 ^ sh + unat r = unat p2 * 10" and "unat d \<le> 9" and "unat r < 2 ^ sh"
    and "fractional_digits sh one_f p2 delta dst m = (\<lambda>g. ebind (push_digit d g)
      (\<lambda>g. if r \<le> delta * 10 then grisu2_round (dst * 10) (delta * 10) r one_f (g\<lparr>dg_exp := dg_exp g - int (m + 1)\<rparr>)
           else fractional_digits sh one_f r (delta * 10) (dst * 10) (m + 1) g))"
proof -
  have "(2 :: nat) ^ sh \<le> 2 ^ 60" using sh(1) by (intro power_increasing) auto
  then have small: "unat p2 < 2 ^ 60" using p2 by linarith
  have q: "unat (p2 * 10) = unat p2 * 10" using small by (rule unat_times_10)
  have r: "unat r = unat p2 * 10 mod 2 ^ sh" using unat_and_one_minus [OF sh(1)] by (simp only: r_def sh(2) q)
  have d: "unat d = unat p2 * 10 div 2 ^ sh" by (simp add: d_def unat_drop_bit q)
  show "unat d * 2 ^ sh + unat r = unat p2 * 10" unfolding d r by (rule div_mult_mod_eq)
  show "unat r < 2 ^ sh" by (simp add: r)
  have "unat d < 10" unfolding d using p2 by (intro less_mult_imp_div_less) simp
  then show d9: "unat d \<le> 9" by simp
  have "p2 \<le> 0xFFFFFFFFFFFFFFFF div 10" "d \<le> 9" using small d9 by (simp_all add: word_le_nat_alt unat_div)
  then show "fractional_digits sh one_f p2 delta dst m = (\<lambda>g. ebind (push_digit d g)
      (\<lambda>g. if r \<le> delta * 10 then grisu2_round (dst * 10) (delta * 10) r one_f (g\<lparr>dg_exp := dg_exp g - int (m + 1)\<rparr>)
           else fractional_digits sh one_f r (delta * 10) (dst * 10) (m + 1) g))"
    unfolding r_def d_def by (intro ext, subst fractional_digits.simps) (simp add: Let_def cong: if_cong)
qed

lemma fractional_digits_spec:
  fixes p2 delta dst :: u64
  assumes sh: "sh \<le> 60" "one_f = push_bit sh 1" and p2: "unat p2 < 2 ^ sh" "unat delta < unat p2" "unat dst \<le> unat delta"
    and L: "2 ^ sh \<le> unat delta * 10 ^ L"
  shows "\<exists>es. es \<noteq> [] \<and> length es \<le> L \<and> decimal_text es \<and>
    appends (fractional_digits sh one_f p2 delta dst m) es (- int (m + length es)) (\<lambda>g. g) \<and>
    digits_val es * 2 ^ sh \<le> unat p2 * 10 ^ length es \<and>
    unat p2 * 10 ^ length es \<le> digits_val es * 2 ^ sh + unat delta * 10 ^ length es"
  using p2 L
proof (induction L arbitrary: p2 delta dst m)
  case 0
  then show ?case by simp
next
  case (Suc L)
  have "(2 :: nat) ^ sh \<le> 2 ^ 60" using sh(1) by (intro power_increasing) auto
  then have dl: "unat (delta * 10) = unat delta * 10" and dst: "unat (dst * 10) \<le> unat (delta * 10)"
    using Suc.prems by (simp_all add: unat_times_10)
  define r d where "r = p2 * 10 AND (one_f - 1)" and "d = drop_bit sh (p2 * 10)"
  note it = fractional_iteration [OF sh Suc.prems(1), folded r_def d_def]
  have one: "unat one_f = 2 ^ sh" using unat_one_shifted sh by simp
  show ?case
  proof (cases "r \<le> delta * 10")
    case True
    then have le: "unat r \<le> unat (delta * 10)" by (simp add: word_le_nat_alt)
    have "unat (delta * 10) < unat d * unat one_f + unat r" using Suc.prems(2) it(1) by (simp add: dl one)
    then obtain d' rest' where d': "d' \<le> unat d" "d' * unat one_f + rest' = unat d * unat one_f + unat r" "rest' \<le> unat (delta * 10)"
        and app: "\<And>j (wrap :: digits \<Rightarrow> digits). appends (\<lambda>g. ebind (push_digit d g) (\<lambda>g. ebind
          (grisu2_round (dst * 10) (delta * 10) r one_f (g\<lparr>dg_exp := dg_exp g + j\<rparr>)) (\<lambda>g. Inr (wrap g)))) [digit_char d'] j wrap"
      using appends_push_round [OF it(2) le _ dst, of one_f] by blast
    have "appends (fractional_digits sh one_f p2 delta dst m) [digit_char d'] (- int (m + 1)) (\<lambda>g. g)"
      using app [of "- int (m + 1)" "\<lambda>g. g"] True unfolding it(4) ebind_return add_uminus_conv_diff by (simp only: if_True)
    moreover have "digit_val (digit_char d') = d'" "is_digit_char (digit_char d')" using d'(1) it(2) by simp_all
    ultimately show ?thesis using d' it(1) by (intro exI [of _ "[digit_char d']"]) (simp add: one dl digits_val_def)
  next
    case False
    then have lt: "unat (delta * 10) < unat r" by (simp add: word_le_nat_alt)
    have "2 ^ sh \<le> unat (delta * 10) * 10 ^ L" using Suc.prems(4) by (simp add: dl mult.assoc)
    then obtain es where es: "es \<noteq> []" "length es \<le> L" "decimal_text es"
        "appends (fractional_digits sh one_f r (delta * 10) (dst * 10) (m + 1)) es (- int (m + 1 + length es)) (\<lambda>g. g)"
        "digits_val es * 2 ^ sh \<le> unat r * 10 ^ length es"
        "unat r * 10 ^ length es \<le> digits_val es * 2 ^ sh + unat (delta * 10) * 10 ^ length es"
      using Suc.IH [OF it(3) lt dst, of "m + 1"] by auto
    have "appends (fractional_digits sh one_f p2 delta dst m) (digit_char (unat d) # es) (- int (m + 1 + length es)) (\<lambda>g. g)"
      using appends_push [OF es(4), of d] False unfolding it(4) by (simp only: if_False)
    moreover have "unat p2 * 10 ^ length (digit_char (unat d) # es) = unat d * 10 ^ length es * 2 ^ sh + unat r * 10 ^ length es"
    proof -
      have "unat p2 * 10 ^ length (digit_char (unat d) # es) = (unat p2 * 10) * 10 ^ length es" by simp
      then show ?thesis unfolding it(1) [symmetric] by (simp add: algebra_simps)
    qed
    ultimately show ?thesis using es it(2)
      by (intro exI [of _ "digit_char (unat d) # es"]) (simp add: digits_val_Cons dl algebra_simps)
  qed
qed

section \<open>Digits before the decimal point\<close>

lemma unat_push_ucast:
  fixes p :: u32
  assumes "unat p * 2 ^ sh < 2 ^ 64"
  shows "unat (push_bit sh (ucast p :: u64)) = unat p * 2 ^ sh"
proof -
  have "push_bit sh (ucast p :: u64) = of_nat (unat p * 2 ^ sh)" by (simp add: push_bit_eq_mult)
  then show ?thesis using unat_of_nat_small [OF assms] by simp
qed

lemma unat_ucast_64: "unat (ucast (p :: u32) :: u64) = unat p"
proof -
  have "unat p < 2 ^ LENGTH(32)" by (rule unsigned_less)
  then show ?thesis by (simp add: unsigned_ucast_eq take_bit_nat_eq_self)
qed

text \<open>
  The outcomes of the loop: it returns early with digits \<open>es\<close> of the integral part, or it ends with all of
  them.  \<open>R\<close> is the number that remains to be written.
\<close>

definition stops_with :: "nat \<Rightarrow> nat \<Rightarrow> nat \<Rightarrow> nat \<Rightarrow> string \<Rightarrow> bool" where
  "stops_with sh n R delta es \<longleftrightarrow>
     1 \<le> length es \<and> length es \<le> n \<and> decimal_text es \<and> digits_val es * 10 ^ (n - length es) * 2 ^ sh \<le> R \<and>
     R \<le> digits_val es * 10 ^ (n - length es) * 2 ^ sh + delta"

lemma stops_with_Cons:
  assumes "stops_with sh n R delta es" "d \<le> 9"
  shows "stops_with sh (Suc n) (d * 10 ^ n * 2 ^ sh + R) delta (digit_char d # es)"
proof -
  have "length es \<le> n" using assms(1) by (simp add: stops_with_def)
  then have "10 ^ length es * 10 ^ (n - length es) = (10 :: nat) ^ n" by (metis le_add_diff_inverse power_add)
  then have "digits_val (digit_char d # es) * 10 ^ (n - length es) * 2 ^ sh =
      d * 10 ^ n * 2 ^ sh + digits_val es * 10 ^ (n - length es) * 2 ^ sh"
    using assms(2) by (simp add: digits_val_Cons algebra_simps)
  then show ?thesis using assms by (simp add: stops_with_def del: digits_val_Cons)
qed

lemma integral_iteration:
  fixes p1 pow10 :: u32 and p2 :: u64
  assumes p1: "unat p1 < 10 ^ Suc n" and pow: "unat pow10 = 10 ^ n" and R: "unat p1 * 2 ^ sh + unat p2 < 2 ^ 64"
  defines "d \<equiv> p1 div pow10" and "r \<equiv> p1 mod pow10" and "rest \<equiv> push_bit sh (ucast (p1 mod pow10)) + p2"
  shows "unat d = unat p1 div 10 ^ n" and "unat d \<le> 9" and "unat r < 10 ^ n" and "unat p1 = unat d * 10 ^ n + unat r"
    and "unat p1 * 2 ^ sh + unat p2 = unat d * 10 ^ n * 2 ^ sh + (unat r * 2 ^ sh + unat p2)"
    and "unat rest = unat r * 2 ^ sh + unat p2"
    and "integral_digits sh (Suc n) p1 p2 pow10 delta dst = (\<lambda>g. ebind (push_digit (ucast d) g)
      (\<lambda>g. if rest \<le> delta
           then ebind (grisu2_round dst delta rest (push_bit sh (ucast pow10)) (g\<lparr>dg_exp := dg_exp g + int n\<rparr>)) (\<lambda>g. Inr (Inr g))
           else integral_digits sh n r p2 (pow10 div 10) delta dst g))"
proof -
  show d: "unat d = unat p1 div 10 ^ n" by (simp add: d_def unat_div pow)
  have r: "unat r = unat p1 mod 10 ^ n" by (simp add: r_def unat_mod pow)
  show dr: "unat p1 = unat d * 10 ^ n + unat r" unfolding d r by (rule div_mult_mod_eq [symmetric])
  have "unat d < 10" unfolding d using p1 by (intro less_mult_imp_div_less) simp
  then show d9: "unat d \<le> 9" by simp
  show "unat r < 10 ^ n" by (simp add: r)
  show sum: "unat p1 * 2 ^ sh + unat p2 = unat d * 10 ^ n * 2 ^ sh + (unat r * 2 ^ sh + unat p2)" unfolding dr by (simp add: algebra_simps)
  have "unat r * 2 ^ sh + unat p2 < 2 ^ 64" using R unfolding sum by linarith
  then show "unat rest = unat r * 2 ^ sh + unat p2"
    unfolding rest_def r_def [symmetric] by (subst unat_add_small) (simp_all add: unat_push_ucast)
  show "integral_digits sh (Suc n) p1 p2 pow10 delta dst = (\<lambda>g. ebind (push_digit (ucast d) g)
      (\<lambda>g. if rest \<le> delta
           then ebind (grisu2_round dst delta rest (push_bit sh (ucast pow10)) (g\<lparr>dg_exp := dg_exp g + int n\<rparr>)) (\<lambda>g. Inr (Inr g))
           else integral_digits sh n r p2 (pow10 div 10) delta dst g))"
    using d9 unfolding rest_def d_def r_def by (intro ext) (simp add: Let_def word_le_nat_alt cong: if_cong)
qed

lemma integral_digits_spec:
  fixes p1 pow10 :: u32 and p2 delta dst :: u64
  assumes p2: "unat p2 < 2 ^ sh" and dst: "unat dst \<le> unat delta"
    and p1: "unat p1 < 10 ^ n" "n = 0 \<or> unat pow10 = 10 ^ (n - 1)"
    and R: "unat p1 * 2 ^ sh + unat p2 < 2 ^ 64" "unat delta < unat p1 * 2 ^ sh + unat p2"
  shows "(\<exists>es. stops_with sh n (unat p1 * 2 ^ sh + unat p2) (unat delta) es \<and>
           (length es = 1 \<or> hd es = digit_char (unat p1 div 10 ^ (n - 1))) \<and>
           appends (integral_digits sh n p1 p2 pow10 delta dst) es (int (n - length es)) Inr) \<or>
         (\<exists>es. length es = n \<and> decimal_text es \<and> (n = 0 \<or> hd es = digit_char (unat p1 div 10 ^ (n - 1))) \<and>
           digits_val es = unat p1 \<and> unat delta < unat p2 \<and>
           appends (integral_digits sh n p1 p2 pow10 delta dst) es 0 Inl)"
  using p1 R
proof (induction n arbitrary: p1 pow10)
  case 0
  then show ?case by (simp add: appends_def)
next
  case (Suc n)
  define d r where "d = p1 div pow10" and "r = p1 mod pow10"
  define rest where "rest = push_bit sh (ucast r) + p2"
  have pow: "unat pow10 = 10 ^ n" using Suc.prems(2) by simp
  note it = integral_iteration [OF Suc.prems(1) pow Suc.prems(3), folded d_def r_def, folded rest_def]
  show ?case
  proof (cases "rest \<le> delta")
    case True
    then have le: "unat rest \<le> unat delta" by (simp add: word_le_nat_alt)
    then have "0 < unat d" using Suc.prems(4) unfolding it(5,6) by (cases "unat d") auto
    then have "10 ^ n * 2 ^ sh \<le> unat d * 10 ^ n * 2 ^ sh" by simp
    then have "10 ^ n * 2 ^ sh < (2 :: nat) ^ 64" using Suc.prems(3) unfolding it(5) by linarith
    then have ten: "unat (push_bit sh (ucast pow10) :: u64) = 10 ^ n * 2 ^ sh"
      using unat_push_ucast [of pow10 sh] by (simp only: pow)
    have "unat delta < unat (ucast d :: u64) * unat (push_bit sh (ucast pow10) :: u64) + unat rest"
      unfolding ten it(6) unat_ucast_64 using Suc.prems(4) it(5) by (simp add: mult.assoc)
    note spec = appends_push_round [OF it(2) [folded unat_ucast_64] le this dst, unfolded ten unat_ucast_64]
    obtain d' rest' where d': "d' \<le> unat d" "d' * (10 ^ n * 2 ^ sh) + rest' = unat d * (10 ^ n * 2 ^ sh) + unat rest" "rest' \<le> unat delta"
        and app: "\<And>j (wrap :: digits \<Rightarrow> digits + digits). appends (\<lambda>g. ebind (push_digit (ucast d) g) (\<lambda>g. ebind
          (grisu2_round dst delta rest (push_bit sh (ucast pow10)) (g\<lparr>dg_exp := dg_exp g + j\<rparr>)) (\<lambda>g. Inr (wrap g)))) [digit_char d'] j wrap"
      using spec by blast
    have "appends (integral_digits sh (Suc n) p1 p2 pow10 delta dst) [digit_char d'] (int n) Inr"
      using app [of "int n" Inr] True unfolding it(7) by (simp only: if_True)
    moreover have "stops_with sh (Suc n) (unat p1 * 2 ^ sh + unat p2) (unat delta) [digit_char d']"
      using d' it(2) unfolding it(5) it(6) [symmetric] by (simp add: stops_with_def digits_val_def mult.assoc)
    ultimately show ?thesis by (intro disjI1 exI [of _ "[digit_char d']"]) (simp del: integral_digits.simps)
  next
    case False
    then have lt: "unat delta < unat r * 2 ^ sh + unat p2" unfolding it(6) [symmetric] by (simp add: word_le_nat_alt)
    have small: "unat r * 2 ^ sh + unat p2 < 2 ^ 64" using Suc.prems(3) unfolding it(5) by linarith
    have ten: "n = 0 \<or> unat (pow10 div 10) = 10 ^ (n - 1)" by (cases n) (simp_all add: unat_div pow)
    have push: "appends (integral_digits sh (Suc n) p1 p2 pow10 delta dst) (digit_char (unat d) # es) j wrap"
      if "appends (integral_digits sh n r p2 (pow10 div 10) delta dst) es j wrap" for es j wrap
      using appends_push [OF that, of "ucast d"] False unfolding it(7) by (simp only: if_False unat_ucast_64)
    consider es where "stops_with sh n (unat r * 2 ^ sh + unat p2) (unat delta) es"
        "appends (integral_digits sh n r p2 (pow10 div 10) delta dst) es (int (n - length es)) Inr"
      | es where "length es = n" "decimal_text es" "digits_val es = unat r" "unat delta < unat p2"
        "appends (integral_digits sh n r p2 (pow10 div 10) delta dst) es 0 Inl"
      using Suc.IH [OF it(3) ten small lt] by blast
    then show ?thesis
    proof cases
      case 1
      then show ?thesis unfolding it(5) using stops_with_Cons [OF _ it(2)] push
        by (intro disjI1 exI [of _ "digit_char (unat d) # es"]) (simp add: it(1) del: integral_digits.simps)
    next
      case 2
      then have "digits_val (digit_char (unat d) # es) = unat p1" using it(2) unfolding digits_val_Cons it(4) by simp
      then show ?thesis using 2 push it(2)
        by (intro disjI2 exI [of _ "digit_char (unat d) # es"]) (simp del: integral_digits.simps, simp add: it(1))
    qed
  qed
qed

section \<open>All digits\<close>

lemma find_largest_pow10_spec:
  assumes "0 < n"
  obtains k pow10 where "find_largest_pow10 n = (k, pow10)" "1 \<le> k" "k \<le> 10" "unat pow10 = 10 ^ (k - 1)"
    "10 ^ (k - 1) \<le> unat n" "unat n < 10 ^ k"
proof -
  have lt: "unat n < 2 ^ LENGTH(32)" by (rule unsigned_less)
  have "0 < unat n" using assms by (simp add: word_less_nat_alt)
  then have "case find_largest_pow10 n of (k, pow10) \<Rightarrow>
      1 \<le> k \<and> k \<le> 10 \<and> unat pow10 = 10 ^ (k - 1) \<and> 10 ^ (k - 1) \<le> unat n \<and> unat n < 10 ^ k"
    using lt by (simp add: find_largest_pow10_def word_le_nat_alt)
  then show thesis using that by (cases "find_largest_pow10 n") simp
qed

lemma digits_val_append: "digits_val (xs @ ys) = digits_val xs * 10 ^ length ys + digits_val ys"
  by (induction xs) (simp_all add: digits_val_Cons power_add algebra_simps)

lemma digits_val_pos_hd:
  assumes "decimal_text es" "length es = 1" "0 < digits_val es"
  shows "hd es \<noteq> CHR ''0''"
  using assms by (cases es) (auto simp: digits_val_def digit_val_def)

text \<open>
  The text \<open>ds\<close> with decimal exponent \<open>j\<close> is a good result for the interval from \<open>m\<close> to \<open>N\<close> in units of
  \<open>2\<^bsup>- sh\<^esup>\<close>.
\<close>

definition digits_between :: "nat \<Rightarrow> nat \<Rightarrow> nat \<Rightarrow> string \<Rightarrow> int \<Rightarrow> bool" where
  "digits_between sh m N ds j \<longleftrightarrow>
     ds \<noteq> [] \<and> length ds \<le> 17 \<and> decimal_text ds \<and> hd ds \<noteq> CHR ''0'' \<and> - 17 \<le> j \<and> j \<le> 10 \<and>
     real m \<le> real (digits_val ds) * 10 powi j * 2 ^ sh \<and> real (digits_val ds) * 10 powi j * 2 ^ sh \<le> real N"

lemma digits_between_stopped:
  assumes "stops_with sh k N delta es" "k \<le> 10" "delta < N"
    and "length es = 1 \<or> hd es \<noteq> CHR ''0''"
  shows "digits_between sh (N - delta) N es (int (k - length es))"
proof -
  define V where "V = digits_val es * 10 ^ (k - length es) * 2 ^ sh"
  have es: "1 \<le> length es" "length es \<le> k" "decimal_text es" "V \<le> N" "N \<le> V + delta" using assms(1) by (simp_all add: stops_with_def V_def)
  have V: "real V = real (digits_val es) * 10 powi int (k - length es) * 2 ^ sh" by (simp add: V_def power_int_of_nat)
  have "0 < V" using es(5) assms(3) by simp
  then have "0 < digits_val es" by (simp add: V_def)
  then have "hd es \<noteq> CHR ''0''" using digits_val_pos_hd es(3) assms(4) by blast
  moreover have "real (N - delta) \<le> real V" "real V \<le> real N" unfolding of_nat_le_iff using es by simp_all
  ultimately show ?thesis using es(1-3) assms(2) by (auto simp: digits_between_def V)
qed

lemma digits_between_fraction:
  assumes "digits_val es = p1" "N = p1 * 2 ^ sh + p2" "delta \<le> N" "es \<noteq> []" "decimal_text (es @ fs)" "length es + length fs \<le> 17"
    and "hd es \<noteq> CHR ''0''" and "digits_val fs * 2 ^ sh \<le> p2 * 10 ^ length fs"
    "p2 * 10 ^ length fs \<le> digits_val fs * 2 ^ sh + delta * 10 ^ length fs"
  shows "digits_between sh (N - delta) N (es @ fs) (- int (length fs))"
proof -
  define V where "V = digits_val (es @ fs) * 2 ^ sh"
  have V: "V = p1 * 2 ^ sh * 10 ^ length fs + digits_val fs * 2 ^ sh" by (simp add: V_def digits_val_append assms(1) algebra_simps)
  have N: "N * 10 ^ length fs = p1 * 2 ^ sh * 10 ^ length fs + p2 * 10 ^ length fs" by (simp add: assms(2) algebra_simps)
  have "(N - delta) * 10 ^ length fs \<le> V" "V \<le> N * 10 ^ length fs"
    using assms(8,9) unfolding diff_mult_distrib V N by linarith+
  then have "real ((N - delta) * 10 ^ length fs) \<le> real V" "real V \<le> real (N * 10 ^ length fs)" unfolding of_nat_le_iff by blast+
  then have "real (N - delta) \<le> real V / 10 ^ length fs" "real V / 10 ^ length fs \<le> real N" by (simp_all add: field_simps)
  moreover have "real V / 10 ^ length fs = real (digits_val (es @ fs)) * 10 powi - int (length fs) * 2 ^ sh"
    by (simp add: V_def power_int_minus power_int_of_nat field_simps)
  ultimately show ?thesis using assms(4-7) by (auto simp: digits_between_def)
qed

lemma digits_left:
  assumes "(10 :: nat) ^ (k - 1) * 2 ^ sh \<le> delta * 10 ^ 16" "1 \<le> k" "k \<le> 10"
  shows "2 ^ sh \<le> delta * 10 ^ (17 - k)"
proof -
  have "(10 :: nat) ^ 16 = 10 ^ (k - 1) * 10 ^ (17 - k)" using assms(2,3) by (simp flip: power_add)
  then have "10 ^ (k - 1) * 2 ^ sh \<le> 10 ^ (k - 1) * (delta * 10 ^ (17 - k))" using assms(1) by (simp add: algebra_simps)
  then show ?thesis by simp
qed

lemma leading_digit:
  assumes "1 \<le> k" "10 ^ (k - 1) \<le> n" "n < 10 ^ k"
  shows "digit_char (n div 10 ^ (k - 1)) \<noteq> CHR ''0''"
proof -
  have "n < 10 * 10 ^ (k - 1)" using assms(1,3) by (simp add: power_eq_if split: if_splits)
  then have "n div 10 ^ (k - 1) < 10" by (rule less_mult_imp_div_less)
  moreover have "0 < n div 10 ^ (k - 1)" using assms(2) by (simp add: div_greater_zero_iff)
  ultimately show ?thesis using digit_char_zero [of "n div 10 ^ (k - 1)"] by simp
qed

text \<open>The integral part \<open>p1\<close> and the fractional part \<open>p2\<close> of the upper boundary.\<close>

lemma boundary_parts:
  assumes "32 \<le> sh" "sh \<le> 60" "N < 2 ^ 64"
  shows "unat (ucast (drop_bit sh (of_nat N :: u64)) :: u32) = N div 2 ^ sh"
    and "unat (of_nat N AND (push_bit sh 1 - 1) :: u64) = N mod 2 ^ sh"
proof -
  have "N < 2 ^ 32 * 2 ^ 32" using assms(3) by simp
  also have "\<dots> \<le> (2 :: nat) ^ 32 * 2 ^ sh" using assms(1) by (intro mult_left_mono power_increasing) auto
  finally have "N div 2 ^ sh < 2 ^ 32" by (rule less_mult_imp_div_less)
  then show "unat (ucast (drop_bit sh (of_nat N :: u64)) :: u32) = N div 2 ^ sh"
    using assms(3) by (simp add: unsigned_ucast_eq unat_drop_bit unat_of_nat_small take_bit_nat_eq_self)
  show "unat (of_nat N AND (push_bit sh 1 - 1) :: u64) = N mod 2 ^ sh"
    by (simp only: unat_and_one_minus [OF assms(2)] unat_of_nat_small [OF assms(3)])
qed

text \<open>Both loops, one after the other.\<close>

lemma digit_loops_spec:
  fixes p1 pow10 :: u32 and p2 delta dst :: u64
  assumes sh: "sh \<le> 60" and R: "unat p1 * 2 ^ sh + unat p2 = N" "N < 2 ^ 64" "unat p2 < 2 ^ sh"
    and delta: "unat delta = N - m" "unat dst \<le> unat delta" "0 < m" "m \<le> N" "N \<le> (N - m) * 10 ^ 16"
    and k: "1 \<le> k" "k \<le> 10" "unat pow10 = 10 ^ (k - 1)" "10 ^ (k - 1) \<le> unat p1" "unat p1 < 10 ^ k"
    and F: "\<And>g. F g = ebind (integral_digits sh k p1 p2 pow10 delta dst g)
      (\<lambda>r. case r of Inr g \<Rightarrow> Inr g
         | Inl g \<Rightarrow> ebind (json_assert (delta < p2)) (\<lambda>_. fractional_digits sh (push_bit sh 1) p2 delta dst 0 g))"
  shows "\<exists>ds j. digits_between sh m N ds j \<and> appends F ds j (\<lambda>g. g)"
proof -
  note hd0 = leading_digit [OF k(1,4,5)]
  have N64: "unat p1 * 2 ^ sh + unat p2 < 2 ^ 64" and dN: "unat delta < unat p1 * 2 ^ sh + unat p2" and mN: "N - (N - m) = m"
    using R delta by simp_all
  consider es where "stops_with sh k N (N - m) es" "length es = 1 \<or> hd es = digit_char (unat p1 div 10 ^ (k - 1))"
      "appends (integral_digits sh k p1 p2 pow10 delta dst) es (int (k - length es)) Inr"
    | es where "length es = k" "decimal_text es" "hd es = digit_char (unat p1 div 10 ^ (k - 1))" "digits_val es = unat p1"
      "unat delta < unat p2" "appends (integral_digits sh k p1 p2 pow10 delta dst) es 0 Inl"
    using integral_digits_spec [OF R(3) delta(2) k(5) disjI2 [OF k(3)] N64 dN] k(1) unfolding R delta(1) by auto
  then show ?thesis
  proof cases
    case 1
    have "appends F es (int (k - length es)) (\<lambda>g. g)" using 1(3) by (simp add: appends_def F)
    moreover have "digits_between sh m N es (int (k - length es))"
      using digits_between_stopped [OF 1(1) k(2)] 1(2) hd0 delta unfolding mN by auto
    ultimately show ?thesis by blast
  next
    case 2
    have "10 ^ (k - 1) * 2 ^ sh \<le> unat p1 * 2 ^ sh" using k(4) by simp
    then have "10 ^ (k - 1) * 2 ^ sh \<le> unat delta * 10 ^ 16" using delta(5) R unfolding delta(1) by linarith
    note L = digits_left [OF this k(1,2)]
    obtain fs where fs: "fs \<noteq> []" "length fs \<le> 17 - k" "decimal_text fs"
        "appends (fractional_digits sh (push_bit sh 1) p2 delta dst 0) fs (- int (length fs)) (\<lambda>g. g)"
        "digits_val fs * 2 ^ sh \<le> unat p2 * 10 ^ length fs"
        "unat p2 * 10 ^ length fs \<le> digits_val fs * 2 ^ sh + unat delta * 10 ^ length fs"
      using fractional_digits_spec [OF sh refl R(3) 2(5) delta(2) L, of 0] by auto
    have "appends F (es @ fs) (- int (length fs)) (\<lambda>g. g)"
      using 2(5,6) fs(4) by (simp add: appends_def F word_less_nat_alt add.commute)
    moreover have "es \<noteq> []" "length es + length fs \<le> 17" using 2(1) k(1,2) fs(2) by auto
    moreover from this have "digits_between sh m N (es @ fs) (- int (length fs))"
      using digits_between_fraction [OF 2(4) R(1) [symmetric], of "unat delta" fs] 2 fs hd0 delta unfolding delta(1) mN by auto
    ultimately show ?thesis by blast
  qed
qed

lemma grisu2_digit_gen_spec:
  assumes e: "- 60 \<le> e" "e \<le> - 32" and order: "0 < m" "m \<le> w" "w \<le> N" "N < 2 ^ 64" and N: "2 ^ 60 \<le> N" "N \<le> (N - m) * 10 ^ 16"
  obtains ds j where "digits_between (nat (- e)) m N ds j"
    "appends (grisu2_digit_gen \<lparr>df = of_nat m, de = e\<rparr> \<lparr>df = of_nat w, de = e\<rparr> \<lparr>df = of_nat N, de = e\<rparr>) ds j (\<lambda>g. g)"
proof -
  define sh where "sh = nat (- e)"
  have sh: "32 \<le> sh" "sh \<le> 60" using e by (simp_all add: sh_def)
  have u: "unat (of_nat m :: u64) = m" "unat (of_nat w :: u64) = w" "unat (of_nat N :: u64) = N"
    using order by (simp_all add: unat_of_nat_small)
  define delta dst :: u64 where "delta = of_nat N - of_nat m" and "dst = of_nat N - of_nat w"
  have dd: "unat delta = N - m" "unat dst \<le> unat delta" using order by (simp_all add: delta_def dst_def unat_sub word_le_nat_alt u)
  define p1 :: u32 where "p1 = ucast (drop_bit sh (of_nat N :: u64))"
  define p2 :: u64 where "p2 = of_nat N AND (push_bit sh 1 - 1)"
  note p = boundary_parts [OF sh order(4), folded p1_def p2_def]
  have R: "unat p1 * 2 ^ sh + unat p2 = N" "unat p2 < 2 ^ sh" unfolding p by (simp_all add: div_mult_mod_eq)
  have "(2 :: nat) ^ sh \<le> 2 ^ 60" using sh(2) by (rule power_increasing) simp
  then have pos: "0 < p1" using N(1) p(1) by (simp add: word_less_nat_alt div_greater_zero_iff)
  obtain k pow10 where k: "find_largest_pow10 p1 = (k, pow10)" "1 \<le> k" "k \<le> 10" "unat pow10 = 10 ^ (k - 1)"
      "10 ^ (k - 1) \<le> unat p1" "unat p1 < 10 ^ k"
    by (rule find_largest_pow10_spec [OF pos])
  have F: "grisu2_digit_gen \<lparr>df = of_nat m, de = e\<rparr> \<lparr>df = of_nat w, de = e\<rparr> \<lparr>df = of_nat N, de = e\<rparr> g =
      ebind (integral_digits sh k p1 p2 pow10 delta dst g)
      (\<lambda>r. case r of Inr g \<Rightarrow> Inr g
         | Inl g \<Rightarrow> ebind (json_assert (delta < p2)) (\<lambda>_. fractional_digits sh (push_bit sh 1) p2 delta dst 0 g))" for g
    using e order pos
    by (simp add: grisu2_digit_gen_def diyfp_sub_def word_le_nat_alt u Let_def sh_def [symmetric] p1_def [symmetric]
        p2_def [symmetric] k(1) delta_def [symmetric] dst_def [symmetric] del: push_bit_of_1 cong: sum.case_cong)
  have "m \<le> N" using order by simp
  then show thesis
    using digit_loops_spec [OF sh(2) R(1) order(4) R(2) dd order(1) _ N(2) k(2-6) F] that unfolding sh_def by blast
qed

section \<open>The shortest digits of a double\<close>

lemma cached_power_exponent: "(c, e, k) \<in> set kCachedPowers \<Longrightarrow> - 300 \<le> k \<and> k \<le> 324"
proof -
  have "list_all (\<lambda>(c, e, k). - 300 \<le> k \<and> k \<le> 324) kCachedPowers" by code_simp
  then show "(c, e, k) \<in> set kCachedPowers \<Longrightarrow> ?thesis" by (auto simp: list_all_iff)
qed

lemma diyfp_mul_of_nat:
  assumes "x < 2 ^ 64"
  shows "diyfp_mul \<lparr>df = of_nat x, de = e\<rparr> \<lparr>df = c, de = ce\<rparr> = \<lparr>df = of_nat ((x * unat c + 2 ^ 63) div 2 ^ 64), de = e + ce + 64\<rparr>"
proof -
  note m = diyfp_mul_rounds [of "\<lparr>df = of_nat x, de = e\<rparr>" "\<lparr>df = c, de = ce\<rparr>", unfolded diyfp.simps unat_of_nat_small [OF assms]]
  have "df (diyfp_mul \<lparr>df = of_nat x, de = e\<rparr> \<lparr>df = c, de = ce\<rparr>) = of_nat ((x * unat c + 2 ^ 63) div 2 ^ 64)"
    using arg_cong [OF conjunct1 [OF m], of "of_nat :: nat \<Rightarrow> u64"] by simp
  with m show ?thesis by simp
qed

lemma grisu2_boundaries_scaled:
  fixes m v p :: nat
  assumes "m < 2 ^ 64" "v < 2 ^ 64" "p < 2 ^ 64" "get_cached_power_for_binary_exponent E = Inr (c, ce, ck)"
    and "1 \<le> (p * unat c + 2 ^ 63) div 2 ^ 64"
  shows "grisu2_boundaries \<lparr>df = of_nat m, de = E\<rparr> \<lparr>df = of_nat v, de = E\<rparr> \<lparr>df = of_nat p, de = E\<rparr> g =
    grisu2_digit_gen \<lparr>df = of_nat ((m * unat c + 2 ^ 63) div 2 ^ 64 + 1), de = E + ce + 64\<rparr>
      \<lparr>df = of_nat ((v * unat c + 2 ^ 63) div 2 ^ 64), de = E + ce + 64\<rparr>
      \<lparr>df = of_nat ((p * unat c + 2 ^ 63) div 2 ^ 64 - 1), de = E + ce + 64\<rparr> (g\<lparr>dg_exp := - ck\<rparr>)"
proof -
  define a b d where "a = (m * unat c + 2 ^ 63) div 2 ^ 64" and "b = (v * unat c + 2 ^ 63) div 2 ^ 64" and "d = (p * unat c + 2 ^ 63) div 2 ^ 64"
  have "(of_nat d - 1 :: u64) = of_nat (d - 1)" using assms(5) unfolding d_def [symmetric] by (simp add: of_nat_diff)
  then show ?thesis
    using assms(4) diyfp_mul_of_nat [OF assms(1), of E c ce, folded a_def] diyfp_mul_of_nat [OF assms(2), of E c ce, folded b_def]
      diyfp_mul_of_nat [OF assms(3), of E c ce, folded d_def]
    unfolding a_def [symmetric] b_def [symmetric] d_def [symmetric] by (simp add: grisu2_boundaries_def Let_def add.commute)
qed

text \<open>Back from scaled numbers to the double.\<close>

lemma unscale_less:
  assumes "sh = nat (- (e - 1 - int s + ce + 64))" "e - 1 - int s + ce + 64 \<le> 0"
  shows "D * 10 powi j * 2 ^ sh < A * 2 ^ s * scale ce ck \<longleftrightarrow> D * 10 powi (- ck + j) < A / 2 * 2 powi e"
    and "A * 2 ^ s * scale ce ck < D * 10 powi j * 2 ^ sh \<longleftrightarrow> A / 2 * 2 powi e < D * 10 powi (- ck + j)"
proof -
  have "(2 :: real) ^ sh = 2 powi int sh" by (simp add: power_int_of_nat)
  also have "int sh = - (e - 1 - int s) + - (ce + 64)" using assms by simp
  also have "(2 :: real) powi (- (e - 1 - int s) + - (ce + 64)) = 2 powi - (e - 1 - int s) * 2 powi - (ce + 64)" by (rule power_int_add) simp
  finally have p: "(2 :: real) ^ sh = 2 powi - (e - 1 - int s) * 2 powi - (ce + 64)" .
  define t where "t = (10 :: real) powi ck * 2 powi - (e - 1 - int s) * 2 powi - (ce + 64)"
  have t: "0 < t" by (simp add: t_def)
  have "(10 :: real) powi j = 10 powi (ck + (- ck + j))" by simp
  also have "\<dots> = 10 powi ck * 10 powi (- ck + j)" by (rule power_int_add) simp
  finally have D: "D * 10 powi j * 2 ^ sh = D * 10 powi (- ck + j) * t"
    unfolding p t_def by simp
  define B C where "B = (2 :: real) powi (e - 1 - int s)" and "C = (2 :: real) powi (ce + 64)"
  have BC: "B \<noteq> 0" "C \<noteq> 0" by (simp_all add: B_def C_def)
  have e: "(2 :: real) powi e = B * 2 ^ s * 2" unfolding B_def power_int_of_nat [symmetric] by (simp add: power_int_diff)
  have A: "A * 2 ^ s * scale ce ck = A / 2 * 2 powi e * t"
    unfolding scale_def t_def power_int_minus B_def [symmetric] C_def [symmetric] e using BC by (simp add: field_simps)
  show "D * 10 powi j * 2 ^ sh < A * 2 ^ s * scale ce ck \<longleftrightarrow> D * 10 powi (- ck + j) < A / 2 * 2 powi e"
    and "A * 2 ^ s * scale ce ck < D * 10 powi j * 2 ^ sh \<longleftrightarrow> A / 2 * 2 powi e < D * 10 powi (- ck + j)"
    unfolding D A by (rule mult_less_cancel_right_pos [OF t])+
qed

text \<open>A text that is the decimal form of the double with significand \<open>f\<close> and exponent \<open>e\<close>.\<close>

definition digits_for :: "nat \<Rightarrow> int \<Rightarrow> string \<Rightarrow> int \<Rightarrow> bool" where
  "digits_for f e ds y \<longleftrightarrow>
     ds \<noteq> [] \<and> length ds \<le> 17 \<and> decimal_text ds \<and> hd ds \<noteq> CHR ''0'' \<and> - 400 \<le> y \<and> y \<le> 400 \<and>
     (real f - (if lower_closer f e then 1 / 4 else 1 / 2)) * 2 powi e < real (digits_val ds) * 10 powi y \<and>
     real (digits_val ds) * 10 powi y < (real f + 1 / 2) * 2 powi e"

lemma grisu2_spec:
  assumes "isfinite x" "double_positive x"
  obtains f e ds y where "significand_ok f e" "unat x = double_value f e" "digits_for f e ds y"
    "\<And>pre post. 17 \<le> length post \<Longrightarrow> grisu2 x (digits_in pre [] post 0) = Inr (digits_in pre ds (drop (length ds) post) y)"
proof -
  obtain f e s where fe: "significand_ok f e" "unat x = double_value f e" and s: "10 \<le> s" "s \<le> 62"
    "2 ^ 63 \<le> f * 2 ^ (s + 1)" "(2 * f + 1) * 2 ^ s < 2 ^ 64"
    and cb: "compute_boundaries x = Inr
       \<lparr>b_w = \<lparr>df = of_nat (f * 2 ^ (s + 1)), de = e - 1 - int s\<rparr>,
        b_minus = \<lparr>df = of_nat (lower_bound f e s), de = e - 1 - int s\<rparr>,
        b_plus = \<lparr>df = of_nat ((2 * f + 1) * 2 ^ s), de = e - 1 - int s\<rparr>\<rparr>"
    by (rule boundaries_spec [OF assms])
  define E where "E = e - 1 - int s"
  have "- 1137 \<le> E" "E \<le> 960" using fe(1) s(1,2) by (auto simp: E_def significand_ok_def)
  then obtain c ce ck where c: "get_cached_power_for_binary_exponent E = Inr (c, ce, ck)" "(c, ce, ck) \<in> set kCachedPowers"
      "- 60 \<le> ce + E + 64" "ce + E + 64 \<le> - 32" "2 ^ 63 \<le> unat c"
    by (rule cached_power_found)
  note safe = safe_boundaries [OF fe(1) s(1,3,4) c(5) cached_power_accurate [OF c(2)]]
  define Wp W Wm where "Wp = ((2 * f + 1) * 2 ^ s * unat c + 2 ^ 63) div 2 ^ 64"
    and "W = (f * 2 ^ (s + 1) * unat c + 2 ^ 63) div 2 ^ 64" and "Wm = (lower_bound f e s * unat c + 2 ^ 63) div 2 ^ 64"
  note safe' = safe [folded Wp_def W_def Wm_def]
  have w64: "f * 2 ^ (s + 1) < 2 ^ 64" using s(4) by (simp add: algebra_simps)
  have lb64: "lower_bound f e s < 2 ^ 64" by (rule lower_bound_less [OF fe(1) s(1,4)])
  have Wp64: "Wp < 2 ^ 64" using rounded_product_less [OF s(4), of c] by (simp add: Wp_def)
  define mm ww pp where "mm = \<lparr>df = of_nat (Wm + 1), de = E + ce + 64\<rparr>" and "ww = \<lparr>df = of_nat W, de = E + ce + 64\<rparr>"
    and "pp = \<lparr>df = of_nat (Wp - 1) :: u64, de = E + ce + 64\<rparr>"
  have gr: "grisu2 x g = grisu2_digit_gen mm ww pp (g\<lparr>dg_exp := - ck\<rparr>)" for g
    using assms grisu2_boundaries_scaled [OF lb64 w64 s(4) c(1), folded Wp_def W_def Wm_def] safe'(2)
    by (simp only: grisu2_def cb E_def [symmetric] mm_def ww_def pp_def json_assert_True ebind_Inr boundaries.simps)
  have e': "- 60 \<le> E + ce + 64" "E + ce + 64 \<le> - 32" using c(3,4) by simp_all
  obtain ds j where ds: "digits_between (nat (- (E + ce + 64))) (Wm + 1) (Wp - 1) ds j" "appends (grisu2_digit_gen mm ww pp) ds j (\<lambda>g. g)"
    unfolding mm_def ww_def pp_def
    by (rule grisu2_digit_gen_spec [OF e', of "Wm + 1" W "Wp - 1"]) (use safe'(1-4) Wp64 in auto)
  have "digits_for f e ds (- ck + j)"
  proof -
    define sh where "sh = nat (- (E + ce + 64))"
    have "E + ce + 64 \<le> 0" using e' by simp
    note un = unscale_less [OF sh_def [unfolded E_def] this [unfolded E_def]]
    have "real (digits_val ds) * 10 powi j * 2 ^ sh < (2 * real f + 1) * 2 ^ s * scale ce ck"
      "(2 * real f - (if lower_closer f e then 1 / 2 else 1)) * 2 ^ s * scale ce ck < real (digits_val ds) * 10 powi j * 2 ^ sh"
      using ds(1) safe'(5,6) unfolding digits_between_def sh_def [symmetric] by linarith+
    then have "real (digits_val ds) * 10 powi (- ck + j) < (2 * real f + 1) / 2 * 2 powi e"
      "(2 * real f - (if lower_closer f e then 1 / 2 else 1)) / 2 * 2 powi e < real (digits_val ds) * 10 powi (- ck + j)"
      unfolding un by blast+
    moreover have "(2 * real f + 1) / 2 = real f + 1 / 2"
      "(2 * real f - (if lower_closer f e then 1 / 2 else 1)) / 2 = real f - (if lower_closer f e then 1 / 4 else 1 / 2)" by simp_all
    ultimately show ?thesis using ds(1) cached_power_exponent [OF c(2)] by (simp add: digits_for_def digits_between_def)
  qed
  moreover have "grisu2 x (digits_in pre [] post 0) = Inr (digits_in pre ds (drop (length ds) post) (- ck + j))"
    if "17 \<le> length post" for pre post
  proof -
    have "digits_in pre [] post 0\<lparr>dg_exp := - ck\<rparr> = digits_in pre [] post (- ck)" by (simp add: digits_in_def)
    moreover have "length ds \<le> length post" using ds(1) that by (simp add: digits_between_def)
    ultimately show ?thesis using ds(2) by (simp add: gr appends_def)
  qed
  ultimately show thesis by (rule that [OF fe])
qed

end
