(* ===== verification/Json_Parser.thy ===== *)
theory Json_Parser
  imports Json_Lexer
begin

text \<open>
  The parser of \<^verbatim>\<open>src/src/ext/nlohmann/json.hpp\<close>: the event handler that builds a value
  (\<open>detail::json_sax_dom_parser\<close>), the loop that turns tokens into events
  (\<open>detail::parser::sax_parse_internal\<close>) and \<open>basic_json::parse\<close>, without a callback.  The handler
  keeps pointers into the value under construction; a pointer is modelled by the path from the root
  to its target, and following a path that leads nowhere is undefined behaviour.
\<close>

section \<open>Pointers into a value\<close>

datatype path_step = Elem nat | Key string

type_synonym path = "path_step list"

fun json_deref :: "json \<Rightarrow> path \<Rightarrow> json option" where
  "json_deref j [] = Some j"
| "json_deref (JArray xs) (Elem i # p) = (if i < length xs then json_deref (xs ! i) p else None)"
| "json_deref (JObject m) (Key k # p) =
     (case map_find m k of None \<Rightarrow> None | Some v \<Rightarrow> json_deref v p)"
| "json_deref _ _ = None"

fun json_store :: "json \<Rightarrow> path \<Rightarrow> json \<Rightarrow> json option" where
  "json_store j [] v = Some v"
| "json_store (JArray xs) (Elem i # p) v =
     (if i < length xs
      then map_option (\<lambda>x. JArray (xs[i := x])) (json_store (xs ! i) p v) else None)"
| "json_store (JObject m) (Key k # p) v =
     (case map_find m k of
        None \<Rightarrow> None
      | Some w \<Rightarrow> map_option (\<lambda>x. JObject (map_put m k x)) (json_store w p v))"
| "json_store _ _ _ = None"

definition deref :: "json \<Rightarrow> path \<Rightarrow> failure + json" where
  "deref j p = (case json_deref j p of None \<Rightarrow> Inl Undefined_behaviour | Some v \<Rightarrow> Inr v)"

definition store :: "json \<Rightarrow> path \<Rightarrow> json \<Rightarrow> failure + json" where
  "store j p v = (case json_store j p v of None \<Rightarrow> Inl Undefined_behaviour | Some j' \<Rightarrow> Inr j')"

section \<open>Building the value\<close>

record sax =
  root :: json
  ref_stack :: "path list"
  object_element :: "path option"
  errored :: bool
  sax_allow_exceptions :: bool

definition handle_value :: "json \<Rightarrow> sax \<Rightarrow> failure + path \<times> sax" where
  "handle_value v sx =
     (if ref_stack sx = [] then Inr ([], sx\<lparr>root := v\<rparr>)
      else
        let back = last (ref_stack sx) in
        ebind (deref (root sx) back)
          (\<lambda>j. ebind (json_assert (is_array j \<or> is_object j))
            (\<lambda>_. case j of
               JArray xs \<Rightarrow>
                 ebind (store (root sx) back (JArray (xs @ [v])))
                   (\<lambda>r. Inr (back @ [Elem (length xs)], sx\<lparr>root := r\<rparr>))
             | _ \<Rightarrow>
                 ebind (json_assert (is_object j))
                   (\<lambda>_. case object_element sx of
                      None \<Rightarrow> Inl Assertion_failed
                    | Some p \<Rightarrow>
                        ebind (store (root sx) p v) (\<lambda>r. Inr (p, sx\<lparr>root := r\<rparr>))))))"

definition sax_value :: "json \<Rightarrow> sax \<Rightarrow> failure + sax" where
  "sax_value v sx = ebind (handle_value v sx) (\<lambda>(p, sx). Inr sx)"

text \<open>The length passed to \<open>start_object\<close> and \<open>start_array\<close> is always \<open>unknown_size()\<close>.\<close>

definition start_container :: "json \<Rightarrow> sax \<Rightarrow> failure + sax" where
  "start_container v sx =
     ebind (handle_value v sx) (\<lambda>(p, sx). Inr (sx\<lparr>ref_stack := ref_stack sx @ [p]\<rparr>))"

definition start_object :: "sax \<Rightarrow> failure + sax" where
  "start_object sx = start_container (JObject []) sx"

definition start_array :: "sax \<Rightarrow> failure + sax" where
  "start_array sx = start_container (JArray []) sx"

definition sax_key :: "string \<Rightarrow> sax \<Rightarrow> failure + sax" where
  "sax_key val sx =
     ebind (json_assert (ref_stack sx \<noteq> []))
       (\<lambda>_. let back = last (ref_stack sx) in
         ebind (deref (root sx) back)
           (\<lambda>j. case j of
              JObject m \<Rightarrow>
                ebind (store (root sx) back (JObject (map_emplace m val JNull)))
                  (\<lambda>r. Inr (sx\<lparr>root := r, object_element := Some (back @ [Key val])\<rparr>))
            | _ \<Rightarrow> Inl Assertion_failed))"

definition end_container :: "(json \<Rightarrow> bool) \<Rightarrow> sax \<Rightarrow> failure + sax" where
  "end_container is_kind sx =
     ebind (json_assert (ref_stack sx \<noteq> []))
       (\<lambda>_. ebind (deref (root sx) (last (ref_stack sx)))
         (\<lambda>j. ebind (json_assert (is_kind j))
           (\<lambda>_. Inr (sx\<lparr>ref_stack := butlast (ref_stack sx)\<rparr>))))"

definition end_object :: "sax \<Rightarrow> failure + sax" where
  "end_object sx = end_container is_object sx"

definition end_array :: "sax \<Rightarrow> failure + sax" where
  "end_array sx = end_container is_array sx"

text \<open>\<open>parse_error\<close>: \<open>ex\<close> is the exception that is thrown when exceptions are allowed.\<close>

definition sax_parse_error :: "failure \<Rightarrow> sax \<Rightarrow> failure + sax" where
  "sax_parse_error ex sx =
     (let sx = sx\<lparr>errored := True\<rparr> in if sax_allow_exceptions sx then Inl ex else Inr sx)"

section \<open>From tokens to events\<close>

record parser =
  last_token :: token_type
  m_lexer :: lexer
  allow_exceptions :: bool
  ignore_trailing_commas :: bool

definition get_token :: "parser \<Rightarrow> failure + parser" where
  "get_token p = ebind (scan (m_lexer p)) (\<lambda>(t, lx). Inr (p\<lparr>last_token := t, m_lexer := lx\<rparr>))"

definition parser_new :: "string \<Rightarrow> bool \<Rightarrow> bool \<Rightarrow> bool \<Rightarrow> failure + parser" where
  "parser_new adapter allow comments trailing =
     get_token \<lparr>last_token = TK_uninitialized, m_lexer = lexer_new adapter comments,
                allow_exceptions = allow, ignore_trailing_commas = trailing\<rparr>"

definition exception_message :: "parser \<Rightarrow> token_type \<Rightarrow> string \<Rightarrow> string" where
  "exception_message p expected ctxt =
     ''syntax error '' @
     (if ctxt \<noteq> '''' then ''while parsing '' @ ctxt @ '' '' else '''') @ ''- '' @
     (if last_token p = TK_parse_error
      then error_message (m_lexer p) @ ''; last read: '' @ quoted (get_token_string (m_lexer p))
      else ''unexpected '' @ token_type_name (last_token p)) @
     (if expected \<noteq> TK_uninitialized then ''; expected '' @ token_type_name expected else '''')"

text \<open>
  The local variables of \<open>sax_parse_internal\<close> beside the parser and the handler.  A branch of the
  loop's body either goes on to the evaluation of the state (\<open>Break\<close>), starts the next iteration
  (\<open>Continue\<close>) or returns from the function.
\<close>

record parse_state =
  ps_parser :: parser
  ps_sax :: sax
  ps_states :: "bool list"
  ps_skip :: bool

datatype branch = Break | Continue | Return bool

definition next_token :: "parse_state \<Rightarrow> failure + parse_state" where
  "next_token st = ebind (get_token (ps_parser st)) (\<lambda>p. Inr (st\<lparr>ps_parser := p\<rparr>))"

abbreviation ps_token :: "parse_state \<Rightarrow> token_type" where
  "ps_token st \<equiv> last_token (ps_parser st)"

definition return_error :: "failure \<Rightarrow> parse_state \<Rightarrow> failure + branch \<times> parse_state" where
  "return_error ex st =
     ebind (sax_parse_error ex (ps_sax st)) (\<lambda>sx. Inr (Return False, st\<lparr>ps_sax := sx\<rparr>))"

definition syntax_error :: "token_type \<Rightarrow> string \<Rightarrow> parse_state \<Rightarrow> failure + branch \<times> parse_state" where
  "syntax_error expected ctxt st =
     return_error (Parse_error 101 (exception_message (ps_parser st) expected ctxt)) st"

definition emit :: "(sax \<Rightarrow> failure + sax) \<Rightarrow> parse_state \<Rightarrow> failure + branch \<times> parse_state" where
  "emit event st = ebind (event (ps_sax st)) (\<lambda>sx. Inr (Break, st\<lparr>ps_sax := sx\<rparr>))"

text \<open>A key and its separator: \<open>Break\<close> when both are there.\<close>

definition parse_key :: "parse_state \<Rightarrow> failure + branch \<times> parse_state" where
  "parse_key st =
     (if ps_token st \<noteq> TK_value_string then syntax_error TK_value_string ''object key'' st
      else
        ebind (lex_get_string (m_lexer (ps_parser st)))
          (\<lambda>s. ebind (sax_key s (ps_sax st))
            (\<lambda>sx. ebind (next_token (st\<lparr>ps_sax := sx\<rparr>))
              (\<lambda>st. if ps_token st \<noteq> TK_name_separator
                   then syntax_error TK_name_separator ''object separator'' st
                   else Inr (Break, st)))))"

definition parse_begin_object :: "parse_state \<Rightarrow> failure + branch \<times> parse_state" where
  "parse_begin_object st =
     ebind (start_object (ps_sax st))
       (\<lambda>sx. ebind (next_token (st\<lparr>ps_sax := sx\<rparr>))
         (\<lambda>st. if ps_token st = TK_end_object then emit end_object st
               else
                 ebind (parse_key st)
                   (\<lambda>(b, st). if b \<noteq> Break then Inr (b, st)
                     else ebind (next_token (st\<lparr>ps_states := ps_states st @ [False]\<rparr>))
                            (\<lambda>st. Inr (Continue, st)))))"

definition parse_begin_array :: "parse_state \<Rightarrow> failure + branch \<times> parse_state" where
  "parse_begin_array st =
     ebind (start_array (ps_sax st))
       (\<lambda>sx. ebind (next_token (st\<lparr>ps_sax := sx\<rparr>))
         (\<lambda>st. if ps_token st = TK_end_array then emit end_array st
               else Inr (Continue, st\<lparr>ps_states := ps_states st @ [True]\<rparr>)))"

definition parse_float :: "parse_state \<Rightarrow> failure + branch \<times> parse_state" where
  "parse_float st =
     (let res = get_number_float (m_lexer (ps_parser st)) in
      if \<not> isfinite res then return_error (Json_out_of_range 406) st
      else ebind (lex_get_string (m_lexer (ps_parser st)))
             (\<lambda>_. emit (sax_value (JFloat res)) st))"

text \<open>The switch on the last token.\<close>

definition parse_value :: "parse_state \<Rightarrow> failure + branch \<times> parse_state" where
  "parse_value st =
     (let lx = m_lexer (ps_parser st) in
      case ps_token st of
        TK_begin_object \<Rightarrow> parse_begin_object st
      | TK_begin_array \<Rightarrow> parse_begin_array st
      | TK_value_float \<Rightarrow> parse_float st
      | TK_literal_false \<Rightarrow> emit (sax_value (JBoolean False)) st
      | TK_literal_null \<Rightarrow> emit (sax_value JNull) st
      | TK_literal_true \<Rightarrow> emit (sax_value (JBoolean True)) st
      | TK_value_integer \<Rightarrow> emit (sax_value (JInteger (get_number_integer lx))) st
      | TK_value_string \<Rightarrow> ebind (lex_get_string lx) (\<lambda>s. emit (sax_value (JString s)) st)
      | TK_value_unsigned \<Rightarrow> emit (sax_value (JUnsigned (get_number_unsigned lx))) st
      | TK_parse_error \<Rightarrow> syntax_error TK_uninitialized ''value'' st
      | TK_end_of_input \<Rightarrow>
          (if chars_read_total (position lx) = 1
           then return_error (Parse_error 101
             (''attempting to parse an empty input; check that your input string or stream '' @
              ''contains the expected JSON'')) st
           else syntax_error TK_literal_or_value ''value'' st)
      | _ \<Rightarrow> syntax_error TK_literal_or_value ''value'' st)"

text \<open>The end of a container: the event, and the state is evaluated again.\<close>

definition close_container :: "(sax \<Rightarrow> failure + sax) \<Rightarrow> parse_state \<Rightarrow> failure + branch \<times> parse_state" where
  "close_container event st =
     ebind (event (ps_sax st))
       (\<lambda>sx. ebind (json_assert (ps_states st \<noteq> []))
         (\<lambda>_. Inr (Continue, st\<lparr>ps_sax := sx, ps_states := butlast (ps_states st), ps_skip := True\<rparr>)))"

definition evaluate_array :: "parse_state \<Rightarrow> failure + branch \<times> parse_state" where
  "evaluate_array st =
     ebind (next_token st)
       (\<lambda>st. let closing = (\<lambda>st. if ps_token st = TK_end_array then close_container end_array st
                                  else syntax_error TK_end_array ''array'' st)
             in if ps_token st = TK_value_separator
                then ebind (next_token st)
                       (\<lambda>st. if ignore_trailing_commas (ps_parser st) \<and> ps_token st = TK_end_array
                             then closing st else Inr (Continue, st))
                else closing st)"

definition evaluate_object :: "parse_state \<Rightarrow> failure + branch \<times> parse_state" where
  "evaluate_object st =
     ebind (next_token st)
       (\<lambda>st. let closing = (\<lambda>st. if ps_token st = TK_end_object then close_container end_object st
                                  else syntax_error TK_end_object ''object'' st)
             in if ps_token st = TK_value_separator
                then ebind (next_token st)
                       (\<lambda>st. if ignore_trailing_commas (ps_parser st) \<and> ps_token st = TK_end_object
                             then closing st
                             else ebind (parse_key st)
                                    (\<lambda>(b, st). if b \<noteq> Break then Inr (b, st)
                                      else ebind (next_token st) (\<lambda>st. Inr (Continue, st))))
                else closing st)"

definition evaluate_state :: "parse_state \<Rightarrow> failure + branch \<times> parse_state" where
  "evaluate_state st =
     (if ps_states st = [] then Inr (Return True, st)
      else if last (ps_states st) then evaluate_array st
      else evaluate_object st)"

definition parse_step :: "parse_state \<Rightarrow> failure + branch \<times> parse_state" where
  "parse_step st =
     (if \<not> ps_skip st
      then ebind (parse_value st) (\<lambda>(b, st). if b = Break then evaluate_state st else Inr (b, st))
      else evaluate_state (st\<lparr>ps_skip := False\<rparr>))"

section \<open>Termination of the loop\<close>

definition ps_pending :: "parse_state \<Rightarrow> nat" where
  "ps_pending st = pending_len (m_lexer (ps_parser st))"

definition ps_measure :: "parse_state \<Rightarrow> nat" where
  "ps_measure st = 2 * ps_pending st + (if ends_parse (ps_token st) then 0 else 1)"

lemma ps_pending_simps [simp]:
  "ps_pending (st\<lparr>ps_sax := sx\<rparr>) = ps_pending st"
  "ps_pending (st\<lparr>ps_states := xs\<rparr>) = ps_pending st"
  "ps_pending (st\<lparr>ps_skip := b\<rparr>) = ps_pending st"
  by (simp_all add: ps_pending_def)

lemma next_token_pending:
  assumes "next_token st = Inr st'"
  shows "ps_pending st' \<le> ps_pending st"
    and "\<not> ends_parse (ps_token st') \<Longrightarrow> ps_pending st' < ps_pending st"
  using assms scan_consumes [of "m_lexer (ps_parser st)"]
  by (auto simp: next_token_def get_token_def ps_pending_def result_simps)

lemma syntax_error_Return: "syntax_error t c st = Inr (b, st') \<Longrightarrow> b = Return False"
  by (auto simp: syntax_error_def return_error_def result_simps)

lemma parse_key_pending:
  assumes "parse_key st = Inr (b, st')"
  shows "b = Return False \<or> b = Break \<and> ps_pending st' < ps_pending st"
  using assms next_token_pending
  by (fastforce simp: parse_key_def result_simps split: if_splits dest: syntax_error_Return)

lemma emit_Break: "emit ev st = Inr (b, st') \<Longrightarrow> b = Break \<and> ps_pending st' = ps_pending st \<and> ps_token st' = ps_token st"
  by (auto simp: emit_def result_simps ps_pending_def)

lemma parse_begin_object_measure:
  assumes "parse_begin_object st = Inr (b, st')"
  shows "b = Break \<and> ps_pending st' \<le> ps_pending st \<or> b = Return False \<or> b = Continue \<and> ps_pending st' < ps_pending st"
proof -
  obtain sx st1 where st1: "next_token (st\<lparr>ps_sax := sx\<rparr>) = Inr st1"
    and rest: "(if ps_token st1 = TK_end_object then emit end_object st1
               else
                 ebind (parse_key st1)
                   (\<lambda>(b, st). if b \<noteq> Break then Inr (b, st)
                     else ebind (next_token (st\<lparr>ps_states := ps_states st @ [False]\<rparr>))
                            (\<lambda>st. Inr (Continue, st)))) = Inr (b, st')"
    using assms by (auto simp: parse_begin_object_def result_simps)
  have le: "ps_pending st1 \<le> ps_pending st" using next_token_pending(1) [OF st1] by simp
  show ?thesis
  proof (cases "ps_token st1 = TK_end_object")
    case True
    then show ?thesis using rest le emit_Break [of end_object st1] by auto
  next
    case False
    then obtain b2 st2 where k: "parse_key st1 = Inr (b2, st2)"
        "(if b2 \<noteq> Break then Inr (b2, st2)
          else ebind (next_token (st2\<lparr>ps_states := ps_states st2 @ [False]\<rparr>)) (\<lambda>st. Inr (Continue, st))) =
         Inr (b, st')"
      using rest by (auto simp: result_simps)
    show ?thesis
      using k(2) parse_key_pending [OF k(1)] le
        next_token_pending(1) [of "st2\<lparr>ps_states := ps_states st2 @ [False]\<rparr>"]
      by (fastforce simp: result_simps split: if_splits)
  qed
qed

lemma parse_begin_array_measure:
  assumes "parse_begin_array st = Inr (b, st')"
  shows "b = Break \<and> ps_pending st' \<le> ps_pending st \<or>
    b = Continue \<and> (ps_pending st' < ps_pending st \<or> ps_pending st' \<le> ps_pending st \<and> ends_parse (ps_token st'))"
proof -
  obtain sx st1 where st1: "next_token (st\<lparr>ps_sax := sx\<rparr>) = Inr st1"
    and rest: "(if ps_token st1 = TK_end_array then emit end_array st1
               else Inr (Continue, st1\<lparr>ps_states := ps_states st1 @ [True]\<rparr>)) = Inr (b, st')"
    using assms by (auto simp: parse_begin_array_def result_simps)
  show ?thesis
    using rest next_token_pending [OF st1] emit_Break [of end_array st1]
    by (cases "ends_parse (ps_token st1)") (auto split: if_splits)
qed

lemma return_error_Return: "return_error ex st = Inr (b, st') \<Longrightarrow> b = Return False"
  by (auto simp: return_error_def result_simps)

lemma parse_value_measure:
  assumes "parse_value st = Inr (b, st')"
  shows "b = Break \<and> ps_pending st' \<le> ps_pending st \<or> b = Return False \<or>
    b = Continue \<and> ps_measure st' < ps_measure st"
proof (cases "ps_token st = TK_begin_array \<or> ps_token st = TK_begin_object")
  case True
  then show ?thesis
    using assms parse_begin_array_measure [of st b st'] parse_begin_object_measure [of st b st']
    by (auto simp: parse_value_def ps_measure_def)
next
  case False
  then show ?thesis
    using assms
    by (auto simp: parse_value_def parse_float_def Let_def result_simps split: token_type.splits if_splits
        dest: emit_Break syntax_error_Return return_error_Return)
qed

lemma close_container_Continue:
  "close_container ev st = Inr (b, st') \<Longrightarrow> b = Continue \<and> ps_pending st' = ps_pending st"
  by (auto simp: close_container_def result_simps ps_pending_def)

lemma evaluate_array_measure:
  assumes "evaluate_array st = Inr (b, st')"
  shows "b = Return False \<or> b = Continue \<and> ps_pending st' < ps_pending st"
proof -
  obtain st1 where st1: "next_token st = Inr st1"
    using assms by (auto simp: evaluate_array_def result_simps)
  show ?thesis
    using assms st1 next_token_pending [OF st1] next_token_pending [of st1]
    by (fastforce simp: evaluate_array_def result_simps Let_def split: if_splits
        dest: syntax_error_Return close_container_Continue)
qed

lemma evaluate_object_measure:
  assumes "evaluate_object st = Inr (b, st')"
  shows "b = Return False \<or> b = Continue \<and> ps_pending st' < ps_pending st"
proof -
  obtain st1 where st1: "next_token st = Inr st1"
    using assms by (auto simp: evaluate_object_def result_simps)
  have le1: "ps_token st1 = TK_value_separator \<or> ps_token st1 = TK_end_object \<Longrightarrow> ps_pending st1 < ps_pending st"
    using next_token_pending [OF st1] by auto
  show ?thesis
  proof (cases "ps_token st1 = TK_value_separator")
    case True
    then obtain st2 where st2: "next_token st1 = Inr st2"
      using assms st1 by (auto simp: evaluate_object_def result_simps Let_def)
    show ?thesis
    proof (cases "ignore_trailing_commas (ps_parser st2) \<and> ps_token st2 = TK_end_object")
      case False
      then obtain b3 st3 where k: "parse_key st2 = Inr (b3, st3)"
          "(if b3 \<noteq> Break then Inr (b3, st3) else ebind (next_token st3) (\<lambda>st. Inr (Continue, st))) = Inr (b, st')"
        using assms st1 st2 True by (auto simp: evaluate_object_def result_simps Let_def)
      show ?thesis
        using k(2) parse_key_pending [OF k(1)] le1 True next_token_pending(1) [OF st2]
          next_token_pending(1) [of st3]
        by (fastforce simp: result_simps split: if_splits)
    qed (use assms st1 st2 True le1 next_token_pending(1) [OF st2] in
        \<open>auto simp: evaluate_object_def Let_def dest: close_container_Continue\<close>)
  next
    case False
    then show ?thesis
      using assms st1 le1
      by (auto simp: evaluate_object_def Let_def split: if_splits
          dest: close_container_Continue syntax_error_Return)
  qed
qed

lemma evaluate_state_measure:
  "evaluate_state st = Inr (b, st') \<Longrightarrow> (\<exists>r. b = Return r) \<or> b = Continue \<and> ps_pending st' < ps_pending st"
  using evaluate_array_measure [of st b st'] evaluate_object_measure [of st b st']
  by (auto simp: evaluate_state_def split: if_splits)

lemma ps_measure_less: "ps_pending st' < ps_pending st \<Longrightarrow> ps_measure st' < ps_measure st"
  by (simp add: ps_measure_def)

lemma parse_step_measure:
  assumes "parse_step st = Inr (b, st')"
  shows "(\<exists>r. b = Return r) \<or> b = Continue \<and> ps_measure st' < ps_measure st"
proof (cases "ps_skip st")
  case True
  then show ?thesis
    using assms evaluate_state_measure [of "st\<lparr>ps_skip := False\<rparr>" b st'] ps_measure_less [of st' st]
    by (auto simp: parse_step_def)
next
  case False
  then obtain b1 st1 where v: "parse_value st = Inr (b1, st1)"
      "(if b1 = Break then evaluate_state st1 else Inr (b1, st1)) = Inr (b, st')"
    using assms by (auto simp: parse_step_def result_simps)
  then show ?thesis
    using parse_value_measure [OF v(1)] evaluate_state_measure [of st1 b st'] ps_measure_less [of st' st]
    by (fastforce split: if_splits)
qed

function sax_parse_internal :: "parse_state \<Rightarrow> failure + bool \<times> parse_state" where
  "sax_parse_internal st =
     ebind (parse_step st)
       (\<lambda>(b, st). case b of Return r \<Rightarrow> Inr (r, st) | _ \<Rightarrow> sax_parse_internal st)"
  by pat_completeness auto
termination
proof (relation "measure ps_measure", goal_cases)
  case (2 st p b st')
  then show ?case using parse_step_measure [of st b st'] by auto
next
  case (3 st p b st')
  then show ?case using parse_step_measure [of st b st'] by auto
qed simp

declare sax_parse_internal.simps [simp del]

section \<open>The public functions\<close>

definition parser_parse :: "bool \<Rightarrow> parser \<Rightarrow> failure + json" where
  "parser_parse strict p =
     ebind (sax_parse_internal
              \<lparr>ps_parser = p,
               ps_sax = \<lparr>root = JNull, ref_stack = [], object_element = None, errored = False,
                         sax_allow_exceptions = allow_exceptions p\<rparr>,
               ps_states = [], ps_skip = False\<rparr>)
       (\<lambda>(_, st).
          ebind (if strict
                 then ebind (next_token st)
                        (\<lambda>st. if ps_token st \<noteq> TK_end_of_input
                              then ebind (syntax_error TK_end_of_input ''value'' st) (\<lambda>(_, st). Inr st)
                              else Inr st)
                 else Inr st)
            (\<lambda>st. if errored (ps_sax st) then Inr JDiscarded else Inr (root (ps_sax st))))"

definition json_parse :: "string \<Rightarrow> bool \<Rightarrow> failure + json" where
  "json_parse i allow = ebind (parser_new i allow False False) (parser_parse True)"

end
