(* ===== verification/Json_Parse.thy ===== *)
theory Json_Parse
  imports Json_Parser Json_Tokens
begin

text \<open>
  What the parser computes.  The stack of pointers into the value under construction is related to a
  stack of open containers, the lexer to the text still to be read; with these, every step of the
  loop is an operation on containers and lexemes.  From that: parsing with exceptions off returns a
  value for every text, and the values it returns are well formed.
\<close>

section \<open>Open containers\<close>

text \<open>
  An object under construction has a key that waits for its value or none.  The outer containers are
  listed from the root; each excludes the child that is still open.
\<close>

datatype frame = FArr "json list" | FObj "(string \<times> json) list" "string option"

fun close_frame :: "frame \<Rightarrow> json" where
  "close_frame (FArr xs) = JArray xs"
| "close_frame (FObj m k) = JObject m"

fun add_child :: "frame \<Rightarrow> json \<Rightarrow> json" where
  "add_child (FArr xs) v = JArray (xs @ [v])"
| "add_child (FObj m (Some k)) v = JObject (map_put m k v)"
| "add_child (FObj m None) v = JObject m"

fun put_child :: "frame \<Rightarrow> json \<Rightarrow> frame" where
  "put_child (FArr xs) v = FArr (xs @ [v])"
| "put_child (FObj m (Some k)) v = FObj (map_put m k v) None"
| "put_child (FObj m None) v = FObj m None"

fun step_of :: "frame \<Rightarrow> path_step" where
  "step_of (FArr xs) = Elem (length xs)"
| "step_of (FObj m (Some k)) = Key k"
| "step_of (FObj m None) = Key ''''"

fun wants_value :: "frame \<Rightarrow> bool" where
  "wants_value (FArr xs) = True"
| "wants_value (FObj m k) = (\<exists>key. k = Some key \<and> map_find m key \<noteq> None)"

fun is_farr :: "frame \<Rightarrow> bool" where
  "is_farr (FArr xs) = True"
| "is_farr (FObj m k) = False"

fun plug :: "frame list \<Rightarrow> json \<Rightarrow> json" where
  "plug [] v = v"
| "plug (f # fs) v = add_child f (plug fs v)"

lemma plug_append: "plug (fs @ gs) v = plug fs (plug gs v)"
  by (induction fs) auto

lemma close_put_child: "wants_value f \<Longrightarrow> close_frame (put_child f v) = add_child f v"
  by (cases f rule: wants_value.cases) auto

lemma deref_plug:
  "list_all wants_value fs \<Longrightarrow> json_deref (plug fs v) (map step_of fs @ p) = json_deref v p"
proof (induction fs)
  case (Cons f fs)
  then show ?case by (cases f) (auto simp: map_find_put)
qed simp

lemma store_plug:
  "list_all wants_value fs \<Longrightarrow>
   json_store (plug fs v) (map step_of fs @ p) w = map_option (plug fs) (json_store v p w)"
proof (induction fs)
  case (Cons f fs)
  then show ?case
    by (cases f; cases "json_store v p w") (auto simp: map_find_put map_put_put)
qed (cases "json_store v p w", auto)

section \<open>The event handler on open containers\<close>

text \<open>\<open>None\<close> is the handler before the first container is opened.\<close>

type_synonym stack = "(frame list \<times> frame) option"

definition prefixes :: "'a list \<Rightarrow> 'a list list" where
  "prefixes xs = map (\<lambda>i. take i xs) [0..<Suc (length xs)]"

lemma prefixes_snoc: "prefixes (xs @ [x]) = prefixes xs @ [xs @ [x]]"
  by (auto simp: prefixes_def)

lemma prefixes_simps [simp]: "prefixes xs \<noteq> []" "last (prefixes xs) = xs" "prefixes [] = [[]]"
  by (simp_all add: prefixes_def)

lemma butlast_prefixes: "butlast (prefixes (xs @ [x])) = prefixes xs"
  by (simp add: prefixes_snoc)

fun sax_at :: "stack \<Rightarrow> sax \<Rightarrow> bool" where
  "sax_at None sx \<longleftrightarrow> ref_stack sx = []"
| "sax_at (Some (os, f)) sx \<longleftrightarrow>
     root sx = plug os (close_frame f) \<and> ref_stack sx = prefixes (map step_of os) \<and>
     list_all wants_value os \<and>
     (\<forall>m k. f = FObj m (Some k) \<longrightarrow>
        wants_value f \<and> object_element sx = Some (map step_of os @ [Key k]))"

fun stack_wants :: "stack \<Rightarrow> bool" where
  "stack_wants None = True"
| "stack_wants (Some (os, f)) = wants_value f"

fun put_value :: "stack \<Rightarrow> json \<Rightarrow> stack" where
  "put_value None v = None"
| "put_value (Some (os, f)) v = Some (os, put_child f v)"

fun push_frame :: "stack \<Rightarrow> frame \<Rightarrow> stack" where
  "push_frame None g = Some ([], g)"
| "push_frame (Some (os, f)) g = Some (os @ [f], g)"

fun pop_frame :: "stack \<Rightarrow> stack" where
  "pop_frame None = None"
| "pop_frame (Some (os, f)) =
     (if os = [] then None else Some (butlast os, put_child (last os) (close_frame f)))"

lemma sax_at_update [simp]:
  "sax_at \<sigma> (sx\<lparr>errored := e\<rparr>) = sax_at \<sigma> sx"
  by (cases \<sigma>) auto

lemma handle_value_at:
  assumes "sax_at \<sigma> sx" and "stack_wants \<sigma>"
  shows "\<exists>p sx'. handle_value v sx = Inr (p, sx') \<and> sax_at (put_value \<sigma> v) sx' \<and>
    (\<sigma> = None \<longrightarrow> root sx' = v \<and> p = []) \<and>
    (\<forall>os f. \<sigma> = Some (os, f) \<longrightarrow> p = map step_of (os @ [f]) \<and> root sx' = plug (os @ [f]) v) \<and>
    ref_stack sx' = ref_stack sx \<and> errored sx' = errored sx \<and>
    sax_allow_exceptions sx' = sax_allow_exceptions sx"
proof (cases \<sigma>)
  case None
  then show ?thesis using assms by (auto simp: handle_value_def)
next
  case (Some p)
  obtain os f where p: "p = (os, f)" by (cases p)
  have at: "root sx = plug os (close_frame f)" "ref_stack sx = prefixes (map step_of os)"
      "list_all wants_value os" and w: "wants_value f"
    using assms Some p by auto
  have d: "deref (root sx) (map step_of os) = Inr (close_frame f)"
    using deref_plug [OF at(3), of "close_frame f" "[]"] by (simp add: deref_def at(1))
  show ?thesis
  proof (cases f)
    case (FArr xs)
    have "store (root sx) (map step_of os) (JArray (xs @ [v])) = Inr (plug os (JArray (xs @ [v])))"
      using store_plug [OF at(3), of "close_frame f" "[]"] by (simp add: store_def at(1))
    then show ?thesis
      using d FArr Some p at
      by (auto simp: handle_value_def Let_def is_array_def plug_append)
  next
    case (FObj m k)
    then obtain key where k: "k = Some key" "map_find m key \<noteq> None"
        "object_element sx = Some (map step_of os @ [Key key])"
      using assms Some p w by auto
    have "store (root sx) (map step_of os @ [Key key]) v = Inr (plug os (JObject (map_put m key v)))"
      using store_plug [OF at(3), of "close_frame f" "[Key key]"] k FObj by (auto simp: store_def at(1))
    then show ?thesis
      using d FObj Some p at k
      by (auto simp: handle_value_def Let_def is_object_def plug_append)
  qed
qed

lemma sax_value_at:
  assumes "sax_at \<sigma> sx" and "stack_wants \<sigma>"
  shows "\<exists>sx'. sax_value v sx = Inr sx' \<and> sax_at (put_value \<sigma> v) sx' \<and> (\<sigma> = None \<longrightarrow> root sx' = v) \<and>
    errored sx' = errored sx \<and> sax_allow_exceptions sx' = sax_allow_exceptions sx"
  using handle_value_at [OF assms, of v] by (auto simp: sax_value_def)

lemma start_container_at:
  assumes "sax_at \<sigma> sx" and "stack_wants \<sigma>" and g: "g = FArr [] \<or> g = FObj [] None"
  shows "\<exists>sx'. start_container (close_frame g) sx = Inr sx' \<and> sax_at (push_frame \<sigma> g) sx' \<and>
    errored sx' = errored sx \<and> sax_allow_exceptions sx' = sax_allow_exceptions sx"
proof -
  obtain p sx' where h: "handle_value (close_frame g) sx = Inr (p, sx')"
      "\<sigma> = None \<longrightarrow> root sx' = close_frame g \<and> p = []"
      "\<forall>os f. \<sigma> = Some (os, f) \<longrightarrow> p = map step_of (os @ [f]) \<and> root sx' = plug (os @ [f]) (close_frame g)"
      "ref_stack sx' = ref_stack sx" "errored sx' = errored sx"
      "sax_allow_exceptions sx' = sax_allow_exceptions sx"
    using handle_value_at [OF assms(1,2), of "close_frame g"] by blast
  show ?thesis
  proof (cases \<sigma>)
    case None
    then show ?thesis using h assms g by (auto simp: start_container_def)
  next
    case (Some q)
    obtain os f where q: "q = (os, f)" by (cases q)
    have "ref_stack sx = prefixes (map step_of os)" "list_all wants_value os" "wants_value f"
      using assms Some q by auto
    then show ?thesis
      using h Some q g
      by (auto simp: start_container_def prefixes_snoc)
  qed
qed

lemma sax_key_at:
  assumes "sax_at (Some (os, FObj m None)) sx"
  shows "\<exists>sx'. sax_key key sx = Inr sx' \<and> sax_at (Some (os, FObj (map_emplace m key JNull) (Some key))) sx' \<and>
    errored sx' = errored sx \<and> sax_allow_exceptions sx' = sax_allow_exceptions sx"
proof -
  have at: "root sx = plug os (JObject m)" "ref_stack sx = prefixes (map step_of os)" "list_all wants_value os"
    using assms by auto
  have "deref (root sx) (map step_of os) = Inr (JObject m)"
    using deref_plug [OF at(3), of "JObject m" "[]"] by (simp add: deref_def at(1))
  moreover have "store (root sx) (map step_of os) (JObject (map_emplace m key JNull)) =
      Inr (plug os (JObject (map_emplace m key JNull)))"
    using store_plug [OF at(3), of "JObject m" "[]"] by (simp add: store_def at(1))
  ultimately show ?thesis
    using at by (auto simp: sax_key_def json_assert_def Let_def map_find_emplace)
qed

lemma end_container_at:
  assumes "sax_at (Some (os, f)) sx" and "is_kind (close_frame f)"
  shows "\<exists>sx'. end_container is_kind sx = Inr sx' \<and> sax_at (pop_frame (Some (os, f))) sx' \<and>
    (os = [] \<longrightarrow> root sx' = close_frame f) \<and>
    errored sx' = errored sx \<and> sax_allow_exceptions sx' = sax_allow_exceptions sx"
proof -
  have at: "root sx = plug os (close_frame f)" "ref_stack sx = prefixes (map step_of os)" "list_all wants_value os"
    using assms by auto
  have d: "deref (root sx) (map step_of os) = Inr (close_frame f)"
    using deref_plug [OF at(3), of "close_frame f" "[]"] by (simp add: deref_def at(1))
  show ?thesis
  proof (cases os rule: rev_cases)
    case Nil
    then show ?thesis
      using d at assms(2) by (auto simp: end_container_def json_assert_def)
  next
    case (snoc os' f')
    have w: "wants_value f'" "list_all wants_value os'" using at(3) snoc by auto
    have "put_child f' (close_frame f) \<noteq> FObj m (Some k)" for m k
      by (cases f' rule: wants_value.cases; cases "case f' of FObj _ k \<Rightarrow> k | _ \<Rightarrow> None") (auto split: frame.splits)
    then show ?thesis
      using d at assms(2) snoc w
      by (auto simp: end_container_def json_assert_def butlast_prefixes plug_append close_put_child)
  qed
qed

section \<open>The state of the parser on containers and text\<close>

definition ps_lex :: "lexeme \<Rightarrow> string \<Rightarrow> parse_state \<Rightarrow> bool" where
  "ps_lex l s st \<longleftrightarrow>
     (\<exists>s' b. lex_at (m_lexer (ps_parser st)) s' b \<and>
        lexeme_of (ps_token st) (m_lexer (ps_parser st)) = l \<and>
        (ps_token st \<noteq> TK_parse_error \<longrightarrow> s' = s))"

text \<open>The last token is \<open>l\<close>, the text after it \<open>s\<close>, and the open containers are \<open>\<sigma>\<close>.\<close>

definition parsing :: "stack \<Rightarrow> lexeme \<Rightarrow> string \<Rightarrow> parse_state \<Rightarrow> bool" where
  "parsing \<sigma> l s st \<longleftrightarrow>
     ps_lex l s st \<and> sax_at \<sigma> (ps_sax st) \<and> \<not> ps_skip st \<and>
     \<not> ignore_trailing_commas (ps_parser st) \<and> \<not> errored (ps_sax st) \<and>
     \<not> sax_allow_exceptions (ps_sax st)"

text \<open>A syntax error has been recorded, and the lexer can still be asked for a token.\<close>

definition failed :: "parse_state \<Rightarrow> bool" where
  "failed st \<longleftrightarrow> errored (ps_sax st) \<and> \<not> sax_allow_exceptions (ps_sax st) \<and> (\<exists>l s. ps_lex l s st)"

fun kinds :: "stack \<Rightarrow> bool list" where
  "kinds None = []"
| "kinds (Some (os, f)) = map is_farr (os @ [f])"

abbreviation L_error :: lexeme where
  "L_error \<equiv> L_token TK_parse_error"

lemma lexeme_of_token: "lexeme_of t lx = L_token u \<Longrightarrow> t = u"
  by (cases t) (auto simp: lexeme_of_def)

lemma lexeme_of_values:
  "lexeme_of t lx = L_string str \<Longrightarrow> t = TK_value_string \<and> token_buffer lx = str"
  "lexeme_of t lx = L_unsigned u \<Longrightarrow> t = TK_value_unsigned \<and> value_unsigned lx = u"
  "lexeme_of t lx = L_integer u \<Longrightarrow> t = TK_value_integer \<and> value_integer lx = u"
  "lexeme_of t lx = L_float d \<Longrightarrow> t = TK_value_float \<and> value_float lx = d"
  by (cases t; auto simp: lexeme_of_def)+

lemma lexeme_of_error: "lexeme_of t lx = L_error \<longleftrightarrow> t = TK_parse_error"
  by (cases t) (auto simp: lexeme_of_def)

lemma next_token_any:
  assumes "ps_lex l s st"
  shows "\<exists>st' l' s'. next_token st = Inr st' \<and> ps_lex l' s' st' \<and> st' = st\<lparr>ps_parser := ps_parser st'\<rparr> \<and>
    ignore_trailing_commas (ps_parser st') = ignore_trailing_commas (ps_parser st) \<and>
    (l \<noteq> L_error \<longrightarrow> (l', s') = lex_next s)"
proof -
  obtain s0 b where at: "lex_at (m_lexer (ps_parser st)) s0 b" and l: "l \<noteq> L_error \<longrightarrow> s0 = s"
    using assms by (auto simp: ps_lex_def lexeme_of_error)
  obtain t lx s1 b1 where "scan (m_lexer (ps_parser st)) = Inr (t, lx)" "lexeme_of t lx = fst (lex_next s0)"
      "lex_at lx s1 b1" "t \<noteq> TK_parse_error \<longrightarrow> s1 = snd (lex_next s0)"
    using scan_lex [OF at] by (auto simp: scans_def)
  then show ?thesis
    using l
    by (intro exI [of _ "st\<lparr>ps_parser := (ps_parser st)\<lparr>last_token := t, m_lexer := lx\<rparr>\<rparr>"]
        exI [of _ "fst (lex_next s0)"] exI [of _ "snd (lex_next s0)"])
      (auto simp: next_token_def get_token_def ps_lex_def)
qed

lemma next_token_parsing:
  assumes "parsing \<sigma> l s st" and "l \<noteq> L_error" and "lex_next s = (l', s')"
  shows "\<exists>st'. next_token st = Inr st' \<and> parsing \<sigma> l' s' st' \<and> ps_states st' = ps_states st \<and>
    ps_sax st' = ps_sax st"
proof -
  have "ps_lex l s st" using assms by (simp add: parsing_def)
  then obtain st' where st': "next_token st = Inr st'" "ps_lex l' s' st'" "st' = st\<lparr>ps_parser := ps_parser st'\<rparr>"
      "ignore_trailing_commas (ps_parser st') = ignore_trailing_commas (ps_parser st)"
    using next_token_any [of l s st] assms(2,3) by fastforce
  moreover have "ps_sax st' = ps_sax st" "ps_states st' = ps_states st" "ps_skip st' = ps_skip st"
    by (subst st'(3), simp)+
  ultimately show ?thesis using assms(1) by (auto simp: parsing_def)
qed

lemma return_error_failed:
  "parsing \<sigma> l s st \<Longrightarrow> \<exists>st'. return_error ex st = Inr (Return False, st') \<and> failed st'"
  by (auto simp: return_error_def sax_parse_error_def parsing_def failed_def ps_lex_def)

lemma syntax_error_failed:
  "parsing \<sigma> l s st \<Longrightarrow> \<exists>st'. syntax_error t c st = Inr (Return False, st') \<and> failed st'"
  unfolding syntax_error_def by (rule return_error_failed)

lemma parsing_sax:
  "parsing \<sigma> l s st \<Longrightarrow> sax_at \<sigma>' sx \<Longrightarrow> errored sx = errored (ps_sax st) \<Longrightarrow>
   sax_allow_exceptions sx = sax_allow_exceptions (ps_sax st) \<Longrightarrow> parsing \<sigma>' l s (st\<lparr>ps_sax := sx\<rparr>)"
  by (simp add: parsing_def ps_lex_def)

lemma parsing_states: "parsing \<sigma> l s (st\<lparr>ps_states := xs\<rparr>) = parsing \<sigma> l s st"
  by (simp add: parsing_def ps_lex_def)

lemma parsing_string:
  assumes "parsing \<sigma> (L_string str) s st"
  shows "ps_token st = TK_value_string" and "lex_get_string (m_lexer (ps_parser st)) = Inr str"
proof -
  have "ps_token st = TK_value_string" "token_buffer (m_lexer (ps_parser st)) = str"
      "decimal_point_char (m_lexer (ps_parser st)) = 0x2E"
    using assms lexeme_of_values(1) by (auto simp: parsing_def ps_lex_def lex_at_def lex_inv_def)
  then show "ps_token st = TK_value_string" "lex_get_string (m_lexer (ps_parser st)) = Inr str"
    by (auto simp: lex_get_string_def split: option.split)
qed

lemma parsing_token: "parsing \<sigma> (L_token t) s st \<Longrightarrow> ps_token st = t"
  by (auto simp: parsing_def ps_lex_def dest: lexeme_of_token)

lemma parsing_not_token:
  "parsing \<sigma> l s st \<Longrightarrow> l \<noteq> L_token t \<Longrightarrow> t \<notin> {TK_value_string, TK_value_unsigned, TK_value_integer, TK_value_float} \<Longrightarrow>
   ps_token st \<noteq> t"
  by (cases t) (auto simp: parsing_def ps_lex_def lexeme_of_def)

lemma parsing_not_string: "parsing \<sigma> l s st \<Longrightarrow> \<nexists>str. l = L_string str \<Longrightarrow> ps_token st \<noteq> TK_value_string"
  by (auto simp: parsing_def ps_lex_def lexeme_of_def)

lemma emit_value:
  assumes "parsing \<sigma> l s st" and "stack_wants \<sigma>"
  shows "\<exists>st'. emit (sax_value v) st = Inr (Break, st') \<and> parsing (put_value \<sigma> v) l s st' \<and>
    ps_states st' = ps_states st \<and> (\<sigma> = None \<longrightarrow> root (ps_sax st') = v)"
proof -
  obtain sx' where "sax_value v (ps_sax st) = Inr sx'" "sax_at (put_value \<sigma> v) sx'" "\<sigma> = None \<longrightarrow> root sx' = v"
      "errored sx' = errored (ps_sax st)" "sax_allow_exceptions sx' = sax_allow_exceptions (ps_sax st)"
    using sax_value_at [of \<sigma> "ps_sax st" v] assms by (auto simp: parsing_def)
  then show ?thesis
    using parsing_sax [OF assms(1)] by (auto simp: emit_def)
qed

text \<open>The values that consist of one token.\<close>

fun lexeme_value :: "lexeme \<Rightarrow> json option" where
  "lexeme_value (L_string str) = Some (JString str)"
| "lexeme_value (L_unsigned u) = Some (JUnsigned u)"
| "lexeme_value (L_integer u) = Some (JInteger u)"
| "lexeme_value (L_float d) = (if isfinite d then Some (JFloat d) else None)"
| "lexeme_value (L_token t) =
     (if t = TK_literal_true then Some (JBoolean True)
      else if t = TK_literal_false then Some (JBoolean False)
      else if t = TK_literal_null then Some JNull else None)"

lemma parse_value_primitive:
  assumes "parsing \<sigma> l s st" and "stack_wants \<sigma>" and "lexeme_value l = Some v"
  shows "\<exists>st'. parse_value st = Inr (Break, st') \<and> parsing (put_value \<sigma> v) l s st' \<and>
    ps_states st' = ps_states st \<and> (\<sigma> = None \<longrightarrow> root (ps_sax st') = v)"
proof -
  have lx: "lexeme_of (ps_token st) (m_lexer (ps_parser st)) = l" and
      dp: "decimal_point_char (m_lexer (ps_parser st)) = 0x2E"
    using assms(1) by (auto simp: parsing_def ps_lex_def lex_at_def lex_inv_def)
  have gs: "\<exists>str. lex_get_string (m_lexer (ps_parser st)) = Inr str"
    using dp by (auto simp: lex_get_string_def split: option.split)
  have "parse_value st = emit (sax_value v) st"
  proof (cases l)
    case (L_token t)
    then have "ps_token st = t" using lx lexeme_of_token by blast
    then show ?thesis
      using assms(3) L_token by (auto simp: parse_value_def Let_def split: if_splits)
  next
    case (L_string str)
    then show ?thesis
      using assms parsing_string [of \<sigma> str s st] by (auto simp: parse_value_def)
  next
    case (L_float d)
    then have "ps_token st = TK_value_float" "value_float (m_lexer (ps_parser st)) = d"
      using lx lexeme_of_values(4) by blast+
    then show ?thesis
      using assms(3) gs L_float
      by (auto simp: parse_value_def parse_float_def get_number_float_def Let_def split: if_splits)
  next
    case (L_unsigned u)
    then have "ps_token st = TK_value_unsigned" "value_unsigned (m_lexer (ps_parser st)) = u"
      using lx lexeme_of_values(2) by blast+
    then show ?thesis
      using assms(3) L_unsigned by (auto simp: parse_value_def get_number_unsigned_def)
  next
    case (L_integer u)
    then have "ps_token st = TK_value_integer" "value_integer (m_lexer (ps_parser st)) = u"
      using lx lexeme_of_values(3) by blast+
    then show ?thesis
      using assms(3) L_integer by (auto simp: parse_value_def get_number_integer_def)
  qed
  then show ?thesis using emit_value [OF assms(1,2)] by simp
qed


lemma emit_end:
  assumes "parsing (Some (os, f)) l s st" and "is_kind (close_frame f)"
  shows "\<exists>st'. emit (end_container is_kind) st = Inr (Break, st') \<and> parsing (pop_frame (Some (os, f))) l s st' \<and>
    ps_states st' = ps_states st \<and> (os = [] \<longrightarrow> root (ps_sax st') = close_frame f)"
proof -
  obtain sx' where "end_container is_kind (ps_sax st) = Inr sx'" "sax_at (pop_frame (Some (os, f))) sx'"
      "os = [] \<longrightarrow> root sx' = close_frame f"
      "errored sx' = errored (ps_sax st)" "sax_allow_exceptions sx' = sax_allow_exceptions (ps_sax st)"
    using end_container_at [of os f "ps_sax st" is_kind] assms by (auto simp: parsing_def)
  then show ?thesis
    using parsing_sax [OF assms(1)] by (auto simp: emit_def)
qed

lemma start_parsing:
  assumes "parsing \<sigma> l s st" and "stack_wants \<sigma>" and "g = FArr [] \<or> g = FObj [] None"
  shows "\<exists>sx'. start_container (close_frame g) (ps_sax st) = Inr sx' \<and> parsing (push_frame \<sigma> g) l s (st\<lparr>ps_sax := sx'\<rparr>)"
proof -
  have "sax_at \<sigma> (ps_sax st)" using assms(1) by (simp add: parsing_def)
  from start_container_at [OF this assms(2,3)] show ?thesis using parsing_sax [OF assms(1)] by blast
qed

lemma pop_push: "pop_frame (push_frame \<sigma> g) = put_value \<sigma> (close_frame g)"
  by (cases \<sigma>) auto

lemma push_frame_Some: "\<exists>os. push_frame \<sigma> g = Some (os, g) \<and> (os = [] \<longleftrightarrow> \<sigma> = None)"
  by (cases \<sigma>) auto

lemma kinds_push: "kinds (push_frame \<sigma> g) = kinds \<sigma> @ [is_farr g]"
  by (cases \<sigma>) auto

lemma parse_value_array:
  assumes p: "parsing \<sigma> (L_token TK_begin_array) s st" and w: "stack_wants \<sigma>" and k: "ps_states st = kinds \<sigma>"
    and l: "lex_next s = (l', s')"
  shows "\<exists>st'. if l' = L_token TK_end_array
    then parse_value st = Inr (Break, st') \<and> parsing (put_value \<sigma> (JArray [])) l' s' st' \<and>
      ps_states st' = kinds \<sigma> \<and> (\<sigma> = None \<longrightarrow> root (ps_sax st') = JArray [])
    else parse_value st = Inr (Continue, st') \<and> parsing (push_frame \<sigma> (FArr [])) l' s' st' \<and>
      ps_states st' = kinds (push_frame \<sigma> (FArr []))"
proof -
  obtain sx1 where sx1: "start_container (close_frame (FArr [])) (ps_sax st) = Inr sx1"
      and p1: "parsing (push_frame \<sigma> (FArr [])) (L_token TK_begin_array) s (st\<lparr>ps_sax := sx1\<rparr>)"
    using start_parsing [OF p w, of "FArr []"] by blast
  obtain st2 where st2: "next_token (st\<lparr>ps_sax := sx1\<rparr>) = Inr st2" "parsing (push_frame \<sigma> (FArr [])) l' s' st2"
      "ps_states st2 = kinds \<sigma>"
    using next_token_parsing [OF p1 _ l] k by auto
  obtain os where os: "push_frame \<sigma> (FArr []) = Some (os, FArr [])" "os = [] \<longleftrightarrow> \<sigma> = None"
    using push_frame_Some by blast
  have v: "parse_value st = parse_begin_array st" using parsing_token [OF p] by (simp add: parse_value_def)
  show ?thesis
  proof (cases "l' = L_token TK_end_array")
    case True
    then have "ps_token st2 = TK_end_array" using parsing_token st2(2) by blast
    then have "parse_value st = emit (end_container is_array) st2"
      using v sx1 st2(1) by (simp add: parse_begin_array_def start_array_def end_array_def [abs_def])
    then show ?thesis
      using emit_end [of os "FArr []" l' s' st2 is_array] st2 os True pop_push [of \<sigma> "FArr []"]
      by (auto simp: is_array_def)
  next
    case False
    then have "ps_token st2 \<noteq> TK_end_array" using parsing_not_token [OF st2(2)] by blast
    then show ?thesis
      using v sx1 st2 False
      by (auto simp: parse_begin_array_def start_array_def parsing_states kinds_push)
  qed
qed

text \<open>A key with its separator: the texts that are accepted, and the effect.\<close>

fun key_text :: "lexeme \<times> string \<Rightarrow> (string \<times> string) option" where
  "key_text (L_string key, s) =
     (case lex_next s of (l, s') \<Rightarrow> if l = L_token TK_name_separator then Some (key, s') else None)"
| "key_text _ = None"

lemma parse_key_parsing:
  assumes p: "parsing (Some (os, FObj m None)) l s st"
  shows "case key_text (l, s) of
      None \<Rightarrow> \<exists>st'. parse_key st = Inr (Return False, st') \<and> failed st'
    | Some (key, s') \<Rightarrow> \<exists>st'. parse_key st = Inr (Break, st') \<and> ps_states st' = ps_states st \<and>
        parsing (Some (os, FObj (map_emplace m key JNull) (Some key))) (L_token TK_name_separator) s' st'"
proof (cases "\<exists>key. l = L_string key")
  case False
  then have "key_text (l, s) = None" by (cases l) auto
  then show ?thesis
    using syntax_error_failed [OF p] parsing_not_string [OF p False] by (simp add: parse_key_def)
next
  case True
  then obtain key where key: "l = L_string key" by blast
  note str = parsing_string [OF p [unfolded key]]
  have "sax_at (Some (os, FObj m None)) (ps_sax st)" using p by (simp add: parsing_def)
  from sax_key_at [OF this, of key] obtain sx1 where sx1: "sax_key key (ps_sax st) = Inr sx1"
      and p1: "parsing (Some (os, FObj (map_emplace m key JNull) (Some key))) l s (st\<lparr>ps_sax := sx1\<rparr>)"
    using parsing_sax [OF p] by blast
  obtain l' s' where l': "lex_next s = (l', s')" by (cases "lex_next s")
  obtain st2 where st2: "next_token (st\<lparr>ps_sax := sx1\<rparr>) = Inr st2" "ps_states st2 = ps_states st"
      "parsing (Some (os, FObj (map_emplace m key JNull) (Some key))) l' s' st2"
    using next_token_parsing [OF p1 _ l'] key by auto
  show ?thesis
  proof (cases "l' = L_token TK_name_separator")
    case True
    then show ?thesis
      using str sx1 st2 key l' parsing_token [of _ TK_name_separator s' st2] by (simp add: parse_key_def)
  next
    case False
    then show ?thesis
      using str sx1 st2 key l' parsing_not_token [OF st2(3) False] syntax_error_failed [OF st2(3)]
      by (simp add: parse_key_def)
  qed
qed


lemma parse_value_object:
  assumes p: "parsing \<sigma> (L_token TK_begin_object) s st" and w: "stack_wants \<sigma>" and k: "ps_states st = kinds \<sigma>"
    and l: "lex_next s = (l', s')"
  shows "if l' = L_token TK_end_object
    then \<exists>st'. parse_value st = Inr (Break, st') \<and> parsing (put_value \<sigma> (JObject [])) l' s' st' \<and>
      ps_states st' = kinds \<sigma> \<and> (\<sigma> = None \<longrightarrow> root (ps_sax st') = JObject [])
    else case key_text (l', s') of
      None \<Rightarrow> \<exists>st'. parse_value st = Inr (Return False, st') \<and> failed st'
    | Some (key, s1) \<Rightarrow> \<exists>st'. parse_value st = Inr (Continue, st') \<and>
        parsing (push_frame \<sigma> (FObj [(key, JNull)] (Some key))) (fst (lex_next s1)) (snd (lex_next s1)) st' \<and>
        ps_states st' = kinds (push_frame \<sigma> (FObj [(key, JNull)] (Some key)))"
proof -
  let ?g = "FObj [] None"
  obtain sx1 where sx1: "start_container (close_frame ?g) (ps_sax st) = Inr sx1"
      and p1: "parsing (push_frame \<sigma> ?g) (L_token TK_begin_object) s (st\<lparr>ps_sax := sx1\<rparr>)"
    using start_parsing [OF p w, of ?g] by blast
  obtain st2 where st2: "next_token (st\<lparr>ps_sax := sx1\<rparr>) = Inr st2" "parsing (push_frame \<sigma> ?g) l' s' st2"
      "ps_states st2 = kinds \<sigma>"
    using next_token_parsing [OF p1 _ l] k by auto
  obtain os where os: "push_frame \<sigma> ?g = Some (os, ?g)" "os = [] \<longleftrightarrow> \<sigma> = None"
    using push_frame_Some by blast
  have os': "push_frame \<sigma> h = Some (os, h)" for h using os by (cases \<sigma>) auto
  have v: "parse_value st = parse_begin_object st" using parsing_token [OF p] by (simp add: parse_value_def)
  show ?thesis
  proof (cases "l' = L_token TK_end_object")
    case True
    then have "ps_token st2 = TK_end_object" using parsing_token st2(2) by blast
    then have "parse_value st = emit (end_container is_object) st2"
      using v sx1 st2(1) by (simp add: parse_begin_object_def start_object_def end_object_def [abs_def])
    then show ?thesis
      using emit_end [of os ?g l' s' st2 is_object] st2 os True pop_push [of \<sigma> ?g]
      by (auto simp: is_object_def)
  next
    case False
    then have "ps_token st2 \<noteq> TK_end_object" using parsing_not_token [OF st2(2)] by blast
    then have pk: "parse_value st = ebind (parse_key st2)
                   (\<lambda>(b, st). if b \<noteq> Break then Inr (b, st)
                     else ebind (next_token (st\<lparr>ps_states := ps_states st @ [False]\<rparr>)) (\<lambda>st. Inr (Continue, st)))"
      using v sx1 st2(1) by (simp add: parse_begin_object_def start_object_def)
    have p2: "parsing (Some (os, FObj [] None)) l' s' st2" using st2(2) os by simp
    show ?thesis
    proof (cases "key_text (l', s')")
      case None
      then show ?thesis using pk parse_key_parsing [OF p2] False by auto
    next
      case (Some ks)
      obtain key s1 where ks: "ks = (key, s1)" by (cases ks)
      obtain st3 where st3: "parse_key st2 = Inr (Break, st3)" "ps_states st3 = kinds \<sigma>"
          "parsing (Some (os, FObj [(key, JNull)] (Some key))) (L_token TK_name_separator) s1 st3"
        using parse_key_parsing [OF p2] Some ks st2(3) by (auto simp: map_emplace_def)
      obtain st4 where "next_token (st3\<lparr>ps_states := ps_states st3 @ [False]\<rparr>) = Inr st4"
          "parsing (Some (os, FObj [(key, JNull)] (Some key))) (fst (lex_next s1)) (snd (lex_next s1)) st4"
          "ps_states st4 = kinds \<sigma> @ [False]"
        using next_token_parsing [of "Some (os, FObj [(key, JNull)] (Some key))" "L_token TK_name_separator"
            s1 "st3\<lparr>ps_states := ps_states st3 @ [False]\<rparr>" "fst (lex_next s1)" "snd (lex_next s1)"] st3
        by (auto simp: parsing_states)
      moreover have "kinds (Some (os, FObj [(key, JNull)] (Some key))) = kinds \<sigma> @ [False]"
        using kinds_push [of \<sigma> "FObj [(key, JNull)] (Some key)"] by (simp add: os' del: kinds.simps)
      ultimately show ?thesis
        using pk st3 False Some ks by (simp add: os' del: kinds.simps)
    qed
  qed
qed

lemma parse_value_fails:
  assumes p: "parsing \<sigma> l s st" and "lexeme_value l = None"
    and "l \<noteq> L_token TK_begin_array" "l \<noteq> L_token TK_begin_object"
  shows "\<exists>st'. parse_value st = Inr (Return False, st') \<and> failed st'"
proof -
  have lx: "lexeme_of (ps_token st) (m_lexer (ps_parser st)) = l"
    using p by (auto simp: parsing_def ps_lex_def)
  show ?thesis
    using assms(2-) lx syntax_error_failed [OF p] return_error_failed [OF p]
    by (cases "ps_token st")
      (auto simp: parse_value_def parse_float_def lexeme_of_def get_number_float_def Let_def split: if_splits)
qed


section \<open>Evaluation of the state\<close>

lemma close_parsing:
  assumes p: "parsing (Some (os, f)) l s st" and "is_kind (close_frame f)" and k: "ps_states st = kinds (Some (os, f))"
  shows "\<exists>st'. close_container (end_container is_kind) st = Inr (Continue, st') \<and> ps_skip st' \<and>
    parsing (pop_frame (Some (os, f))) l s (st'\<lparr>ps_skip := False\<rparr>) \<and>
    ps_states st' = kinds (pop_frame (Some (os, f))) \<and> (os = [] \<longrightarrow> root (ps_sax st') = close_frame f)"
proof -
  obtain sx' where "end_container is_kind (ps_sax st) = Inr sx'" "sax_at (pop_frame (Some (os, f))) sx'"
      "os = [] \<longrightarrow> root sx' = close_frame f"
      "errored sx' = errored (ps_sax st)" "sax_allow_exceptions sx' = sax_allow_exceptions (ps_sax st)"
    using end_container_at [of os f "ps_sax st" is_kind] assms by (auto simp: parsing_def)
  moreover have "butlast (kinds (Some (os, f))) = kinds (pop_frame (Some (os, f)))"
  proof (cases os rule: rev_cases)
    case (snoc os' g)
    have "is_farr (put_child g v) = is_farr g" for v
      by (cases g; cases "case g of FObj _ k \<Rightarrow> k | _ \<Rightarrow> None") (auto split: frame.splits)
    then show ?thesis using snoc by (simp add: butlast_append)
  qed simp
  ultimately show ?thesis
    using p k by (auto simp: close_container_def json_assert_def parsing_def ps_lex_def)
qed

lemma evaluate_array_parsing:
  assumes p: "parsing (Some (os, FArr xs)) l s st" and "l \<noteq> L_error" and k: "ps_states st = kinds (Some (os, FArr xs))"
    and l: "lex_next s = (l', s')"
  shows "if l' = L_token TK_value_separator
    then \<exists>st'. evaluate_state st = Inr (Continue, st') \<and>
      parsing (Some (os, FArr xs)) (fst (lex_next s')) (snd (lex_next s')) st' \<and> ps_states st' = kinds (Some (os, FArr xs))
    else if l' = L_token TK_end_array
    then \<exists>st'. evaluate_state st = Inr (Continue, st') \<and> ps_skip st' \<and>
      parsing (pop_frame (Some (os, FArr xs))) l' s' (st'\<lparr>ps_skip := False\<rparr>) \<and>
      ps_states st' = kinds (pop_frame (Some (os, FArr xs))) \<and> (os = [] \<longrightarrow> root (ps_sax st') = JArray xs)
    else \<exists>st'. evaluate_state st = Inr (Return False, st') \<and> failed st'"
proof -
  obtain st1 where st1: "next_token st = Inr st1" "parsing (Some (os, FArr xs)) l' s' st1"
      "ps_states st1 = kinds (Some (os, FArr xs))"
    using next_token_parsing [OF p assms(2) l] k by auto
  have e: "evaluate_state st = evaluate_array st" using k by (simp add: evaluate_state_def)
  consider (sep) "l' = L_token TK_value_separator" | (close) "l' = L_token TK_end_array"
    | (bad) "l' \<noteq> L_token TK_value_separator" "l' \<noteq> L_token TK_end_array" by blast
  then show ?thesis
  proof cases
    case sep
    then obtain st2 where "next_token st1 = Inr st2"
        "parsing (Some (os, FArr xs)) (fst (lex_next s')) (snd (lex_next s')) st2" "ps_states st2 = ps_states st1"
      using next_token_parsing [OF st1(2), of "fst (lex_next s')" "snd (lex_next s')"] by auto
    moreover have "ps_token st1 = TK_value_separator" using parsing_token st1(2) sep by blast
    ultimately show ?thesis
      using e st1 sep by (auto simp: evaluate_array_def Let_def parsing_def)
  next
    case close
    then have "ps_token st1 = TK_end_array" using parsing_token st1(2) by blast
    then have "evaluate_state st = close_container (end_container is_array) st1"
      using e st1(1) by (simp add: evaluate_array_def Let_def end_array_def [abs_def])
    then show ?thesis
      using close close_parsing [OF st1(2) _ st1(3), of is_array] by (auto simp: is_array_def)
  next
    case bad
    then have "ps_token st1 \<noteq> TK_value_separator" "ps_token st1 \<noteq> TK_end_array"
      using parsing_not_token [OF st1(2)] by blast+
    then show ?thesis
      using e st1(1) bad syntax_error_failed [OF st1(2)] by (simp add: evaluate_array_def Let_def)
  qed
qed

lemma evaluate_object_parsing:
  assumes p: "parsing (Some (os, FObj m None)) l s st" and "l \<noteq> L_error"
    and k: "ps_states st = kinds (Some (os, FObj m None))" and l: "lex_next s = (l', s')"
  shows "if l' = L_token TK_value_separator
    then case key_text (lex_next s') of
        None \<Rightarrow> \<exists>st'. evaluate_state st = Inr (Return False, st') \<and> failed st'
      | Some (key, s1) \<Rightarrow> \<exists>st'. evaluate_state st = Inr (Continue, st') \<and>
          parsing (Some (os, FObj (map_emplace m key JNull) (Some key))) (fst (lex_next s1)) (snd (lex_next s1)) st' \<and>
          ps_states st' = kinds (Some (os, FObj m None))
    else if l' = L_token TK_end_object
    then \<exists>st'. evaluate_state st = Inr (Continue, st') \<and> ps_skip st' \<and>
      parsing (pop_frame (Some (os, FObj m None))) l' s' (st'\<lparr>ps_skip := False\<rparr>) \<and>
      ps_states st' = kinds (pop_frame (Some (os, FObj m None))) \<and> (os = [] \<longrightarrow> root (ps_sax st') = JObject m)
    else \<exists>st'. evaluate_state st = Inr (Return False, st') \<and> failed st'"
proof -
  obtain st1 where st1: "next_token st = Inr st1" "parsing (Some (os, FObj m None)) l' s' st1"
      "ps_states st1 = kinds (Some (os, FObj m None))"
    using next_token_parsing [OF p assms(2) l] k by auto
  have e: "evaluate_state st = evaluate_object st" using k by (simp add: evaluate_state_def)
  consider (sep) "l' = L_token TK_value_separator" | (close) "l' = L_token TK_end_object"
    | (bad) "l' \<noteq> L_token TK_value_separator" "l' \<noteq> L_token TK_end_object" by blast
  then show ?thesis
  proof cases
    case sep
    then obtain st2 where st2: "next_token st1 = Inr st2"
        "parsing (Some (os, FObj m None)) (fst (lex_next s')) (snd (lex_next s')) st2" "ps_states st2 = ps_states st1"
      using next_token_parsing [OF st1(2), of "fst (lex_next s')" "snd (lex_next s')"] by auto
    have "ps_token st1 = TK_value_separator" using parsing_token st1(2) sep by blast
    then have ev: "evaluate_state st = ebind (parse_key st2)
        (\<lambda>(b, st). if b \<noteq> Break then Inr (b, st) else ebind (next_token st) (\<lambda>st. Inr (Continue, st)))"
      using e st1 st2 by (auto simp: evaluate_object_def Let_def parsing_def)
    note pk = parse_key_parsing [OF st2(2)]
    show ?thesis
    proof (cases "key_text (lex_next s')")
      case None
      then show ?thesis using ev pk sep by auto
    next
      case (Some ks)
      obtain key s1 where ks: "ks = (key, s1)" by (cases ks)
      let ?f = "Some (os, FObj (map_emplace m key JNull) (Some key))"
      obtain st3 where st3: "parse_key st2 = Inr (Break, st3)" "ps_states st3 = ps_states st1"
          "parsing ?f (L_token TK_name_separator) s1 st3"
        using pk Some ks st2(3) by auto
      obtain st4 where "next_token st3 = Inr st4" "parsing ?f (fst (lex_next s1)) (snd (lex_next s1)) st4"
          "ps_states st4 = ps_states st1"
        using next_token_parsing [OF st3(3), of "fst (lex_next s1)" "snd (lex_next s1)"] st3(2) by auto
      then show ?thesis using ev st3 sep Some ks st1(3) by auto
    qed
  next
    case close
    then have "ps_token st1 = TK_end_object" using parsing_token st1(2) by blast
    then have "evaluate_state st = close_container (end_container is_object) st1"
      using e st1(1) by (simp add: evaluate_object_def Let_def end_object_def [abs_def])
    then show ?thesis
      using close close_parsing [OF st1(2) _ st1(3), of is_object] by (auto simp: is_object_def)
  next
    case bad
    then have "ps_token st1 \<noteq> TK_value_separator" "ps_token st1 \<noteq> TK_end_object"
      using parsing_not_token [OF st1(2)] by blast+
    then show ?thesis
      using e st1(1) bad syntax_error_failed [OF st1(2)] by (simp add: evaluate_object_def Let_def)
  qed
qed

lemma evaluate_done: "kinds None = ps_states st \<Longrightarrow> evaluate_state st = Inr (Return True, st)"
  by (simp add: evaluate_state_def)

section \<open>Parsing always returns a well-formed value\<close>

text \<open>
  The values the parser builds: ordered objects, strings and keys in UTF-8, finite numbers, no
  binary and no discarded parts.
\<close>

fun parsed_ok :: "json \<Rightarrow> bool" where
  "parsed_ok (JObject m) = (map_ok m \<and> list_all (\<lambda>kv. utf8_ok (fst kv) \<and> parsed_ok (snd kv)) m)"
| "parsed_ok (JArray xs) = list_all parsed_ok xs"
| "parsed_ok (JString str) = utf8_ok str"
| "parsed_ok (JFloat d) = isfinite d"
| "parsed_ok (JBinary b t) = False"
| "parsed_ok JDiscarded = False"
| "parsed_ok _ = True"

fun frame_ok :: "frame \<Rightarrow> bool" where
  "frame_ok (FArr xs) = list_all parsed_ok xs"
| "frame_ok (FObj m k) =
     (map_ok m \<and> list_all (\<lambda>kv. utf8_ok (fst kv) \<and> parsed_ok (snd kv)) m \<and>
      (\<forall>key. k = Some key \<longrightarrow> utf8_ok key))"

fun stack_ok :: "stack \<Rightarrow> bool" where
  "stack_ok None = True"
| "stack_ok (Some (os, f)) = (list_all frame_ok os \<and> frame_ok f)"

text \<open>No value is expected next: the state in which the loop evaluates the containers.\<close>

fun stack_done :: "stack \<Rightarrow> bool" where
  "stack_done None = True"
| "stack_done (Some (os, FArr xs)) = True"
| "stack_done (Some (os, FObj m k)) = (k = None)"

lemma close_frame_ok: "frame_ok f \<Longrightarrow> parsed_ok (close_frame f)"
  by (cases f) auto

lemma put_child_ok: "frame_ok f \<Longrightarrow> parsed_ok v \<Longrightarrow> frame_ok (put_child f v)"
  by (cases "(f, v)" rule: put_child.cases) (auto simp: map_ok_put list_all_map_put)

lemma put_value_ok: "stack_ok \<sigma> \<Longrightarrow> parsed_ok v \<Longrightarrow> stack_ok (put_value \<sigma> v)"
  by (cases \<sigma>) (auto simp: put_child_ok)

lemma put_child_done: "wants_value f \<Longrightarrow> stack_done (Some (os, put_child f v))"
  by (cases "(f, v)" rule: put_child.cases) auto

lemma put_value_done: "stack_wants \<sigma> \<Longrightarrow> stack_done (put_value \<sigma> v)"
  by (cases \<sigma>) (auto simp: put_child_done)

lemma push_frame_ok: "stack_ok \<sigma> \<Longrightarrow> frame_ok g \<Longrightarrow> stack_ok (push_frame \<sigma> g)"
  by (cases \<sigma>) auto

lemma pop_frame_ok: "stack_ok \<sigma> \<Longrightarrow> stack_ok (pop_frame \<sigma>)"
proof (cases \<sigma>)
  case (Some p)
  obtain os f where "p = (os, f)" by (cases p)
  then show "stack_ok \<sigma> \<Longrightarrow> stack_ok (pop_frame \<sigma>)"
    using Some by (cases os rule: rev_cases) (auto intro: put_child_ok close_frame_ok)
qed simp

lemma pop_frame_done:
  "sax_at (Some (os, f)) sx \<Longrightarrow> stack_done (pop_frame (Some (os, f)))"
  by (cases os rule: rev_cases) (auto intro: put_child_done)

text \<open>The outcome of one iteration.\<close>

definition value_state :: "parse_state \<Rightarrow> bool" where
  "value_state st \<longleftrightarrow>
     (\<exists>\<sigma> l s. parsing \<sigma> l s st \<and> ps_states st = kinds \<sigma> \<and> stack_ok \<sigma> \<and> lexeme_ok l \<and> stack_wants \<sigma>)"

definition after_state :: "parse_state \<Rightarrow> bool" where
  "after_state st \<longleftrightarrow>
     (\<exists>\<sigma> l s. parsing \<sigma> l s st \<and> ps_states st = kinds \<sigma> \<and> stack_ok \<sigma> \<and> l \<noteq> L_error \<and> stack_done \<sigma> \<and>
        (\<sigma> = None \<longrightarrow> parsed_ok (root (ps_sax st))))"

definition loop_state :: "parse_state \<Rightarrow> bool" where
  "loop_state st \<longleftrightarrow> (if ps_skip st then after_state (st\<lparr>ps_skip := False\<rparr>) else value_state st)"

definition finished :: "parse_state \<Rightarrow> bool" where
  "finished st \<longleftrightarrow>
     \<not> errored (ps_sax st) \<and> \<not> sax_allow_exceptions (ps_sax st) \<and> parsed_ok (root (ps_sax st)) \<and>
     (\<exists>l s. ps_lex l s st)"

definition good_step :: "failure + branch \<times> parse_state \<Rightarrow> bool" where
  "good_step m \<longleftrightarrow>
     (\<exists>st. m = Inr (Continue, st) \<and> loop_state st \<or> m = Inr (Return True, st) \<and> finished st \<or>
           m = Inr (Return False, st) \<and> failed st)"

lemma value_stateI:
  "parsing \<sigma> l s st \<Longrightarrow> ps_states st = kinds \<sigma> \<Longrightarrow> stack_ok \<sigma> \<Longrightarrow> lexeme_ok l \<Longrightarrow> stack_wants \<sigma> \<Longrightarrow> loop_state st"
  by (auto simp: loop_state_def value_state_def parsing_def)

lemma after_stateI:
  "ps_skip st \<Longrightarrow> parsing \<sigma> l s (st\<lparr>ps_skip := False\<rparr>) \<Longrightarrow> ps_states st = kinds \<sigma> \<Longrightarrow> stack_ok \<sigma> \<Longrightarrow>
   l \<noteq> L_error \<Longrightarrow> stack_done \<sigma> \<Longrightarrow> (\<sigma> = None \<Longrightarrow> parsed_ok (root (ps_sax st))) \<Longrightarrow> loop_state st"
  by (auto simp: loop_state_def after_state_def)

lemma key_text_ok: "key_text (l, s) = Some (key, s') \<Longrightarrow> lexeme_ok l \<Longrightarrow> utf8_ok key"
  by (cases l) (auto split: if_splits prod.splits)

lemma good_Return: "\<exists>st'. m = Inr (Return False, st') \<and> failed st' \<Longrightarrow> good_step m"
  by (auto simp: good_step_def)

lemma good_value:
  "\<exists>st'. m = Inr (Continue, st') \<and> parsing \<sigma> l s st' \<and> ps_states st' = kinds \<sigma> \<Longrightarrow>
   stack_ok \<sigma> \<Longrightarrow> lexeme_ok l \<Longrightarrow> stack_wants \<sigma> \<Longrightarrow> good_step m"
  by (auto simp: good_step_def intro: value_stateI)

lemma good_close:
  assumes "\<exists>st'. m = Inr (Continue, st') \<and> ps_skip st' \<and> parsing (pop_frame (Some (os, f))) l s (st'\<lparr>ps_skip := False\<rparr>) \<and>
      ps_states st' = kinds (pop_frame (Some (os, f))) \<and> (os = [] \<longrightarrow> root (ps_sax st') = close_frame f)"
    and "sax_at (Some (os, f)) sx" and "stack_ok (Some (os, f))" and "l \<noteq> L_error"
  shows "good_step m"
proof -
  obtain st' where st': "m = Inr (Continue, st')" "ps_skip st'"
      "parsing (pop_frame (Some (os, f))) l s (st'\<lparr>ps_skip := False\<rparr>)"
      "ps_states st' = kinds (pop_frame (Some (os, f)))" "os = [] \<longrightarrow> root (ps_sax st') = close_frame f"
    using assms(1) by blast
  have "pop_frame (Some (os, f)) = None \<Longrightarrow> parsed_ok (root (ps_sax st'))"
    using st'(5) assms(3) close_frame_ok by (auto split: if_splits)
  then have "loop_state st'"
    by (intro after_stateI [OF st'(2,3,4) pop_frame_ok [OF assms(3)] assms(4) pop_frame_done [OF assms(2)]])
  then show ?thesis using st'(1) by (auto simp: good_step_def)
qed

lemma emplace_frame_ok:
  "frame_ok (FObj m None) \<Longrightarrow> utf8_ok key \<Longrightarrow> frame_ok (FObj (map_emplace m key JNull) (Some key))"
  by (auto simp: map_ok_emplace list_all_map_emplace)

lemma evaluate_state_good:
  assumes "after_state st"
  shows "good_step (evaluate_state st)"
proof -
  obtain \<sigma> l s where p: "parsing \<sigma> l s st" and k: "ps_states st = kinds \<sigma>" and ok: "stack_ok \<sigma>" and
      l: "l \<noteq> L_error" and d: "stack_done \<sigma>" and r: "\<sigma> = None \<longrightarrow> parsed_ok (root (ps_sax st))"
    using assms by (auto simp: after_state_def)
  obtain l' s' where n: "lex_next s = (l', s')" by (cases "lex_next s")
  have at: "sax_at \<sigma> (ps_sax st)" using p by (simp add: parsing_def)
  consider (top) "\<sigma> = None" | (arr) os xs where "\<sigma> = Some (os, FArr xs)" | (obj) os m where "\<sigma> = Some (os, FObj m None)"
    using d by (cases \<sigma> rule: stack_done.cases) auto
  then show ?thesis
  proof cases
    case top
    then show ?thesis
      using evaluate_done [of st] k p r by (auto simp: good_step_def finished_def parsing_def)
  next
    case arr
    note e = evaluate_array_parsing [OF p [unfolded arr] l k [unfolded arr] n]
    consider (sep) "l' = L_token TK_value_separator" | (close) "l' = L_token TK_end_array"
      | (bad) "l' \<noteq> L_token TK_value_separator" "l' \<noteq> L_token TK_end_array" by blast
    then show ?thesis
    proof cases
      case sep
      then show ?thesis
        using e ok arr
        by (intro good_value [where \<sigma> = \<sigma> and l = "fst (lex_next s')" and s = "snd (lex_next s')"])
          (simp_all add: lex_next_ok)
    next
      case close
      show ?thesis
        by (rule good_close [where os = os and f = "FArr xs" and l = l' and s = s' and sx = "ps_sax st"])
          (use e at ok arr close in simp_all)
    next
      case bad
      then show ?thesis using e by (intro good_Return) simp
    qed
  next
    case obj
    note e = evaluate_object_parsing [OF p [unfolded obj] l k [unfolded obj] n]
    consider (bad_key) "l' = L_token TK_value_separator" "key_text (lex_next s') = None"
      | (key) key s1 where "l' = L_token TK_value_separator" "key_text (lex_next s') = Some (key, s1)"
      | (close) "l' = L_token TK_end_object"
      | (bad) "l' \<noteq> L_token TK_value_separator" "l' \<noteq> L_token TK_end_object" by force
    then show ?thesis
    proof cases
      case key
      have "utf8_ok key" using key_text_ok [of "fst (lex_next s')" "snd (lex_next s')"] key(2) lex_next_ok by simp
      then have "stack_ok (Some (os, FObj (map_emplace m key JNull) (Some key)))"
        using ok obj emplace_frame_ok [of m key] by simp
      then show ?thesis
        using e key
        by (intro good_value [where \<sigma> = "Some (os, FObj (map_emplace m key JNull) (Some key))" and
              l = "fst (lex_next s1)" and s = "snd (lex_next s1)"])
          (auto simp: map_find_emplace lex_next_ok)
    next
      case close
      show ?thesis
        by (rule good_close [where os = os and f = "FObj m None" and l = l' and s = s' and sx = "ps_sax st"])
          (use e at ok obj close in simp_all)
    qed (use e in \<open>auto intro: good_Return\<close>)
  qed
qed

lemma lexeme_value_ok: "lexeme_value l = Some v \<Longrightarrow> lexeme_ok l \<Longrightarrow> parsed_ok v"
  by (cases l) (auto split: if_splits)

lemma kinds_put_value: "kinds (put_value \<sigma> v) = kinds \<sigma>"
proof (cases \<sigma>)
  case (Some p)
  obtain os f where "p = (os, f)" by (cases p)
  moreover have "is_farr (put_child f v) = is_farr f" by (cases "(f, v)" rule: put_child.cases) auto
  ultimately show ?thesis using Some by simp
qed simp

text \<open>The rest of the loop body after a value is complete, or after the loop goes on.\<close>

lemma parse_step_break:
  assumes st: "\<not> ps_skip st" "stack_ok \<sigma>" "stack_wants \<sigma>" "parsed_ok v" "l \<noteq> L_error"
    and pv: "\<exists>st'. parse_value st = Inr (Break, st') \<and> parsing (put_value \<sigma> v) l s st' \<and> ps_states st' = kinds \<sigma> \<and>
      (\<sigma> = None \<longrightarrow> root (ps_sax st') = v)"
  shows "good_step (parse_step st)"
proof -
  obtain st' where st': "parse_value st = Inr (Break, st')" "parsing (put_value \<sigma> v) l s st'"
      "ps_states st' = kinds \<sigma>" "\<sigma> = None \<longrightarrow> root (ps_sax st') = v"
    using pv by blast
  have "put_value \<sigma> v = None \<Longrightarrow> \<sigma> = None" by (cases \<sigma>) auto
  then have "after_state st'"
    unfolding after_state_def
    by (intro exI [of _ "put_value \<sigma> v"] exI [of _ l] exI [of _ s])
      (use st st' put_value_ok [OF st(2,4)] put_value_done [OF st(3)] in \<open>auto simp: kinds_put_value\<close>)
  then show ?thesis using evaluate_state_good st(1) st'(1) by (simp add: parse_step_def)
qed

lemma parse_step_continue: "\<not> ps_skip st \<Longrightarrow> good_step (parse_value st) \<Longrightarrow> good_step (parse_step st)"
  by (auto simp: parse_step_def good_step_def)

text \<open>The first member of an object.\<close>

lemma parse_value_member_good:
  assumes p: "parsing \<sigma> (L_token TK_begin_object) s st" and k: "ps_states st = kinds \<sigma>" and ok: "stack_ok \<sigma>" and w: "stack_wants \<sigma>"
    and n: "lex_next s = (l', s')" "l' \<noteq> L_token TK_end_object"
  shows "good_step (parse_value st)"
proof (cases "key_text (l', s')")
  case None
  then show ?thesis using parse_value_object [OF p w k n(1)] n(2) by (intro good_Return) simp
next
  case (Some ks)
  obtain key s1 where ks: "ks = (key, s1)" by (cases ks)
  have "lexeme_ok l'" using lex_next_ok [of s] n by simp
  then have "frame_ok (FObj [(key, JNull)] (Some key))"
    using key_text_ok [of l' s'] Some ks emplace_frame_ok [of "[]" key] by (simp add: map_emplace_def)
  then have "stack_ok (push_frame \<sigma> (FObj [(key, JNull)] (Some key)))" using push_frame_ok ok by blast
  moreover have "stack_wants (push_frame \<sigma> (FObj [(key, JNull)] (Some key)))" by (cases \<sigma>) auto
  ultimately show ?thesis
    using parse_value_object [OF p w k n(1)] n(2) Some ks
    by (intro good_value [where \<sigma> = "push_frame \<sigma> (FObj [(key, JNull)] (Some key))" and
          l = "fst (lex_next s1)" and s = "snd (lex_next s1)"])
      (auto simp: lex_next_ok)
qed

lemma parse_step_good:
  assumes "loop_state st"
  shows "good_step (parse_step st)"
proof (cases "ps_skip st")
  case True
  then show ?thesis
    using assms evaluate_state_good by (simp add: loop_state_def parse_step_def)
next
  case False
  then obtain \<sigma> l s where p: "parsing \<sigma> l s st" and k: "ps_states st = kinds \<sigma>" and ok: "stack_ok \<sigma>" and
      l: "lexeme_ok l" and w: "stack_wants \<sigma>"
    using assms by (auto simp: loop_state_def value_state_def)
  obtain l' s' where n: "lex_next s = (l', s')" by (cases "lex_next s")
  have l': "lexeme_ok l'" using lex_next_ok [of s] n by simp
  note break = parse_step_break [OF False ok w] and continue = parse_step_continue [OF False]
  consider (prim) v where "lexeme_value l = Some v" | (arr) "l = L_token TK_begin_array"
    | (obj) "l = L_token TK_begin_object"
    | (bad) "lexeme_value l = None" "l \<noteq> L_token TK_begin_array" "l \<noteq> L_token TK_begin_object" by blast
  then show ?thesis
  proof cases
    case prim
    then have "l \<noteq> L_error" by auto
    then show ?thesis
      using break parse_value_primitive [OF p w prim] k lexeme_value_ok [OF prim l] by metis
  next
    case arr
    note v = parse_value_array [OF p [unfolded arr] w k n]
    show ?thesis
    proof (cases "l' = L_token TK_end_array")
      case True
      then show ?thesis using v by (intro break) auto
    next
      case False
      then show ?thesis
        using v ok l' push_frame_ok [of \<sigma> "FArr []"] push_frame_Some [of \<sigma> "FArr []"]
        by (intro continue good_value [where \<sigma> = "push_frame \<sigma> (FArr [])" and l = l' and s = s']) auto
    qed
  next
    case obj
    show ?thesis
    proof (cases "l' = L_token TK_end_object")
      case True
      then show ?thesis using parse_value_object [OF p [unfolded obj] w k n] by (intro break) auto
    next
      case False
      then show ?thesis using parse_value_member_good [OF p [unfolded obj] k ok w n] by (intro continue) blast
    qed
  next
    case bad
    then show ?thesis using parse_value_fails [OF p] by (intro continue good_Return) simp
  qed
qed

lemma sax_parse_internal_good:
  "loop_state st \<Longrightarrow> \<exists>r st'. sax_parse_internal st = Inr (r, st') \<and> (if r then finished st' else failed st')"
proof (induction st rule: sax_parse_internal.induct)
  case (1 st)
  then show ?case
    using parse_step_good [OF 1(3)]
    by (subst sax_parse_internal.simps) (fastforce simp: good_step_def)
qed


definition initial_sax :: sax where
  "initial_sax = \<lparr>root = JNull, ref_stack = [], object_element = None, errored = False, sax_allow_exceptions = False\<rparr>"

lemma parser_new_lex:
  "\<exists>p. parser_new s False False False = Inr p \<and> \<not> allow_exceptions p \<and>
     parsing None (fst (lex_first s)) (snd (lex_first s))
       \<lparr>ps_parser = p, ps_sax = initial_sax, ps_states = [], ps_skip = False\<rparr>"
proof -
  obtain t lx s1 b where sc: "scan (lexer_new s False) = Inr (t, lx)" "lexeme_of t lx = fst (lex_first s)"
      "lex_at lx s1 b" "t \<noteq> TK_parse_error \<longrightarrow> s1 = snd (lex_first s)"
    using scan_first [of s] by (auto simp: scans_def)
  then show ?thesis
    by (intro exI [of _ "\<lparr>last_token = t, m_lexer = lx, allow_exceptions = False, ignore_trailing_commas = False\<rparr>"])
      (auto simp: parser_new_def get_token_def parsing_def ps_lex_def initial_sax_def)
qed

text \<open>What \<open>parse\<close> does once the loop has ended.\<close>

definition parse_end :: "parse_state \<Rightarrow> failure + json" where
  "parse_end st =
     ebind (ebind (next_token st)
              (\<lambda>st. if ps_token st \<noteq> TK_end_of_input
                    then ebind (syntax_error TK_end_of_input ''value'' st) (\<lambda>(_, st). Inr st) else Inr st))
       (\<lambda>st. if errored (ps_sax st) then Inr JDiscarded else Inr (root (ps_sax st)))"

lemma json_parse_loop:
  assumes "parser_new s False False False = Inr p" "\<not> allow_exceptions p"
  shows "json_parse s False =
    ebind (sax_parse_internal \<lparr>ps_parser = p, ps_sax = initial_sax, ps_states = [], ps_skip = False\<rparr>)
      (\<lambda>(_, st). parse_end st)"
  using assms by (simp add: json_parse_def parser_parse_def initial_sax_def parse_end_def)

lemma parse_end_total:
  assumes "finished st \<or> failed st"
  shows "\<exists>j. parse_end st = Inr j \<and> (j = JDiscarded \<or> parsed_ok j)"
proof -
  obtain l s where "ps_lex l s st" using assms by (auto simp: finished_def failed_def)
  then obtain st1 l' s' where st1: "next_token st = Inr st1" "ps_lex l' s' st1" "st1 = st\<lparr>ps_parser := ps_parser st1\<rparr>"
    using next_token_any by blast
  have sx: "ps_sax st1 = ps_sax st" by (subst st1(3)) simp
  show ?thesis
    using assms st1(1) sx
    by (auto simp: parse_end_def syntax_error_def return_error_def sax_parse_error_def Let_def
        finished_def failed_def)
qed

lemma json_parse_total: "\<exists>j. json_parse s False = Inr j \<and> (j = JDiscarded \<or> parsed_ok j)"
proof -
  obtain p where p: "parser_new s False False False = Inr p" "\<not> allow_exceptions p"
      "parsing None (fst (lex_first s)) (snd (lex_first s))
       \<lparr>ps_parser = p, ps_sax = initial_sax, ps_states = [], ps_skip = False\<rparr>"
    using parser_new_lex by blast
  have "loop_state \<lparr>ps_parser = p, ps_sax = initial_sax, ps_states = [], ps_skip = False\<rparr>"
    by (rule value_stateI [OF p(3)]) (simp_all add: lex_first_ok)
  then obtain r st where "sax_parse_internal \<lparr>ps_parser = p, ps_sax = initial_sax, ps_states = [], ps_skip = False\<rparr> = Inr (r, st)"
      "finished st \<or> failed st"
    using sax_parse_internal_good by (metis (full_types))
  then show ?thesis
    using parse_end_total [of st] json_parse_loop [OF p(1,2)] by simp
qed

end
