(* ===== verification/Json_Grammar.thy ===== *)
theory Json_Grammar
  imports Json_Parse
begin

text \<open>
  The reference for \<open>basic_json::parse\<close>: a recursive-descent parser over the lexemes of a text, and the
  proof that the loop of \<open>detail::parser::sax_parse_internal\<close>, with its explicit stack and the
  pointers of the event handler, computes the same function on every text.
\<close>

section \<open>Lexemes consume text\<close>

lemma lex_fraction_split: "lex_fraction s = Some (fp, r) \<Longrightarrow> s = fp @ r"
  by (auto simp: lex_fraction_def Let_def split: list.splits if_splits)

lemma lex_exponent_split:
  assumes "lex_exponent s = Some (ep, r)"
  shows "s = ep @ r"
proof (cases s)
  case (Cons c s')
  then show ?thesis
    using assms by (auto simp: lex_exponent_def Let_def split: list.splits if_splits)
qed (use assms in \<open>simp add: lex_exponent_def\<close>)

lemma lex_integer_part_split: "lex_integer_part s = Some (ip, r) \<Longrightarrow> s = ip @ r"
  by (auto simp: lex_integer_part_def split: list.splits if_splits)

lemma lex_number_split:
  assumes "lex_number s = Some (txt, kind, r)"
  shows "s = txt @ r" and "txt \<noteq> []"
proof -
  define mn where "mn = (case s of c # r \<Rightarrow> if c = CHR ''-'' then [c] else [] | [] \<Rightarrow> [])"
  define s1 where "s1 = (case s of c # r \<Rightarrow> if c = CHR ''-'' then r else s | [] \<Rightarrow> s)"
  have s: "s = mn @ s1" by (auto simp: mn_def s1_def split: list.splits)
  have p: "(case s of c # r \<Rightarrow> if c = CHR ''-'' then ([c], r) else ([], s) | [] \<Rightarrow> ([], s)) = (mn, s1)"
    by (auto simp: mn_def s1_def split: list.splits)
  obtain ip s2 where ip: "lex_integer_part s1 = Some (ip, s2)"
    using assms unfolding lex_number_def p by (auto split: option.splits)
  obtain fp s3 where fp: "lex_fraction s2 = Some (fp, s3)"
    using assms ip unfolding lex_number_def p by (auto split: option.splits)
  obtain ep where ep: "lex_exponent s3 = Some (ep, r)" and tx: "txt = mn @ ip @ fp @ ep"
    using assms ip fp unfolding lex_number_def p by (auto split: option.splits)
  show "s = txt @ r"
    using s tx lex_integer_part_split [OF ip] lex_fraction_split [OF fp] lex_exponent_split [OF ep] by simp
  show "txt \<noteq> []" using tx lex_integer_part_digits [OF ip] by simp
qed

lemma lex_number_length: "lex_number s = Some (tx, kind, r) \<Longrightarrow> length r < length s"
  using lex_number_split [of s tx kind r] by simp

lemma lex_string_length: "lex_string buf s = Some (str, r) \<Longrightarrow> length r < length s"
proof (induction buf s rule: lex_string.induct)
  case (1 buf s)
  show ?case
    using 1(2) 1(1) lex_char_length
    by (subst (asm) lex_string.simps) (fastforce split: list.splits if_splits option.splits)
qed

lemma lex_literal_length:
  "lex_literal lit t s = (l, r) \<Longrightarrow> lit \<noteq> [] \<Longrightarrow> l = L_error \<and> r = [] \<or> length r < length s"
  by (cases s) (auto simp: lex_literal_def split: if_splits)

lemma lex_nows_token: "c \<in> set ''[]{}:,'' \<or> c = CHR 0x00 \<Longrightarrow> \<exists>t. lex_nows (c # s) = (L_token t, s)"
  by (elim disjE; simp add: lex_nows_def is_digit_char_def; elim disjE; simp)

lemma lex_nows_literal: "c \<in> set ''tfn'' \<Longrightarrow> \<exists>lit t. lit \<noteq> [] \<and> lex_nows (c # s) = lex_literal lit t (c # s)"
  by (auto simp: lex_nows_def)

lemma is_digit_char_other: "is_digit_char c \<Longrightarrow> c \<notin> set ''[]{}:,tfn-'' \<and> c \<noteq> CHR 0x22"
  by (auto simp: is_digit_char_def)

lemma lex_nows_number:
  "c = CHR ''-'' \<or> is_digit_char c \<Longrightarrow> lex_nows (c # s) =
     (case lex_number (c # s) of None \<Rightarrow> (L_error, []) | Some (tx, kind, r) \<Rightarrow> (number_lexeme tx kind, r))"
  using is_digit_char_other [of c] by (elim disjE) (simp_all add: lex_nows_def)

lemma lex_nows_string:
  "lex_nows (CHR 0x22 # s) = (case lex_string [] s of None \<Rightarrow> (L_error, []) | Some (str, r) \<Rightarrow> (L_string str, r))"
  by (simp add: lex_nows_def)

lemma lex_nows_other:
  "\<not> (c \<in> set ''[]{}:,'' \<or> c = CHR 0x00) \<Longrightarrow> c \<notin> set ''tfn'' \<Longrightarrow> c \<noteq> CHR 0x22 \<Longrightarrow>
   \<not> (c = CHR ''-'' \<or> is_digit_char c) \<Longrightarrow> lex_nows (c # s) = (L_error, [])"
  by (simp add: lex_nows_def)

lemma lex_nows_length:
  assumes "lex_nows s = (l, r)"
  shows "length r \<le> length s \<and> (l \<noteq> L_token TK_end_of_input \<longrightarrow> l \<noteq> L_error \<longrightarrow> length r < length s)"
proof (cases s)
  case (Cons c s')
  consider (tok) "c \<in> set ''[]{}:,'' \<or> c = CHR 0x00" | (lit) "c \<in> set ''tfn''" | (str) "c = CHR 0x22"
    | (num) "c = CHR ''-'' \<or> is_digit_char c"
    | (other) "\<not> (c \<in> set ''[]{}:,'' \<or> c = CHR 0x00)" "c \<notin> set ''tfn''" "c \<noteq> CHR 0x22" "\<not> (c = CHR ''-'' \<or> is_digit_char c)"
    by blast
  then show ?thesis
  proof cases
    case tok
    then show ?thesis using lex_nows_token [of c s'] assms Cons by auto
  next
    case lit
    obtain x t where x: "x \<noteq> []" "lex_nows s = lex_literal x t s"
      using lex_nows_literal [OF lit, of s'] Cons by blast
    then show ?thesis using lex_literal_length [of x t s l r] assms by auto
  next
    case str
    then show ?thesis
      using lex_nows_string [of s'] lex_string_length [of "[]" s'] assms Cons by (auto split: option.splits)
  next
    case num
    then show ?thesis
      using lex_nows_number [of c s'] lex_number_length [of s] assms Cons by (fastforce split: option.splits)
  next
    case other
    then show ?thesis using lex_nows_other [of c s'] assms Cons by simp
  qed
qed (use assms in \<open>simp add: lex_nows_def\<close>)

lemma lex_next_length:
  assumes "lex_next s = (l, r)"
  shows "length r \<le> length s" and "l \<noteq> L_token TK_end_of_input \<Longrightarrow> l \<noteq> L_error \<Longrightarrow> length r < length s"
  using lex_nows_length [of "dropWhile is_ws s" l r] assms length_dropWhile_le [of is_ws s]
  by (auto simp: lex_next_def)

lemma key_text_length:
  assumes "key_text (lex_next s) = Some (key, s1)"
  shows "length s1 < length s"
proof -
  obtain l r where l: "lex_next s = (l, r)" by (cases "lex_next s")
  obtain l' r' where l': "lex_next r = (l', r')" by (cases "lex_next r")
  have "l = L_string key" "s1 = r'" using assms l l' by (cases l; auto split: if_splits)+
  then show ?thesis using lex_next_length [OF l] lex_next_length(1) [OF l'] by simp
qed

section \<open>The grammar\<close>

text \<open>
  A recursive-descent parser over lexemes, the reference for the loop of the SAX parser.  Each function
  takes the text in front of the construct and yields its value and the text behind it.  The tests on
  lengths always succeed (\<open>rd_elements_eq\<close>, \<open>rd_members_eq\<close>); they make the recursion well founded.
\<close>

function rd_value :: "string \<Rightarrow> (json \<times> string) option"
  and rd_elements :: "json list \<Rightarrow> string \<Rightarrow> (json \<times> string) option"
  and rd_members :: "(string \<times> json) list \<Rightarrow> string \<Rightarrow> (json \<times> string) option"
where
  "rd_value s =
     (case lex_next s of
        (l, s1) \<Rightarrow>
          if l = L_token TK_begin_array then
            (if fst (lex_next s1) = L_token TK_end_array then Some (JArray [], snd (lex_next s1))
             else rd_elements [] s1)
          else if l = L_token TK_begin_object then
            (if fst (lex_next s1) = L_token TK_end_object then Some (JObject [], snd (lex_next s1))
             else rd_members [] s1)
          else map_option (\<lambda>v. (v, s1)) (lexeme_value l))"
| "rd_elements xs s =
     (case rd_value s of
        None \<Rightarrow> None
      | Some (v, s1) \<Rightarrow>
          (case lex_next s1 of
             (l, s2) \<Rightarrow>
               if l = L_token TK_value_separator then
                 (if length s2 < length s then rd_elements (xs @ [v]) s2 else None)
               else if l = L_token TK_end_array then Some (JArray (xs @ [v]), s2)
               else None))"
| "rd_members m s =
     (case key_text (lex_next s) of
        None \<Rightarrow> None
      | Some (key, s1) \<Rightarrow>
          (case rd_value s1 of
             None \<Rightarrow> None
           | Some (v, s2) \<Rightarrow>
               (case lex_next s2 of
                  (l, s3) \<Rightarrow>
                    if l = L_token TK_value_separator then
                      (if length s3 < length s then rd_members (map_put m key v) s3 else None)
                    else if l = L_token TK_end_object then Some (JObject (map_put m key v), s3)
                    else None)))"
  by pat_completeness auto
termination
  by (relation "measure (\<lambda>x. case x of Inl s \<Rightarrow> 2 * length s | Inr (Inl (_, s)) \<Rightarrow> 2 * length s + 1
        | Inr (Inr (_, s)) \<Rightarrow> 2 * length s + 1)")
    (auto dest: lex_next_length key_text_length dest!: sym [of _ "lex_next _"])

declare rd_value.simps [simp del] rd_elements.simps [simp del] rd_members.simps [simp del]

lemma rd_length:
  "rd_value s = Some (v, r) \<Longrightarrow> length r < length s"
  "rd_elements xs s = Some (v, r) \<Longrightarrow> length r < length s"
  "rd_members m s = Some (v, r) \<Longrightarrow> length r < length s"
proof (induction s and xs s and m s arbitrary: v r and v r and v r rule: rd_value_rd_elements_rd_members.induct)
  case (1 s)
  obtain l s1 where l: "lex_next s = (l, s1)" by (cases "lex_next s")
  obtain l2 s2 where l2: "lex_next s1 = (l2, s2)" by (cases "lex_next s1")
  have le: "length s2 \<le> length s1" using lex_next_length(1) [OF l2] .
  have lt: "l \<noteq> L_token TK_end_of_input \<Longrightarrow> l \<noteq> L_error \<Longrightarrow> length s1 < length s" using lex_next_length(2) [OF l] .
  show ?case
    using 1(3) 1(1,2) [OF l [symmetric]] le lt l l2
    by (subst (asm) rd_value.simps) (fastforce split: if_splits)
next
  case (2 xs s)
  obtain v1 s1 where v1: "rd_value s = Some (v1, s1)"
    using 2(3) by (subst (asm) rd_elements.simps) (auto split: option.splits)
  obtain l s2 where l: "lex_next s1 = (l, s2)" by (cases "lex_next s1")
  show ?case
    using 2(3) v1 l 2(1) [OF v1] 2(2) [OF v1 refl l [symmetric]] lex_next_length(1) [OF l]
    by (subst (asm) rd_elements.simps) (fastforce split: if_splits)
next
  case (3 m s)
  obtain key s1 where k: "key_text (lex_next s) = Some (key, s1)"
    using 3(3) by (subst (asm) rd_members.simps) (auto split: option.splits)
  obtain v1 s2 where v1: "rd_value s1 = Some (v1, s2)"
    using 3(3) k by (subst (asm) rd_members.simps) (auto split: option.splits)
  obtain l s3 where l: "lex_next s2 = (l, s3)" by (cases "lex_next s2")
  show ?case
    using 3(3) k v1 l 3(1) [OF k refl v1] 3(2) [OF k refl v1 refl l [symmetric]] lex_next_length(1) [OF l] key_text_length [OF k]
    by (subst (asm) rd_members.simps) (fastforce split: if_splits)
qed


lemma rd_elements_eq:
  "rd_elements xs s =
     (case rd_value s of
        None \<Rightarrow> None
      | Some (v, s1) \<Rightarrow>
          (case lex_next s1 of
             (l, s2) \<Rightarrow>
               if l = L_token TK_value_separator then rd_elements (xs @ [v]) s2
               else if l = L_token TK_end_array then Some (JArray (xs @ [v]), s2)
               else None))"
  by (subst rd_elements.simps)
    (auto split: option.splits prod.splits dest!: rd_length(1) lex_next_length(1))

lemma rd_members_eq:
  "rd_members m s =
     (case key_text (lex_next s) of
        None \<Rightarrow> None
      | Some (key, s1) \<Rightarrow>
          (case rd_value s1 of
             None \<Rightarrow> None
           | Some (v, s2) \<Rightarrow>
               (case lex_next s2 of
                  (l, s3) \<Rightarrow>
                    if l = L_token TK_value_separator then rd_members (map_put m key v) s3
                    else if l = L_token TK_end_object then Some (JObject (map_put m key v), s3)
                    else None)))"
  by (subst rd_members.simps)
    (auto split: option.splits prod.splits dest!: key_text_length rd_length(1) lex_next_length(1))

text \<open>A document: an optional byte order mark, one value, and nothing but whitespace behind it.\<close>

definition strip_bom :: "string \<Rightarrow> string option" where
  "strip_bom s =
     (if s \<noteq> [] \<and> hd s = CHR 0xEF
      then (if take 3 s = [CHR 0xEF, CHR 0xBB, CHR 0xBF] then Some (drop 3 s) else None)
      else Some s)"

definition rd_document :: "string \<Rightarrow> json option" where
  "rd_document s =
     (case strip_bom s of
        None \<Rightarrow> None
      | Some s1 \<Rightarrow>
          (case rd_value s1 of
             None \<Rightarrow> None
           | Some (v, s2) \<Rightarrow> if fst (lex_next s2) = L_token TK_end_of_input then Some v else None))"

section \<open>The loop implements the grammar\<close>

definition resume :: "failure + branch \<times> parse_state \<Rightarrow> failure + bool \<times> parse_state" where
  "resume m = ebind m (\<lambda>(b, st). case b of Return r \<Rightarrow> Inr (r, st) | _ \<Rightarrow> sax_parse_internal st)"

lemma sax_parse_internal_resume: "sax_parse_internal st = resume (parse_step st)"
  by (subst sax_parse_internal.simps) (simp add: resume_def)

lemma resume_simps [simp]:
  "resume (Inr (Continue, st)) = sax_parse_internal st"
  "resume (Inr (Return r, st)) = Inr (r, st)"
  by (simp_all add: resume_def)

lemma parse_step_value:
  "parsing \<sigma> l s st \<Longrightarrow>
   parse_step st = ebind (parse_value st) (\<lambda>(b, st). if b = Break then evaluate_state st else Inr (b, st))"
  by (simp add: parse_step_def parsing_def)

lemma sax_parse_internal_skip:
  "ps_skip st \<Longrightarrow> sax_parse_internal st = resume (evaluate_state (st\<lparr>ps_skip := False\<rparr>))"
  by (simp add: sax_parse_internal_resume parse_step_def)

text \<open>
  The loop has read a value of the grammar into the innermost open container and goes on with the text
  behind it, or it has recorded a syntax error where the grammar rejects the text.
\<close>

definition reads :: "stack \<Rightarrow> (json \<times> string) option \<Rightarrow> failure + bool \<times> parse_state \<Rightarrow> bool" where
  "reads \<sigma> spec m \<longleftrightarrow>
     (case spec of
        None \<Rightarrow> \<exists>st. m = Inr (False, st) \<and> failed st
      | Some (v, s) \<Rightarrow>
          \<exists>st l. m = resume (evaluate_state st) \<and> parsing (put_value \<sigma> v) l s st \<and> l \<noteq> L_error \<and>
            ps_states st = kinds \<sigma> \<and> (\<sigma> = None \<longrightarrow> root (ps_sax st) = v))"

lemma reads_failed: "\<exists>st. m = Inr (Return False, st) \<and> failed st \<Longrightarrow> reads \<sigma> None (resume m)"
  by (auto simp: reads_def)

lemma reads_value_failed:
  "parsing \<sigma> l s st \<Longrightarrow> \<exists>st'. parse_value st = Inr (Return False, st') \<and> failed st' \<Longrightarrow> reads \<sigma> None (sax_parse_internal st)"
  by (auto simp: sax_parse_internal_resume parse_step_value reads_def)

lemma reads_break:
  assumes "parsing \<sigma> l s st"
    and "\<exists>st'. parse_value st = Inr (Break, st') \<and> parsing (put_value \<sigma> v) l' s' st' \<and> ps_states st' = kinds \<sigma> \<and>
      (\<sigma> = None \<longrightarrow> root (ps_sax st') = v)"
    and "l' \<noteq> L_error"
  shows "reads \<sigma> (Some (v, s')) (sax_parse_internal st)"
  using assms by (fastforce simp: sax_parse_internal_resume parse_step_value [OF assms(1)] reads_def)

lemma reads_close:
  assumes "\<exists>st'. evaluate_state st = Inr (Continue, st') \<and> ps_skip st' \<and>
      parsing (pop_frame (push_frame \<sigma> g)) l s (st'\<lparr>ps_skip := False\<rparr>) \<and>
      ps_states st' = kinds (pop_frame (push_frame \<sigma> g)) \<and> (\<sigma> = None \<longrightarrow> root (ps_sax st') = close_frame g)"
    and "l \<noteq> L_error"
  shows "reads \<sigma> (Some (close_frame g, s)) (resume (evaluate_state st))"
proof -
  obtain st' where st': "evaluate_state st = Inr (Continue, st')" "ps_skip st'"
      "parsing (put_value \<sigma> (close_frame g)) l s (st'\<lparr>ps_skip := False\<rparr>)"
      "ps_states st' = kinds \<sigma>" "\<sigma> = None \<longrightarrow> root (ps_sax st') = close_frame g"
    using assms(1) by (auto simp: pop_push kinds_put_value)
  then show ?thesis
    using assms(2) by (auto simp: reads_def sax_parse_internal_skip intro!: exI [of _ "st'\<lparr>ps_skip := False\<rparr>"] exI [of _ l])
qed


lemma reads_value:
  assumes p0: "parsing \<sigma> (fst (lex_next s)) (snd (lex_next s)) st" and w: "stack_wants \<sigma>" and k: "ps_states st = kinds \<sigma>"
    and elems: "\<And>s1 st'. lex_next s = (L_token TK_begin_array, s1) \<Longrightarrow> fst (lex_next s1) \<noteq> L_token TK_end_array \<Longrightarrow>
      parsing (push_frame \<sigma> (FArr [])) (fst (lex_next s1)) (snd (lex_next s1)) st' \<Longrightarrow>
      ps_states st' = kinds (push_frame \<sigma> (FArr [])) \<Longrightarrow> reads \<sigma> (rd_elements [] s1) (sax_parse_internal st')"
    and mems: "\<And>s1 key s' st'. lex_next s = (L_token TK_begin_object, s1) \<Longrightarrow> fst (lex_next s1) \<noteq> L_token TK_end_object \<Longrightarrow>
      key_text (lex_next s1) = Some (key, s') \<Longrightarrow>
      parsing (push_frame \<sigma> (FObj (map_emplace [] key JNull) (Some key))) (fst (lex_next s')) (snd (lex_next s')) st' \<Longrightarrow>
      ps_states st' = kinds (push_frame \<sigma> (FObj (map_emplace [] key JNull) (Some key))) \<Longrightarrow>
      reads \<sigma> (rd_members [] s1) (sax_parse_internal st')"
  shows "reads \<sigma> (rd_value s) (sax_parse_internal st)"
proof -
  obtain l s1 where l: "lex_next s = (l, s1)" by (cases "lex_next s")
  obtain l2 s2 where l2: "lex_next s1 = (l2, s2)" by (cases "lex_next s1")
  have p: "parsing \<sigma> l s1 st" using p0 l by simp
  consider (arr) "l = L_token TK_begin_array" | (obj) "l = L_token TK_begin_object"
    | (prim) v where "lexeme_value l = Some v"
    | (bad) "lexeme_value l = None" "l \<noteq> L_token TK_begin_array" "l \<noteq> L_token TK_begin_object" by blast
  then show ?thesis
  proof cases
    case arr
    note v = parse_value_array [OF p [unfolded arr] w k l2]
    show ?thesis
    proof (cases "l2 = L_token TK_end_array")
      case True
      then have "rd_value s = Some (JArray [], s2)" by (subst rd_value.simps) (simp add: l l2 arr)
      then show ?thesis using reads_break [OF p, of "JArray []" l2 s2] v True by simp
    next
      case False
      then have rd: "rd_value s = rd_elements [] s1" by (subst rd_value.simps) (simp add: l l2 arr)
      obtain st' where st': "parse_value st = Inr (Continue, st')" "parsing (push_frame \<sigma> (FArr [])) l2 s2 st'"
          "ps_states st' = kinds (push_frame \<sigma> (FArr []))" using v False by auto
      then have "reads \<sigma> (rd_elements [] s1) (sax_parse_internal st')"
        using elems [of s1 st'] l arr False l2 by simp
      then show ?thesis using rd st'(1) by (simp add: sax_parse_internal_resume [of st] parse_step_value [OF p])
    qed
  next
    case obj
    note v = parse_value_object [OF p [unfolded obj] w k l2]
    show ?thesis
    proof (cases "l2 = L_token TK_end_object")
      case True
      then have "rd_value s = Some (JObject [], s2)" by (subst rd_value.simps) (simp add: l l2 obj)
      then show ?thesis using reads_break [OF p, of "JObject []" l2 s2] v True by simp
    next
      case False
      then have rd: "rd_value s = rd_members [] s1" by (subst rd_value.simps) (simp add: l l2 obj)
      show ?thesis
      proof (cases "key_text (l2, s2)")
        case None
        then have "rd_members [] s1 = None" by (subst rd_members.simps) (simp add: l2)
        then show ?thesis using reads_value_failed [OF p] rd v False None by simp
      next
        case (Some ks)
        obtain key s3 where ks: "ks = (key, s3)" by (cases ks)
        obtain st' where st': "parse_value st = Inr (Continue, st')"
            "parsing (push_frame \<sigma> (FObj [(key, JNull)] (Some key))) (fst (lex_next s3)) (snd (lex_next s3)) st'"
            "ps_states st' = kinds (push_frame \<sigma> (FObj [(key, JNull)] (Some key)))"
          using v False Some ks by auto
        have "reads \<sigma> (rd_members [] s1) (sax_parse_internal st')"
          by (rule mems [of s1 key s3]) (use l obj False l2 Some ks st' in \<open>simp_all add: map_emplace_def\<close>)
        then show ?thesis using rd st'(1) by (simp add: sax_parse_internal_resume [of st] parse_step_value [OF p])
      qed
    qed
  next
    case prim
    then have "rd_value s = Some (v, s1)" and "l \<noteq> L_error" by (subst rd_value.simps, auto simp: l)
    then show ?thesis
      using reads_break [OF p, of v l s1] parse_value_primitive [OF p w prim] k by simp
  next
    case bad
    then have "rd_value s = None" by (subst rd_value.simps) (simp add: l)
    then show ?thesis using reads_value_failed [OF p parse_value_fails [OF p bad]] by simp
  qed
qed

lemma reads_elements:
  assumes p: "parsing (push_frame \<sigma> (FArr xs)) (fst (lex_next s)) (snd (lex_next s)) st"
    and k: "ps_states st = kinds (push_frame \<sigma> (FArr xs))"
    and val: "\<And>\<sigma> st. parsing \<sigma> (fst (lex_next s)) (snd (lex_next s)) st \<Longrightarrow> stack_wants \<sigma> \<Longrightarrow> ps_states st = kinds \<sigma> \<Longrightarrow>
      reads \<sigma> (rd_value s) (sax_parse_internal st)"
    and more: "\<And>x s2 st'. rd_elements xs s = rd_elements (xs @ [x]) s2 \<Longrightarrow> length s2 < length s \<Longrightarrow>
      parsing (push_frame \<sigma> (FArr (xs @ [x]))) (fst (lex_next s2)) (snd (lex_next s2)) st' \<Longrightarrow>
      ps_states st' = kinds (push_frame \<sigma> (FArr (xs @ [x]))) \<Longrightarrow> reads \<sigma> (rd_elements (xs @ [x]) s2) (sax_parse_internal st')"
  shows "reads \<sigma> (rd_elements xs s) (sax_parse_internal st)"
proof -
  obtain os where os: "push_frame \<sigma> g = Some (os, g)" "os = [] \<longleftrightarrow> \<sigma> = None" for g
    by (cases \<sigma>) auto
  have w: "stack_wants (push_frame \<sigma> (FArr xs))" by (simp add: os)
  note v = val [OF p w k]
  show ?thesis
  proof (cases "rd_value s")
    case None
    then show ?thesis using v by (simp add: rd_elements_eq [of xs s] reads_def)
  next
    case (Some vs)
    obtain x s1 where vs: "vs = (x, s1)" by (cases vs)
    obtain l' s2 where l': "lex_next s1 = (l', s2)" by (cases "lex_next s1")
    obtain st1 l where st1: "sax_parse_internal st = resume (evaluate_state st1)"
        "parsing (Some (os, FArr (xs @ [x]))) l s1 st1" "l \<noteq> L_error" "ps_states st1 = kinds (Some (os, FArr (xs @ [x])))"
      using v Some vs by (auto simp: reads_def os)
    note e = evaluate_array_parsing [OF st1(2,3,4) l']
    consider (sep) "l' = L_token TK_value_separator" | (close) "l' = L_token TK_end_array"
      | (bad) "l' \<noteq> L_token TK_value_separator" "l' \<noteq> L_token TK_end_array" by blast
    then show ?thesis
    proof cases
      case sep
      then have rd: "rd_elements xs s = rd_elements (xs @ [x]) s2" and lt: "length s2 < length s"
        using Some vs l' rd_length(1) [of s x s1] lex_next_length(1) [OF l'] by (simp_all add: rd_elements_eq [of xs s])
      obtain st2 where "evaluate_state st1 = Inr (Continue, st2)"
          "parsing (push_frame \<sigma> (FArr (xs @ [x]))) (fst (lex_next s2)) (snd (lex_next s2)) st2"
          "ps_states st2 = kinds (push_frame \<sigma> (FArr (xs @ [x])))"
        using e sep by (auto simp: os)
      then show ?thesis
        using more [of x s2 st2] lt rd st1(1) by simp
    next
      case close
      then have "rd_elements xs s = Some (close_frame (FArr (xs @ [x])), s2)"
        using Some vs l' by (simp add: rd_elements_eq [of xs s])
      then show ?thesis
        using reads_close [of st1 \<sigma> "FArr (xs @ [x])" l' s2] e close st1(1) by (simp add: os)
    next
      case bad
      then have "rd_elements xs s = None" using Some vs l' by (simp add: rd_elements_eq [of xs s])
      then show ?thesis using reads_failed e bad st1(1) by simp
    qed
  qed
qed

lemma reads_members:
  assumes key: "key_text (lex_next s) = Some (key, s')"
    and p: "parsing (push_frame \<sigma> (FObj (map_emplace m key JNull) (Some key))) (fst (lex_next s')) (snd (lex_next s')) st"
    and k: "ps_states st = kinds (push_frame \<sigma> (FObj (map_emplace m key JNull) (Some key)))"
    and val: "\<And>\<sigma> st. parsing \<sigma> (fst (lex_next s')) (snd (lex_next s')) st \<Longrightarrow> stack_wants \<sigma> \<Longrightarrow> ps_states st = kinds \<sigma> \<Longrightarrow>
      reads \<sigma> (rd_value s') (sax_parse_internal st)"
    and more: "\<And>s2 key' s3 x st'. key_text (lex_next s2) = Some (key', s3) \<Longrightarrow> length s2 < length s \<Longrightarrow>
      parsing (push_frame \<sigma> (FObj (map_emplace (map_put m key x) key' JNull) (Some key'))) (fst (lex_next s3)) (snd (lex_next s3)) st' \<Longrightarrow>
      ps_states st' = kinds (push_frame \<sigma> (FObj (map_emplace (map_put m key x) key' JNull) (Some key'))) \<Longrightarrow>
      reads \<sigma> (rd_members (map_put m key x) s2) (sax_parse_internal st')"
  shows "reads \<sigma> (rd_members m s) (sax_parse_internal st)"
proof -
  obtain os where os: "push_frame \<sigma> g = Some (os, g)" "os = [] \<longleftrightarrow> \<sigma> = None" for g
    by (cases \<sigma>) auto
  have w: "stack_wants (push_frame \<sigma> (FObj (map_emplace m key JNull) (Some key)))"
    by (auto simp: os map_find_emplace)
  note v = val [OF p w k]
  show ?thesis
  proof (cases "rd_value s'")
    case None
    then show ?thesis using v key by (simp add: rd_members_eq [of m s] reads_def)
  next
    case (Some vs)
    obtain x s1 where vs: "vs = (x, s1)" by (cases vs)
    obtain l' s2 where l': "lex_next s1 = (l', s2)" by (cases "lex_next s1")
    let ?m = "map_put m key x"
    have put: "map_put (map_emplace m key JNull) key x = ?m"
      by (simp add: map_emplace_def map_put_put split: option.split)
    obtain st1 l where st1: "sax_parse_internal st = resume (evaluate_state st1)"
        "parsing (Some (os, FObj ?m None)) l s1 st1" "l \<noteq> L_error" "ps_states st1 = kinds (Some (os, FObj ?m None))"
      using v Some vs by (auto simp: reads_def os put)
    note e = evaluate_object_parsing [OF st1(2,3,4) l']
    consider (bad_key) "l' = L_token TK_value_separator" "key_text (lex_next s2) = None"
      | (sep) key' s3 where "l' = L_token TK_value_separator" "key_text (lex_next s2) = Some (key', s3)"
      | (close) "l' = L_token TK_end_object"
      | (bad) "l' \<noteq> L_token TK_value_separator" "l' \<noteq> L_token TK_end_object" by force
    then show ?thesis
    proof cases
      case bad_key
      then have "rd_members m s = None" using key Some vs l' by (simp add: rd_members_eq [of m s] rd_members_eq [of ?m s2])
      then show ?thesis using reads_failed e bad_key st1(1) by simp
    next
      case sep
      have lt: "length s2 < length s"
        using rd_length(1) [of s' x s1] Some vs lex_next_length(1) [OF l'] key_text_length [OF key] by simp
      have rd: "rd_members m s = rd_members ?m s2"
        using Some vs l' sep key by (simp add: rd_members_eq [of m s])
      obtain st2 where "evaluate_state st1 = Inr (Continue, st2)"
          "parsing (push_frame \<sigma> (FObj (map_emplace ?m key' JNull) (Some key'))) (fst (lex_next s3)) (snd (lex_next s3)) st2"
          "ps_states st2 = kinds (push_frame \<sigma> (FObj (map_emplace ?m key' JNull) (Some key')))"
        using e sep by (auto simp: os)
      then show ?thesis
        using more [of s2 key' s3 x st2] sep(2) lt rd st1(1) by simp
    next
      case close
      then have "rd_members m s = Some (close_frame (FObj ?m None), s2)"
        using Some vs l' key by (simp add: rd_members_eq [of m s])
      then show ?thesis
        using reads_close [of st1 \<sigma> "FObj ?m None" l' s2] e close st1(1) by (simp add: os)
    next
      case bad
      then have "rd_members m s = None" using Some vs l' key by (simp add: rd_members_eq [of m s])
      then show ?thesis using reads_failed e bad st1(1) by simp
    qed
  qed
qed

text \<open>The induction runs over the length of the text; a container is entered after its bracket.\<close>

lemma rd_reads:
  shows "parsing \<sigma> (fst (lex_next s)) (snd (lex_next s)) st \<Longrightarrow> stack_wants \<sigma> \<Longrightarrow> ps_states st = kinds \<sigma> \<Longrightarrow>
    reads \<sigma> (rd_value s) (sax_parse_internal st)"
    and "parsing (push_frame \<sigma> (FArr xs)) (fst (lex_next s)) (snd (lex_next s)) st \<Longrightarrow>
    ps_states st = kinds (push_frame \<sigma> (FArr xs)) \<Longrightarrow> reads \<sigma> (rd_elements xs s) (sax_parse_internal st)"
    and "key_text (lex_next s) = Some (key, s') \<Longrightarrow>
    parsing (push_frame \<sigma> (FObj (map_emplace m key JNull) (Some key))) (fst (lex_next s')) (snd (lex_next s')) st \<Longrightarrow>
    ps_states st = kinds (push_frame \<sigma> (FObj (map_emplace m key JNull) (Some key))) \<Longrightarrow>
    reads \<sigma> (rd_members m s) (sax_parse_internal st)"
proof (induction "length s" arbitrary: s \<sigma> st xs m key s' rule: less_induct)
  case less
  have val: "reads \<tau> (rd_value s) (sax_parse_internal st')"
    if "parsing \<tau> (fst (lex_next s)) (snd (lex_next s)) st'" "stack_wants \<tau>" "ps_states st' = kinds \<tau>" for \<tau> st'
    by (rule reads_value [OF that]) (use less lex_next_length(2) in \<open>auto\<close>)
  { case 1 then show ?case by (rule val)
  next case 2 then show ?case by (rule reads_elements) (use val less(2) in auto)
  next case 3
    have "length s' < length s" using key_text_length [OF 3(1)] .
    with 3 show ?case by (intro reads_members [OF 3]) (use less in auto) }
qed

lemma parse_end_reads:
  assumes "ps_lex l s st" "l \<noteq> L_error" "\<not> errored (ps_sax st)" "\<not> sax_allow_exceptions (ps_sax st)"
  shows "parse_end st = Inr (if fst (lex_next s) = L_token TK_end_of_input then root (ps_sax st) else JDiscarded)"
proof -
  obtain st' l' s' where st': "next_token st = Inr st'" "ps_lex l' s' st'" "st' = st\<lparr>ps_parser := ps_parser st'\<rparr>"
      "(l', s') = lex_next s"
    using next_token_any [OF assms(1)] assms(2) by blast
  have sx: "ps_sax st' = ps_sax st" by (subst st'(3)) simp
  have "ps_token st' = TK_end_of_input \<longleftrightarrow> l' = L_token TK_end_of_input"
    using st'(2) by (cases "ps_token st'") (auto simp: ps_lex_def lexeme_of_def)
  then show ?thesis
    using st'(1) st'(4) [symmetric] sx assms(3,4)
    by (simp add: parse_end_def syntax_error_def return_error_def sax_parse_error_def Let_def)
qed

lemma parse_end_failed: "failed st \<Longrightarrow> parse_end st = Inr JDiscarded"
proof -
  assume f: "failed st"
  then obtain l s where "ps_lex l s st" by (auto simp: failed_def)
  then obtain st' where st': "next_token st = Inr st'" "st' = st\<lparr>ps_parser := ps_parser st'\<rparr>"
    using next_token_any by blast
  have "ps_sax st' = ps_sax st" by (subst st'(2)) simp
  then show ?thesis
    using st'(1) f by (simp add: parse_end_def failed_def syntax_error_def return_error_def sax_parse_error_def Let_def)
qed

lemma json_parse_document:
  "json_parse s False = Inr (case rd_document s of None \<Rightarrow> JDiscarded | Some j \<Rightarrow> j)"
proof -
  obtain p where p: "parser_new s False False False = Inr p" "\<not> allow_exceptions p"
      "parsing None (fst (lex_first s)) (snd (lex_first s))
       \<lparr>ps_parser = p, ps_sax = initial_sax, ps_states = [], ps_skip = False\<rparr>"
    using parser_new_lex by blast
  let ?st = "\<lparr>ps_parser = p, ps_sax = initial_sax, ps_states = [], ps_skip = False\<rparr>"
  note loop = json_parse_loop [OF p(1,2)]
  show ?thesis
  proof (cases "strip_bom s")
    case None
    then have "lex_first s = (L_error, [])" by (auto simp: strip_bom_def lex_first_def split: if_splits)
    then have "reads None None (sax_parse_internal ?st)"
      using reads_value_failed [OF p(3)] parse_value_fails [OF p(3)] by simp
    then show ?thesis using loop None parse_end_failed by (auto simp: reads_def rd_document_def)
  next
    case (Some s1)
    then have "lex_first s = lex_next s1" by (auto simp: strip_bom_def lex_first_def split: if_splits)
    then have r: "reads None (rd_value s1) (sax_parse_internal ?st)"
      using rd_reads(1) [of None s1 ?st] p(3) by simp
    show ?thesis
    proof (cases "rd_value s1")
      case None
      then show ?thesis using loop r Some parse_end_failed by (auto simp: reads_def rd_document_def)
    next
      case (Some vs)
      obtain v s2 where vs: "vs = (v, s2)" by (cases vs)
      obtain st l where st: "sax_parse_internal ?st = resume (evaluate_state st)" "parsing None l s2 st" "l \<noteq> L_error"
          "ps_states st = []" "root (ps_sax st) = v"
        using r Some vs by (auto simp: reads_def)
      have "parse_end st = Inr (if fst (lex_next s2) = L_token TK_end_of_input then v else JDiscarded)"
        using parse_end_reads [of l s2 st] st(2,3,5) by (simp add: parsing_def)
      then show ?thesis
        using loop st(1) evaluate_done [of st] st(4) \<open>strip_bom s = Some s1\<close> Some vs by (simp add: rd_document_def)
    qed
  qed
qed

section \<open>The sequence of tokens\<close>

text \<open>The first \<open>n\<close> tokens, up to an error.\<close>

fun scan_tokens :: "nat \<Rightarrow> lexer \<Rightarrow> failure + lexeme list" where
  "scan_tokens 0 lx = Inr []"
| "scan_tokens (Suc n) lx =
     ebind (scan lx)
       (\<lambda>(t, lx). if t = TK_parse_error then Inr [L_error]
                  else ebind (scan_tokens n lx) (\<lambda>ls. Inr (lexeme_of t lx # ls)))"

fun lex_tokens :: "nat \<Rightarrow> lexeme \<times> string \<Rightarrow> lexeme list" where
  "lex_tokens 0 ls = []"
| "lex_tokens (Suc n) ls = fst ls # (if fst ls = L_error then [] else lex_tokens n (lex_next (snd ls)))"

lemma scan_tokens_lex: "scans spec (scan lx) \<Longrightarrow> scan_tokens n lx = Inr (lex_tokens n spec)"
proof (induction n arbitrary: lx spec)
  case (Suc n)
  obtain t lx' s b where t: "scan lx = Inr (t, lx')" "lexeme_of t lx' = fst spec" "lex_at lx' s b" "t \<noteq> TK_parse_error \<longrightarrow> s = snd spec"
    using Suc.prems by (auto simp: scans_def)
  have e: "fst spec = L_error \<longleftrightarrow> t = TK_parse_error" using t(2) by (cases t) (auto simp: lexeme_of_def)
  then show ?case using t Suc.IH [OF scan_lex [OF t(3)]] by auto
qed simp

section \<open>Properties\<close>

text \<open>C3. The parser refines the JSON grammar: the loop of \<open>sax_parse_internal\<close> with its stack of states, driving the
  scanner and the DOM builder, returns exactly the value that a recursive descent over the text reads, and the
  discarded value exactly for texts that are not one JSON document (after an optional byte order mark).\<close>
theorem json_parse_grammar:
  "json_parse s False = Inr (case rd_document s of None \<Rightarrow> JDiscarded | Some j \<Rightarrow> j)"
  by (rule json_parse_document)

text \<open>C12. Parsing always returns: on every string, whatever its bytes, \<open>json::parse\<close> without exceptions ends without
  tripping an assertion or leaving a buffer, and what it returns is the discarded value or a value with
  sorted, distinct keys, valid UTF-8 in all its strings and only finite numbers.\<close>
theorem json_parse_returns:
  "\<exists>j. json_parse s False = Inr j \<and> (j = JDiscarded \<or> parsed_ok j)"
  by (rule json_parse_total)

text \<open>C20. The scanner refines the lexical grammar: on every string the tokens found by successive calls of \<open>scan\<close>,
  with the strings and numbers they carry, are those of the lexical grammar, up to the first error.\<close>
theorem scan_refines_lexical_grammar: "scan_tokens n (lexer_new s False) = Inr (lex_tokens n (lex_first s))"
  by (rule scan_tokens_lex [OF scan_first])

end
