(* ===== verification/Float_Text.thy ===== *)
theory Float_Text
  imports Grisu_Digits Json_Grammar
begin

text \<open>
  The text that \<open>to_chars\<close> writes for a finite double: \<open>format_buffer\<close> turns the digits of Grisu2 into
  a number of one of four shapes, staying inside its buffer; the lexer accepts the text as one
  floating point number, and \<open>strtod\<close> gives the double back.
\<close>

section \<open>Shapes of numbers\<close>

text \<open>The integer part, the digits of the fraction, and the exponent if there is one.\<close>

type_synonym number_shape = "string \<times> string \<times> int option"

definition exponent_digits :: "nat \<Rightarrow> string" where
  "exponent_digits k =
     (if k < 10 then [CHR ''0'', digit_char k]
      else if k < 100 then [digit_char (k div 10), digit_char (k mod 10)]
      else [digit_char (k div 100), digit_char (k mod 100 div 10), digit_char (k mod 100 mod 10)])"

definition exponent_text :: "int \<Rightarrow> string" where
  "exponent_text e = (if e < 0 then CHR ''-'' else CHR ''+'') # exponent_digits (nat \<bar>e\<bar>)"

fun shape_text :: "number_shape \<Rightarrow> string" where
  "shape_text (ip, fp, ex) =
     ip @ (if fp = [] then [] else CHR ''.'' # fp) @ (case ex of None \<Rightarrow> [] | Some e \<Rightarrow> CHR ''e'' # exponent_text e)"

text \<open>The shape for digits \<open>ds\<close> with decimal exponent \<open>y\<close>: fixed notation from \<open>10\<^sup>-\<^sup>4\<close> to \<open>10\<^sup>1\<^sup>5\<close>, scientific otherwise.\<close>

definition float_shape :: "string \<Rightarrow> int \<Rightarrow> number_shape" where
  "float_shape ds y =
     (let n = int (length ds) + y in
      if int (length ds) \<le> n \<and> n \<le> 15 then (ds @ replicate (nat y) CHR ''0'', ''0'', None)
      else if 0 < n \<and> n \<le> 15 then (take (nat n) ds, drop (nat n) ds, None)
      else if - 4 < n \<and> n \<le> 0 then (''0'', replicate (nat (- n)) CHR ''0'' @ ds, None)
      else ([hd ds], tl ds, Some (n - 1)))"

section \<open>Formatting\<close>

lemma buf_append_spec:
  "length cs \<le> length b \<Longrightarrow> i = length a \<Longrightarrow> buf_append (a @ b) i cs = Inr (a @ cs @ drop (length cs) b, length a + length cs)"
proof (induction cs arbitrary: a b i)
  case (Cons c cs)
  then obtain x b' where b: "b = x # b'" by (cases b) auto
  then show ?case using Cons.IH [of b' "Suc (length a)" "a @ [c]"] Cons.prems by simp
qed simp

lemma buf_memset_spec:
  "n \<le> length b \<Longrightarrow> i = length a \<Longrightarrow> buf_memset (a @ b) i c n = Inr (a @ replicate n c @ drop n b)"
  by (simp add: buf_memset_def)

lemma digit_of_int: "0 \<le> k \<Longrightarrow> k < 10 \<Longrightarrow> digit_of k = digit_char (nat k)"
proof -
  assume "0 \<le> k" "k < 10"
  then have "48 + k = int (48 + nat k)" by simp
  then show ?thesis unfolding digit_of_def digit_char_def by (simp only: char_of_nat)
qed

lemma exponent_digits_length: "length (exponent_digits k) \<le> 3"
  by (simp add: exponent_digits_def)

lemma append_exponent_spec:
  assumes "- 1000 < e" "e < 1000" "4 \<le> length b" "i = length a"
  shows "append_exponent (a @ b) i e = Inr (a @ exponent_text e @ drop (length (exponent_text e)) b, length a + length (exponent_text e))"
proof -
  define k where "k = nat \<bar>e\<bar>"
  have ds: "exponent_digits k = (if \<bar>e\<bar> < 10 then [CHR ''0'', digit_of \<bar>e\<bar>]
      else if \<bar>e\<bar> < 100 then [digit_of (\<bar>e\<bar> div 10), digit_of (\<bar>e\<bar> mod 10)]
      else [digit_of (\<bar>e\<bar> div 100), digit_of (\<bar>e\<bar> mod 100 div 10), digit_of (\<bar>e\<bar> mod 100 mod 10)])"
    using assms(1,2) by (auto simp: exponent_digits_def k_def digit_of_int nat_div_distrib nat_mod_distrib)
  have "append_exponent (a @ b) i e = buf_append (a @ b) i (exponent_text e)"
    using assms(1,2) unfolding append_exponent_def exponent_text_def k_def [symmetric] ds
    by (auto simp: Let_def)
  also have "\<dots> = Inr (a @ exponent_text e @ drop (length (exponent_text e)) b, length a + length (exponent_text e))"
    using assms(3,4) exponent_digits_length [of k] by (intro buf_append_spec) (simp_all add: exponent_text_def k_def)
  finally show ?thesis .
qed

text \<open>A text written at the front of a buffer.\<close>

definition writes_front :: "string \<Rightarrow> string \<Rightarrow> nat \<Rightarrow> failure + string \<times> nat \<Rightarrow> bool" where
  "writes_front pre tx len m \<longleftrightarrow> (\<exists>rest. m = Inr (pre @ tx @ rest, length pre + length tx) \<and> length tx + length rest = len)"

lemma format_point:
  assumes "n < length ds" "1 \<le> length post"
  shows "ebind (buf_memmove (pre @ ds @ post) (length pre + n + 1) (length pre + n) (length ds - n))
      (\<lambda>buf. buf_put buf (length pre + n) CHR ''.'') = Inr (pre @ take n ds @ CHR ''.'' # drop n ds @ drop 1 post)"
proof -
  obtain p post' where post: "post = p # post'" using assms(2) by (cases post) auto
  have mv: "buf_memmove (pre @ ds @ post) (length pre + n + 1) (length pre + n) (length ds - n) =
      Inr ((pre @ take n ds) @ ds ! n # drop n ds @ post')"
    using assms(1) by (simp add: buf_memmove_def post take_Suc_conv_app_nth Suc_diff_le)
  have "buf_put ((pre @ take n ds) @ ds ! n # drop n ds @ post') (length pre + n) CHR ''.'' =
      Inr ((pre @ take n ds) @ CHR ''.'' # drop n ds @ post')"
    by (rule buf_put_append) (use assms(1) in simp)
  then show ?thesis unfolding mv ebind_Inr by (simp add: post)
qed

lemma format_zeros:
  assumes "m + 2 + length ds \<le> length ds + length post"
  shows "ebind (buf_memmove (pre @ ds @ post) (length pre + 2 + m) (length pre) (length ds))
      (\<lambda>buf. ebind (buf_append buf (length pre) ''0.'') (\<lambda>(buf, _). buf_memset buf (length pre + 2) CHR ''0'' m)) =
    Inr (pre @ ''0.'' @ replicate m CHR ''0'' @ ds @ drop (m + 2) post)"
proof -
  define Y Z where "Y = ds @ drop (m + 2) post" and "Z = drop 2 (take (2 + m) (ds @ post))"
  have mv: "buf_memmove (pre @ ds @ post) (length pre + 2 + m) (length pre) (length ds) = Inr (pre @ take (2 + m) (ds @ post) @ Y)"
    using assms by (simp add: buf_memmove_def Y_def add.commute add.left_commute)
  have Z: "length Z = m" "drop 2 (take (2 + m) (ds @ post) @ Y) = Z @ Y" using assms by (simp_all add: Z_def)
  have "buf_append (pre @ take (2 + m) (ds @ post) @ Y) (length pre) ''0.'' =
      Inr (pre @ ''0.'' @ drop (length ''0.'') (take (2 + m) (ds @ post) @ Y), length pre + length ''0.'')"
    using assms by (intro buf_append_spec) simp_all
  then have ap: "buf_append (pre @ take (2 + m) (ds @ post) @ Y) (length pre) ''0.'' = Inr (pre @ ''0.'' @ Z @ Y, length pre + 2)"
    unfolding Z(2) [symmetric] numeral_2_eq_2 by (simp del: buf_append.simps)
  have "buf_memset ((pre @ ''0.'') @ Z @ Y) (length pre + 2) CHR ''0'' m = Inr ((pre @ ''0.'') @ replicate m CHR ''0'' @ Y)"
    using Z(1) by (subst buf_memset_spec) simp_all
  then show ?thesis unfolding mv ebind_Inr ap by (simp add: Y_def)
qed

lemma format_scientific:
  assumes "ds \<noteq> []" "8 \<le> length post" "- 1000 < e" "e < 1000"
  shows "writes_front pre (shape_text ([hd ds], tl ds, Some e)) (length ds + length post)
    (ebind (if length ds = 1 then Inr (pre @ ds @ post, length pre + 1)
            else ebind (buf_memmove (pre @ ds @ post) (length pre + 2) (length pre + 1) (length ds - 1))
                  (\<lambda>buf. ebind (buf_put buf (length pre + 1) CHR ''.'') (\<lambda>buf. Inr (buf, length pre + 1 + length ds))))
      (\<lambda>(buf, pos). ebind (buf_append buf pos ''e'') (\<lambda>(buf, pos). append_exponent buf pos e)))"
proof -
  have tail: "writes_front pre (a @ CHR ''e'' # exponent_text e) (length a + length b)
      (ebind (buf_append (pre @ a @ b) (length pre + length a) ''e'') (\<lambda>(buf, pos). append_exponent buf pos e))"
    if "5 \<le> length b" for a b
  proof -
    have app: "buf_append ((pre @ a) @ b) (length pre + length a) ''e'' = Inr ((pre @ a) @ ''e'' @ drop 1 b, length pre + length a + 1)"
      using that by (subst buf_append_spec) simp_all
    have "append_exponent ((pre @ a @ ''e'') @ drop 1 b) (length pre + length a + 1) e =
        Inr ((pre @ a @ ''e'') @ exponent_text e @ drop (length (exponent_text e)) (drop 1 b), length pre + length a + 1 + length (exponent_text e))"
      using that by (subst append_exponent_spec [OF assms(3,4)]) simp_all
    moreover have "length (exponent_text e) \<le> 4" using exponent_digits_length by (simp add: exponent_text_def)
    ultimately show ?thesis using app that by (simp add: writes_front_def)
  qed
  show ?thesis
  proof (cases "length ds = 1")
    case True
    then obtain d where "ds = [d]" by (cases ds) auto
    then show ?thesis using tail [of post "[d]"] assms(2) by simp
  next
    case False
    then obtain d ds' where d: "ds = d # ds'" "ds' \<noteq> []" using assms(1) by (cases ds) auto
    note pt = format_point [of 1 ds post pre]
    have "ebind (buf_memmove (pre @ ds @ post) (length pre + 2) (length pre + 1) (length ds - 1))
        (\<lambda>buf. ebind (buf_put buf (length pre + 1) CHR ''.'') (\<lambda>buf. Inr (buf, length pre + 1 + length ds))) =
        Inr (pre @ (d # CHR ''.'' # ds') @ drop 1 post, length pre + length (d # CHR ''.'' # ds'))"
    proof -
      obtain buf where "buf_memmove (pre @ ds @ post) (length pre + 2) (length pre + 1) (length ds - 1) = Inr buf"
        using assms(2) False d by (simp add: buf_memmove_def)
      then show ?thesis using pt assms(2) d by (simp add: numeral_2_eq_2)
    qed
    then show ?thesis using tail [of "drop 1 post" "d # CHR ''.'' # ds'"] False d assms(2) by simp
  qed
qed

text \<open>The four branches of \<open>format_buffer\<close>, with \<open>n\<close> the position of the decimal point.\<close>

lemma format_cases:
  assumes "ds \<noteq> []"
  obtains (integral) n where "n = int (length ds) + y" "0 \<le> y" "int (length ds) \<le> n" "0 < n" "n \<le> 15"
    | (point) n where "n = int (length ds) + y" "y < 0" "n < int (length ds)" "0 < n" "n \<le> 15"
    | (zeros) n where "n = int (length ds) + y" "y < 0" "n < int (length ds)" "- 4 < n" "n \<le> 0"
    | (scientific) n where "n = int (length ds) + y" "(int (length ds) \<le> n \<and> n \<le> 15) = False" "(0 < n \<and> n \<le> 15) = False"
        "(- 4 < n \<and> n \<le> 0) = False"
proof -
  have "0 < length ds" using assms by simp
  then consider "0 \<le> y" "int (length ds) + y \<le> 15" | "y < 0" "0 < int (length ds) + y" "int (length ds) + y \<le> 15"
    | "y < 0" "- 4 < int (length ds) + y" "int (length ds) + y \<le> 0" | "int (length ds) + y \<le> - 4 \<or> 15 < int (length ds) + y"
    by linarith
  then show thesis
  proof cases
    case 1
    then show ?thesis using \<open>0 < length ds\<close> by (intro integral [OF refl]) linarith+
  next
    case 2
    then show ?thesis by (intro point [OF refl]) simp_all
  next
    case 3
    then show ?thesis by (intro zeros [OF refl]) simp_all
  next
    case 4
    then show ?thesis by (intro scientific [OF refl]) auto
  qed
qed

lemma format_buffer_integral:
  assumes "n = int (length ds) + y" "0 \<le> y" "int (length ds) \<le> n" "0 < n" "n \<le> 15" "nat y + 2 \<le> length post"
  shows "writes_front pre (shape_text (float_shape ds y)) (length ds + length post) (format_buffer (- 4) 15 (digits_in pre ds post y))"
proof -
  have m: "nat n - length ds = nat y" "length ds + nat y = nat n" using assms by simp_all
  have "buf_memset ((pre @ ds) @ post) (length pre + length ds) CHR ''0'' (nat y) = Inr ((pre @ ds) @ replicate (nat y) CHR ''0'' @ drop (nat y) post)"
    using assms(6) by (intro buf_memset_spec) simp_all
  moreover have "buf_append ((pre @ ds @ replicate (nat y) CHR ''0'') @ drop (nat y) post) (length pre + nat n) ''.0'' =
      Inr ((pre @ ds @ replicate (nat y) CHR ''0'') @ ''.0'' @ drop 2 (drop (nat y) post), length pre + nat n + 2)"
    using m assms(6) by (subst buf_append_spec) simp_all
  ultimately show ?thesis
    using assms(2-6) m by (simp add: format_buffer_def digits_in_def float_shape_def Let_def assms(1) [symmetric] writes_front_def)
qed

lemma format_buffer_point:
  assumes "n = int (length ds) + y" "y < 0" "n < int (length ds)" "0 < n" "n \<le> 15" "1 \<le> length post"
  shows "writes_front pre (shape_text (float_shape ds y)) (length ds + length post) (format_buffer (- 4) 15 (digits_in pre ds post y))"
proof -
  have m: "int (nat n) = n" "nat n < length ds" using assms(3,4) by linarith+
  note pt = format_point [OF m(2) assms(6), of pre]
  then obtain buf where "buf_memmove (pre @ ds @ post) (length pre + nat n + 1) (length pre + nat n) (length ds - nat n) = Inr buf"
    by (auto simp: ebind_eq_Inr)
  then show ?thesis
    using m pt assms(2-6)
    by (simp add: format_buffer_def digits_in_def float_shape_def Let_def assms(1) [symmetric] writes_front_def json_assert_def)
qed

lemma format_buffer_zeros:
  assumes "n = int (length ds) + y" "y < 0" "n < int (length ds)" "- 4 < n" "n \<le> 0" "nat (- n) + 2 \<le> length post"
  shows "writes_front pre (shape_text (float_shape ds y)) (length ds + length post) (format_buffer (- 4) 15 (digits_in pre ds post y))"
proof -
  have z: "ebind (buf_memmove (pre @ ds @ post) (length pre + 2 + nat (- n)) (length pre) (length ds))
    (\<lambda>buf. ebind (buf_append buf (length pre) ''0.'') (\<lambda>(buf, _). buf_memset buf (length pre + 2) CHR ''0'' (nat (- n)))) =
    Inr (pre @ ''0.'' @ replicate (nat (- n)) CHR ''0'' @ ds @ drop (nat (- n) + 2) post)"
    using assms(6) by (intro format_zeros) simp
  then obtain buf buf' i where "buf_memmove (pre @ ds @ post) (length pre + 2 + nat (- n)) (length pre) (length ds) = Inr buf"
      "buf_append buf (length pre) ''0.'' = Inr (buf', i)"
    by (auto simp: ebind_eq_Inr)
  then show ?thesis
    using assms(2-6) z
    by (auto simp: format_buffer_def digits_in_def float_shape_def Let_def assms(1) [symmetric] writes_front_def)
qed

lemma format_buffer_spec:
  assumes "ds \<noteq> []" "length ds \<le> 17" "40 \<le> length ds + length post" "- 400 \<le> y" "y \<le> 400"
  shows "writes_front pre (shape_text (float_shape ds y)) (length ds + length post) (format_buffer (- 4) 15 (digits_in pre ds post y))"
  using assms(1)
proof (cases rule: format_cases [where y = y])
  case (integral n)
  then show ?thesis using assms by (intro format_buffer_integral [OF integral]) simp
next
  case (point n)
  then show ?thesis using assms by (intro format_buffer_point [OF point]) simp
next
  case (zeros n)
  then show ?thesis using assms by (intro format_buffer_zeros [OF zeros]) simp
next
  case (scientific n)
  have "8 \<le> length post" "- 1000 < n - 1" "n - 1 < 1000" using assms scientific(1) by simp_all
  note sc = format_scientific [OF assms(1) this, of pre]
  have a: "json_assert ((- 4 :: int) < 0) = Inr ()" "json_assert ((0 :: int) < 15) = Inr ()" by simp_all
  show ?thesis
    using sc unfolding format_buffer_def digits_in_def float_shape_def Let_def digits.simps scientific(1) [symmetric]
    by (simp only: scientific(2-4) a if_False ebind_Inr)
qed

section \<open>Reading numbers\<close>

text \<open>What may follow a number.\<close>

definition delimiter :: "string \<Rightarrow> bool" where
  "delimiter r \<longleftrightarrow> r = [] \<or> \<not> is_digit_char (hd r) \<and> hd r \<notin> set ''.eE''"

lemma takeWhile_decimal_text:
  "decimal_text ds \<Longrightarrow> r = [] \<or> \<not> is_digit_char (hd r) \<Longrightarrow>
   takeWhile is_digit_char (ds @ r) = ds \<and> dropWhile is_digit_char (ds @ r) = r"
proof (induction ds)
  case Nil
  then show ?case by (cases r) auto
qed auto

lemma takeWhile_delimiter:
  "decimal_text ds \<Longrightarrow> delimiter r \<Longrightarrow> takeWhile is_digit_char (ds @ r) = ds \<and> dropWhile is_digit_char (ds @ r) = r"
  by (rule takeWhile_decimal_text) (auto simp: delimiter_def)

lemma lex_after_delimiter: "delimiter r \<Longrightarrow> lex_fraction r = Some ('''', r) \<and> lex_exponent r = Some ('''', r)"
  by (cases r) (auto simp: delimiter_def lex_fraction_def lex_exponent_def)

lemma is_digit_char_signs:
  "is_digit_char c \<Longrightarrow> c \<noteq> CHR ''-'' \<and> c \<noteq> CHR ''+'' \<and> c \<noteq> CHR ''.'' \<and> c \<noteq> CHR ''e'' \<and> c \<noteq> CHR ''E''"
  by (auto simp: is_digit_char_def)

lemma point_not_digit: "\<not> is_digit_char CHR ''.''" "\<not> is_digit_char CHR ''e''"
  by (simp_all add: is_digit_char_def)

text \<open>An integer part is a zero alone or starts with another digit.\<close>

definition integer_part_ok :: "string \<Rightarrow> bool" where
  "integer_part_ok ip \<longleftrightarrow> ip \<noteq> [] \<and> decimal_text ip \<and> (ip = ''0'' \<or> hd ip \<noteq> CHR ''0'')"

lemma lex_integer_part_text:
  "integer_part_ok ip \<Longrightarrow> r = [] \<or> \<not> is_digit_char (hd r) \<Longrightarrow> lex_integer_part (ip @ r) = Some (ip, r)"
  using takeWhile_decimal_text [of ip r] by (cases ip) (auto simp: integer_part_ok_def lex_integer_part_def)

lemma exponent_digits_ok:
  assumes "k < 1000"
  shows "exponent_digits k \<noteq> []" "decimal_text (exponent_digits k)" "digits_val (exponent_digits k) = k"
proof -
  show "exponent_digits k \<noteq> []" by (simp add: exponent_digits_def)
  have d: "k < 10 \<or> k div 10 < 10 \<or> k div 100 < 10" "k mod 10 < 10" "k mod 100 div 10 < 10" "k mod 100 mod 10 < 10"
    using assms by auto
  then show "decimal_text (exponent_digits k)" using assms by (auto simp: exponent_digits_def) (simp_all add: is_digit_char_def)
  have "digit_val CHR ''0'' = 0" by (simp add: digit_val_def)
  moreover have "100 * (k div 100) + 10 * (k mod 100 div 10) + k mod 100 mod 10 = k"
    using div_mult_mod_eq [of k 100] div_mult_mod_eq [of "k mod 100" 10] by linarith
  ultimately show "digits_val (exponent_digits k) = k" using assms d by (auto simp: exponent_digits_def digits_val_def)
qed

fun shape_ok :: "number_shape \<Rightarrow> bool" where
  "shape_ok (ip, fp, ex) \<longleftrightarrow>
     integer_part_ok ip \<and> decimal_text fp \<and> (fp \<noteq> [] \<or> ex \<noteq> None) \<and> (case ex of None \<Rightarrow> True | Some e \<Rightarrow> - 1000 < e \<and> e < 1000)"

definition fraction_text :: "string \<Rightarrow> string" where
  "fraction_text fp = (if fp = [] then [] else CHR ''.'' # fp)"

definition exponent_part :: "int option \<Rightarrow> string" where
  "exponent_part ex = (case ex of None \<Rightarrow> [] | Some e \<Rightarrow> CHR ''e'' # exponent_text e)"

lemma shape_text_parts: "shape_text (ip, fp, ex) = ip @ fraction_text fp @ exponent_part ex"
  by (simp add: fraction_text_def exponent_part_def)

lemma after_parts:
  assumes "delimiter r"
  shows "exponent_part ex @ r = [] \<or> \<not> is_digit_char (hd (exponent_part ex @ r))"
    and "fraction_text fp @ exponent_part ex @ r = [] \<or> \<not> is_digit_char (hd (fraction_text fp @ exponent_part ex @ r))"
  using assms by (auto simp: exponent_part_def fraction_text_def delimiter_def point_not_digit split: option.splits)

lemma lex_fraction_text:
  assumes "decimal_text fp" "delimiter r"
  shows "lex_fraction (fraction_text fp @ exponent_part ex @ r) = Some (fraction_text fp, exponent_part ex @ r)"
proof (cases "fp = []")
  case True
  then show ?thesis using lex_after_delimiter [OF assms(2)]
    by (cases ex) (simp_all add: fraction_text_def exponent_part_def, simp add: lex_fraction_def)
next
  case False
  then show ?thesis using takeWhile_decimal_text [OF assms(1) after_parts(1) [OF assms(2), of ex]]
    by (simp add: fraction_text_def lex_fraction_def)
qed

lemma exponent_parts:
  assumes "- 1000 < e" "e < 1000" "delimiter r"
  defines "ds \<equiv> exponent_digits (nat \<bar>e\<bar>)"
  shows "ds \<noteq> []" "digits_val ds = nat \<bar>e\<bar>" "takeWhile is_digit_char (ds @ r) = ds" "dropWhile is_digit_char (ds @ r) = r"
  using exponent_digits_ok [of "nat \<bar>e\<bar>"] takeWhile_delimiter [OF _ assms(3), of ds] assms(1,2) by (simp_all add: ds_def)

lemma lex_exponent_text:
  assumes "case ex of None \<Rightarrow> True | Some e \<Rightarrow> - 1000 < e \<and> e < 1000" "delimiter r"
  shows "lex_exponent (exponent_part ex @ r) = Some (exponent_part ex, r)"
  using assms lex_after_delimiter [OF assms(2)] exponent_parts [OF _ _ assms(2)]
  by (cases ex) (auto simp: exponent_part_def lex_exponent_def exponent_text_def)

lemma lex_number_shape:
  assumes "shape_ok s" "delimiter r"
  shows "lex_number (shape_text s @ r) = Some (shape_text s, TK_value_float, r)"
    and "lex_number (CHR ''-'' # shape_text s @ r) = Some (CHR ''-'' # shape_text s, TK_value_float, r)"
proof -
  obtain ip fp ex where s: "s = (ip, fp, ex)" by (cases s) auto
  have ok: "integer_part_ok ip" "decimal_text fp" "case ex of None \<Rightarrow> True | Some e \<Rightarrow> - 1000 < e \<and> e < 1000" "fp \<noteq> [] \<or> ex \<noteq> None"
    using assms(1) by (simp_all add: s)
  then obtain c cs where c: "ip = c # cs" "c \<noteq> CHR ''-''" using is_digit_char_signs by (cases ip) (auto simp: integer_part_ok_def)
  have parts: "lex_integer_part (ip @ fraction_text fp @ exponent_part ex @ r) = Some (ip, fraction_text fp @ exponent_part ex @ r)"
    by (rule lex_integer_part_text [OF ok(1) after_parts(2) [OF assms(2)]])
  have kind: "number_kind mn (fraction_text fp) (exponent_part ex) = TK_value_float" for mn
    using ok(4) by (auto simp: number_kind_def fraction_text_def exponent_part_def)
  note rest = lex_fraction_text [OF ok(2) assms(2)] lex_exponent_text [OF ok(3) assms(2)] kind
  show "lex_number (shape_text s @ r) = Some (shape_text s, TK_value_float, r)"
    using lex_number_digit [OF c(2), of "cs @ fraction_text fp @ exponent_part ex @ r"] parts
    unfolding s shape_text_parts by (simp add: c(1) rest)
  show "lex_number (CHR ''-'' # shape_text s @ r) = Some (CHR ''-'' # shape_text s, TK_value_float, r)"
    unfolding s shape_text_parts using parts by (simp add: lex_number_minus rest)
qed

text \<open>The value of a shape: an integer and a power of ten.\<close>

fun shape_value :: "number_shape \<Rightarrow> nat \<times> int" where
  "shape_value (ip, fp, ex) = (digits_val (ip @ fp), (case ex of None \<Rightarrow> 0 | Some e \<Rightarrow> e) - int (length fp))"

lemma strtod_parts:
  assumes "shape_ok (ip, fp, ex)"
  shows "takeWhile is_digit_char (shape_text (ip, fp, ex)) = ip"
    and "strtod_fraction (dropWhile is_digit_char (shape_text (ip, fp, ex))) = (fp, exponent_part ex)"
    and "strtod_exponent (exponent_part ex) = (case ex of None \<Rightarrow> 0 | Some e \<Rightarrow> e, [])"
proof -
  have d: "delimiter []" by (simp add: delimiter_def)
  have ok: "decimal_text ip" "decimal_text fp" "case ex of None \<Rightarrow> True | Some e \<Rightarrow> - 1000 < e \<and> e < 1000"
    using assms by (simp_all add: integer_part_ok_def)
  note tw = takeWhile_decimal_text [OF ok(1), of "fraction_text fp @ exponent_part ex"]
  show "takeWhile is_digit_char (shape_text (ip, fp, ex)) = ip"
    using tw after_parts(2) [OF d] unfolding shape_text_parts by simp
  have "dropWhile is_digit_char (shape_text (ip, fp, ex)) = fraction_text fp @ exponent_part ex"
    using tw after_parts(2) [OF d] unfolding shape_text_parts by simp
  then show "strtod_fraction (dropWhile is_digit_char (shape_text (ip, fp, ex))) = (fp, exponent_part ex)"
    using takeWhile_decimal_text [OF ok(2), of "exponent_part ex"] after_parts(1) [OF d, of ex]
    by (auto simp: strtod_fraction_def fraction_text_def exponent_part_def split: option.splits)
  show "strtod_exponent (exponent_part ex) = (case ex of None \<Rightarrow> 0 | Some e \<Rightarrow> e, [])"
  proof (cases ex)
    case (Some e)
    then show ?thesis using exponent_parts [of e, OF _ _ d] ok(3)
      by (cases "e < 0") (auto simp: strtod_exponent_def exponent_part_def exponent_text_def take_sign_def Let_def simp del: takeWhile_eq_all_conv)
  qed (simp add: strtod_exponent_def exponent_part_def)
qed

lemma strtod_shape:
  assumes "shape_ok s"
  shows "strto_value (strtod (shape_text s)) = double_of_decimal False (fst (shape_value s)) (snd (shape_value s))"
    and "strto_value (strtod (CHR ''-'' # shape_text s)) = double_of_decimal True (fst (shape_value s)) (snd (shape_value s))"
proof -
  obtain ip fp ex where s: "s = (ip, fp, ex)" by (cases s) auto
  note parts = strtod_parts [OF assms [unfolded s]]
  obtain c cs where c: "ip = c # cs" "is_digit_char c" using assms by (cases ip) (auto simp: s integer_part_ok_def)
  have "take_sign (shape_text s) = (False, shape_text s)" using is_digit_char_signs [OF c(2)] by (simp add: s c(1) take_sign_def)
  then show "strto_value (strtod (shape_text s)) = double_of_decimal False (fst (shape_value s)) (snd (shape_value s))"
    using parts c(1) unfolding s by (simp add: strtod_def Let_def del: shape_text.simps)
  have "take_sign (CHR ''-'' # shape_text s) = (True, shape_text s)" by (simp add: take_sign_def)
  then show "strto_value (strtod (CHR ''-'' # shape_text s)) = double_of_decimal True (fst (shape_value s)) (snd (shape_value s))"
    using parts c(1) unfolding s by (simp add: strtod_def Let_def del: shape_text.simps)
qed

section \<open>The digits in their shape\<close>

lemma digits_val_zeros [simp]: "digits_val (replicate n CHR ''0'') = 0"
  by (induction n) (simp_all add: digits_val_Cons digit_val_def)

lemma is_digit_char_0 [simp]: "is_digit_char CHR ''0''"
  by (simp add: is_digit_char_def)

lemma decimal_text_zeros [simp]: "decimal_text (replicate n CHR ''0'')"
  by (simp add: list_all_iff)

lemma decimal_text_parts: "decimal_text ds \<Longrightarrow> decimal_text (take n ds) \<and> decimal_text (drop n ds)"
  by (metis append_take_drop_id list_all_append)

lemma float_shape_ok:
  assumes "ds \<noteq> []" "length ds \<le> 17" "decimal_text ds" "hd ds \<noteq> CHR ''0''" "- 400 \<le> y" "y \<le> 400"
  shows "shape_ok (float_shape ds y) \<and>
    real (fst (shape_value (float_shape ds y))) * 10 powi snd (shape_value (float_shape ds y)) = real (digits_val ds) * 10 powi y"
  using assms(1)
proof (cases rule: format_cases [where y = y])
  case (integral n)
  have "float_shape ds y = (ds @ replicate (nat y) CHR ''0'', ''0'', None)" using integral by (simp add: float_shape_def)
  moreover have "integer_part_ok (ds @ replicate (nat y) CHR ''0'')" using assms(1,3,4) by (simp add: integer_part_ok_def)
  moreover have "digits_val (ds @ replicate (nat y) CHR ''0'' @ ''0'') = digits_val ds * 10 ^ nat y * 10"
    by (simp add: digits_val_append) (simp add: digits_val_def digit_val_def)
  moreover have "(10 :: real) powi y = 10 ^ nat y" using integral(2) by (simp add: power_int_def)
  ultimately show ?thesis by (simp add: power_int_minus)
next
  case (point n)
  then have m: "0 < nat n" "nat n < length ds" "y = - int (length ds - nat n)" by (simp_all add: nat_less_iff of_nat_diff)
  have "float_shape ds y = (take (nat n) ds, drop (nat n) ds, None)" using point by (simp add: float_shape_def Let_def)
  moreover have "integer_part_ok (take (nat n) ds)"
    using assms(1,4) decimal_text_parts [OF assms(3)] m(1) by (auto simp: integer_part_ok_def hd_take)
  ultimately show ?thesis using decimal_text_parts [OF assms(3), of "nat n"] m by simp
next
  case (zeros n)
  have "float_shape ds y = (''0'', replicate (nat (- n)) CHR ''0'' @ ds, None)" using zeros by (simp add: float_shape_def Let_def)
  moreover have "integer_part_ok ''0''" by (simp add: integer_part_ok_def)
  moreover have "digits_val (CHR ''0'' # replicate (nat (- n)) CHR ''0'' @ ds) = digits_val ds"
    by (simp add: digits_val_Cons digits_val_append digit_val_def)
  moreover have "- int (length (replicate (nat (- n)) CHR ''0'' @ ds)) = y" using zeros by simp
  ultimately show ?thesis using assms(1,3) by simp
next
  case (scientific n)
  have "float_shape ds y = ([hd ds], tl ds, Some (n - 1))"
    unfolding float_shape_def Let_def scientific(1) [symmetric] by (simp only: scientific(2-4) if_False)
  moreover have "integer_part_ok [hd ds]" "decimal_text (tl ds)" "hd ds # tl ds = ds"
    using assms(1,3,4) by (cases ds; simp add: integer_part_ok_def)+
  moreover have "n - 1 - int (length (tl ds)) = y" "- 1000 < n - 1" "n - 1 < 1000"
    using assms by (auto simp: scientific(1) of_nat_diff Suc_le_eq)
  ultimately show ?thesis by simp
qed

lemma double_of_decimal_near:
  assumes "significand_ok f e" "digits_for f e ds y" "real d * 10 powi z = real (digits_val ds) * 10 powi y"
  shows "double_of_decimal neg d z = of_nat (double_value f e + (if neg then 2 ^ 63 else 0))"
proof -
  have f: "f < 2 ^ 53" "0 < f" "- 1074 \<le> e" "e \<le> 971" "2 ^ 52 \<le> f \<or> e = - 1074" using assms(1) by (auto simp: significand_ok_def)
  have up: "real d * 10 powi z < (real f + 1 / 2) * 2 powi e"
    and low: "(real f - (if f = 2 ^ 52 \<and> - 1074 < e then 1 / 4 else 1 / 2)) * 2 powi e < real d * 10 powi z"
    using assms(2) unfolding assms(3) digits_for_def lower_closer_def by blast+
  have "0 \<le> (real f - (if f = 2 ^ 52 \<and> - 1074 < e then 1 / 4 else 1 / 2)) * 2 powi e" using f(2) by (intro mult_nonneg_nonneg) auto
  with low have "0 < real d * 10 powi z" by linarith
  then have d: "0 < d" by (simp add: zero_less_mult_iff)
  show ?thesis
  proof (cases "0 \<le> z")
    case True
    then have z: "real d * 10 powi z = real (d * 10 ^ nat z) / real 1" by (simp add: power_int_def)
    have "double_of_ratio (d * 10 ^ nat z) 1 = double_value f e"
      by (rule double_of_ratio_near [OF _ _ f]) (use d up low in \<open>simp_all only: z\<close>, simp_all)
    then show ?thesis using True by (simp add: double_of_decimal_def)
  next
    case False
    then have z: "real d * 10 powi z = real d / real (10 ^ nat (- z))" by (simp add: power_int_def field_simps)
    have "double_of_ratio d (10 ^ nat (- z)) = double_value f e"
      by (rule double_of_ratio_near [OF _ _ f]) (use d up low in \<open>simp_all only: z\<close>, simp_all)
    then show ?thesis using False by (simp add: double_of_decimal_def)
  qed
qed

section \<open>The text of a double\<close>

definition sign_text :: "double \<Rightarrow> string" where
  "sign_text d = (if double_negative d then ''-'' else '''')"

lemma sign_bit: "bit (0x8000000000000000 :: u64) n \<longleftrightarrow> n = 63"
proof -
  have "(0x8000000000000000 :: u64) = push_bit 63 1" by simp
  then have "bit (0x8000000000000000 :: u64) n = bit (push_bit 63 1 :: u64) n" by (simp only:)
  then show ?thesis unfolding bit_push_bit_iff bit_1_iff by auto
qed

lemma flip_bit:
  fixes d t :: u64
  assumes t: "\<And>n. bit t n \<longleftrightarrow> n = 63"
  shows "bit d 63 \<Longrightarrow> (d XOR t) + t = d" and "bit d 63 \<Longrightarrow> \<not> bit (d XOR t) 63"
    and "drop_bit 52 (d XOR t) AND mask 11 = drop_bit 52 d AND mask 11"
proof -
  show "bit d 63 \<Longrightarrow> \<not> bit (d XOR t) 63" by (simp add: bit_simps t)
  show "drop_bit 52 (d XOR t) AND mask 11 = drop_bit 52 d AND mask 11"
    by (rule bit_word_eqI) (auto simp: bit_simps t)
  assume b: "bit d 63"
  have "(d XOR t) + t = (d XOR t) OR t" by (rule disjunctive_add) (use b in \<open>auto simp: bit_simps t\<close>)
  also have "\<dots> = d" by (rule bit_word_eqI) (use b in \<open>auto simp: bit_simps t\<close>)
  finally show "(d XOR t) + t = d" .
qed

lemma unat_negative: "double_negative d \<Longrightarrow> unat (d XOR 0x8000000000000000) + 2 ^ 63 = unat d"
proof -
  assume "double_negative d"
  then have b: "bit d 63" by (simp add: double_negative_def)
  note d = flip_bit(1) [OF sign_bit b]
  have "\<not> bit (unat (d XOR 0x8000000000000000)) 63" unfolding bit_unsigned_iff using flip_bit(2) [OF sign_bit b] by blast
  then have "even (unat (d XOR 0x8000000000000000) div 2 ^ 63)" by (simp add: bit_iff_odd)
  moreover have "unat (d XOR 0x8000000000000000) div 2 ^ 63 < 2"
    using unat_less_64 [of "d XOR 0x8000000000000000"] by (intro less_mult_imp_div_less) simp
  ultimately have "unat (d XOR 0x8000000000000000) div 2 ^ 63 = 0" by (metis less_2_cases odd_one One_nat_def)
  then have "unat (d XOR 0x8000000000000000) < 2 ^ 63" by (simp add: div_eq_0_iff)
  moreover have "unat (0x8000000000000000 :: u64) = 2 ^ 63" by simp
  ultimately have "unat ((d XOR 0x8000000000000000) + 0x8000000000000000) = unat (d XOR 0x8000000000000000) + 2 ^ 63"
    by (subst unat_add_small) simp_all
  then show ?thesis using d by simp
qed

text \<open>The absolute value is finite, and not negative.\<close>

definition double_abs :: "double \<Rightarrow> double" where
  "double_abs d = (if double_negative d then d XOR 0x8000000000000000 else d)"

lemma double_abs_parts: "isfinite (double_abs d) = isfinite d" "\<not> double_negative (double_abs d)"
proof -
  have m: "(0x7FF :: u64) = mask 11" by (simp add: mask_eq_exp_minus_1)
  have "drop_bit 52 (d XOR 0x8000000000000000) AND 0x7FF = drop_bit 52 d AND 0x7FF" unfolding m by (rule flip_bit(3) [OF sign_bit])
  then show "isfinite (double_abs d) = isfinite d" by (simp add: double_abs_def isfinite_def double_exponent_def)
  show "\<not> double_negative (double_abs d)" using flip_bit(2) [OF sign_bit, of d] by (simp add: double_abs_def double_negative_def)
qed

lemma unat_double: "unat d = unat (double_abs d) + (if double_negative d then 2 ^ 63 else 0)"
  using unat_negative [of d] by (simp add: double_abs_def)

text \<open>\<open>to_chars\<close> after the sign.\<close>

lemma to_chars_start:
  assumes "isfinite d" "length buf = 64"
  defines "pre \<equiv> sign_text d" and "post \<equiv> drop (length (sign_text d)) buf"
  shows "to_chars buf d =
    (if double_abs d = 0 then buf_append (pre @ post) (length pre) ''0.0''
     else ebind (grisu2 (double_abs d) (digits_in pre [] post 0))
           (\<lambda>g. ebind (json_assert (dg_len g \<le> 17)) (\<lambda>_. format_buffer (- 4) 15 g)))"
proof -
  obtain b bs where "buf = b # bs" using assms(2) by (cases buf) auto
  then show ?thesis using assms(1,2)
    by (auto simp: to_chars_def sign_text_def pre_def post_def double_abs_def Let_def digits_in_def buf_put_def json_assert_def)
qed

lemma to_chars_zero:
  assumes "isfinite d" "double_abs d = 0" "length buf = 64"
  shows "writes_front [] (sign_text d @ ''0.0'') 64 (to_chars buf d)"
proof -
  have l: "length (sign_text d) \<le> 1" by (simp add: sign_text_def)
  have "buf_append (sign_text d @ drop (length (sign_text d)) buf) (length (sign_text d)) ''0.0'' =
      Inr (sign_text d @ ''0.0'' @ drop (length ''0.0'') (drop (length (sign_text d)) buf), length (sign_text d) + length ''0.0'')"
    using assms(3) l by (intro buf_append_spec) simp_all
  then show ?thesis using l assms unfolding to_chars_start [OF assms(1,3)]
    by (simp add: writes_front_def del: buf_append.simps)
qed

lemma to_chars_digits:
  assumes "isfinite d" "double_abs d \<noteq> 0" "length buf = 64" and ds: "ds \<noteq> []" "length ds \<le> 17" "- 400 \<le> y" "y \<le> 400"
    and g: "\<And>pre post. 17 \<le> length post \<Longrightarrow>
      grisu2 (double_abs d) (digits_in pre [] post 0) = Inr (digits_in pre ds (drop (length ds) post) y)"
  shows "writes_front [] (sign_text d @ shape_text (float_shape ds y)) 64 (to_chars buf d)"
proof -
  define pre where "pre = sign_text d"
  define post where "post = drop (length pre) buf"
  have l: "length pre \<le> 1" "length pre + length post = 64" using assms(3) by (simp_all add: pre_def post_def sign_text_def)
  have "to_chars buf d = format_buffer (- 4) 15 (digits_in pre ds (drop (length ds) post) y)"
    using g [of post pre] l ds(2) assms(2) unfolding to_chars_start [OF assms(1,3)] pre_def [symmetric] post_def [symmetric]
    by (simp add: digits_in_def)
  moreover have "writes_front pre (shape_text (float_shape ds y)) (length ds + length (drop (length ds) post))
      (format_buffer (- 4) 15 (digits_in pre ds (drop (length ds) post) y))"
    using ds l by (intro format_buffer_spec) simp_all
  ultimately show ?thesis using l ds(2) by (auto simp: writes_front_def pre_def)
qed

text \<open>
  \<open>to_chars\<close> on any buffer of 64 characters: it returns, stays inside the buffer, and writes a number
  of which the value is the double.
\<close>

lemma to_chars_shape:
  assumes "isfinite d"
  obtains s where "shape_ok s" "double_of_decimal (double_negative d) (fst (shape_value s)) (snd (shape_value s)) = d"
    "\<And>buf. length buf = 64 \<Longrightarrow> writes_front [] (sign_text d @ shape_text s) 64 (to_chars buf d)"
proof (cases "double_abs d = 0")
  case True
  define s :: number_shape where "s = (''0'', ''0'', None)"
  have "digits_val ''00'' = 0" by (simp add: digits_val_def digit_val_def)
  then have "unat (double_of_decimal (double_negative d) (fst (shape_value s)) (snd (shape_value s))) = unat d"
    using unat_double [of d] True by (simp add: s_def double_of_decimal_def double_of_ratio_def)
  then have "double_of_decimal (double_negative d) (fst (shape_value s)) (snd (shape_value s)) = d" using unsigned_word_eqI by blast
  moreover have "shape_ok s" by (simp add: s_def integer_part_ok_def)
  moreover have "shape_text s = ''0.0''" by (simp add: s_def)
  ultimately show thesis using that [of s] to_chars_zero [OF assms True] by simp
next
  case False
  have x: "isfinite (double_abs d)" "double_positive (double_abs d)"
    using assms double_abs_parts [of d] False by (simp_all add: double_positive_def)
  obtain f e ds y where g: "significand_ok f e" "unat (double_abs d) = double_value f e" "digits_for f e ds y"
    "\<And>pre post. 17 \<le> length post \<Longrightarrow>
       grisu2 (double_abs d) (digits_in pre [] post 0) = Inr (digits_in pre ds (drop (length ds) post) y)"
    using grisu2_spec [OF x] by metis
  have ds: "ds \<noteq> []" "length ds \<le> 17" "decimal_text ds" "hd ds \<noteq> CHR ''0''" "- 400 \<le> y" "y \<le> 400"
    using g(3) by (simp_all add: digits_for_def)
  note shape = float_shape_ok [OF ds]
  have "double_of_decimal (double_negative d) (fst (shape_value (float_shape ds y))) (snd (shape_value (float_shape ds y))) = of_nat (unat d)"
    using double_of_decimal_near [OF g(1,3) conjunct2 [OF shape]] g(2) unat_double [of d] by simp
  then show thesis
    using that [of "float_shape ds y"] shape to_chars_digits [OF assms False _ ds(1,2,5,6) g(4)] by simp
qed

text \<open>The text of a finite double.\<close>

definition float_text :: "double \<Rightarrow> string" where
  "float_text d = (case to_chars (replicate 64 CHR 0x00) d of Inr (buf, n) \<Rightarrow> take n buf | Inl _ \<Rightarrow> '''')"

lemma float_text_shape:
  assumes "isfinite d"
  obtains s where "shape_ok s" "float_text d = sign_text d @ shape_text s"
    "double_of_decimal (double_negative d) (fst (shape_value s)) (snd (shape_value s)) = d"
    "\<And>buf. length buf = 64 \<Longrightarrow> writes_front [] (float_text d) 64 (to_chars buf d)"
proof -
  obtain s where s: "shape_ok s" "double_of_decimal (double_negative d) (fst (shape_value s)) (snd (shape_value s)) = d"
    "\<And>buf. length buf = 64 \<Longrightarrow> writes_front [] (sign_text d @ shape_text s) 64 (to_chars buf d)"
    using to_chars_shape [OF assms] by metis
  have "writes_front [] (sign_text d @ shape_text s) 64 (to_chars (replicate 64 CHR 0x00) d)" by (rule s(3)) simp
  then have "float_text d = sign_text d @ shape_text s" by (auto simp: float_text_def writes_front_def)
  then show thesis using that [OF s(1)] s(2,3) by simp
qed

lemma float_text_written:
  assumes "isfinite d" "length buf = 64"
  shows "\<exists>rest. to_chars buf d = Inr (float_text d @ rest, length (float_text d)) \<and> length (float_text d) + length rest = 64"
  using float_text_shape [OF assms(1)] assms(2) by (metis (no_types, lifting) append_Nil list.size(3) plus_nat.add_0 writes_front_def)

lemma strtod_float_text: "isfinite d \<Longrightarrow> strto_value (strtod (float_text d)) = d"
proof -
  assume "isfinite d"
  then obtain s where s: "shape_ok s" "float_text d = sign_text d @ shape_text s"
    "double_of_decimal (double_negative d) (fst (shape_value s)) (snd (shape_value s)) = d"
    by (rule float_text_shape)
  then show ?thesis using strtod_shape [OF s(1)] by (auto simp: sign_text_def split: if_splits)
qed

lemma lex_number_float_text:
  assumes "isfinite d" "delimiter r"
  shows "lex_number (float_text d @ r) = Some (float_text d, TK_value_float, r)"
proof -
  obtain s where "shape_ok s" "float_text d = sign_text d @ shape_text s" by (rule float_text_shape [OF assms(1)])
  then show ?thesis using lex_number_shape [OF _ assms(2), of s] by (simp add: sign_text_def)
qed

lemma float_text_head:
  assumes "isfinite d"
  obtains c cs where "float_text d = c # cs" "c = CHR ''-'' \<or> is_digit_char c"
proof -
  obtain s where s: "shape_ok s" "float_text d = sign_text d @ shape_text s" by (rule float_text_shape [OF assms(1)])
  obtain ip fp ex where "s = (ip, fp, ex)" by (cases s) auto
  then show thesis using that s by (cases ip) (auto simp: sign_text_def integer_part_ok_def split: if_splits)
qed

section \<open>Properties\<close>

text \<open>C5. \<open>to_chars\<close> works for every finite double, zeros, subnormal numbers and the largest ones included:
  on any buffer of 64 characters it returns without a failed assertion and without leaving the buffer,
  the text it writes is accepted by the lexer as one floating point number whatever delimiter follows,
  and \<open>strtod\<close> converts that text back to the same 64 bits.\<close>
theorem to_chars_roundtrip:
  assumes "isfinite d" and "length buf = 64"
  shows "\<exists>buf' n. to_chars buf d = Inr (buf', n) \<and> length buf' = 64 \<and> n \<le> 64 \<and> strto_value (strtod (take n buf')) = d \<and>
    (\<forall>r. delimiter r \<longrightarrow> lex_number (take n buf' @ r) = Some (take n buf', TK_value_float, r))"
proof -
  obtain rest where rest: "to_chars buf d = Inr (float_text d @ rest, length (float_text d))" "length (float_text d) + length rest = 64"
    using float_text_written [OF assms] by blast
  have "take (length (float_text d)) (float_text d @ rest) = float_text d" by simp
  then show ?thesis using rest strtod_float_text [OF assms(1)] lex_number_float_text [OF assms(1)]
    by (intro exI [of _ "float_text d @ rest"] exI [of _ "length (float_text d)"]) auto
qed

theorem to_chars_roundtrip_witness:
  "\<exists>buf' n. to_chars (replicate 64 CHR 0x00) 0x7FEFFFFFFFFFFFFF = Inr (buf', n) \<and> strto_value (strtod (take n buf')) = 0x7FEFFFFFFFFFFFFF"
proof -
  have "isfinite 0x7FEFFFFFFFFFFFFF" by code_simp
  then show ?thesis using to_chars_roundtrip [of "0x7FEFFFFFFFFFFFFF" "replicate 64 CHR 0x00"] by auto
qed

text \<open>C24. Grisu2 produces, for every positive finite double, between 1 and 17 decimal digits without a leading zero, and
  the decimal number lies strictly between the midpoints to the two neighbouring doubles, so that no other
  double is closer; neither the choice of the cached power of ten nor the digit loops nor the rounding of
  the last digit fails an assertion or writes outside the 17 characters that \<open>to_chars\<close> guarantees.\<close>
theorem grisu2_digits:
  assumes "isfinite x" and "double_positive x" and "17 \<le> length post"
  shows "\<exists>f e ds y. significand_ok f e \<and> unat x = double_value f e \<and>
    grisu2 x (digits_in pre [] post 0) = Inr (digits_in pre ds (drop (length ds) post) y) \<and>
    1 \<le> length ds \<and> length ds \<le> 17 \<and> list_all is_digit_char ds \<and> hd ds \<noteq> CHR ''0'' \<and>
    (real f - (if lower_closer f e then 1 / 4 else 1 / 2)) * 2 powi e < real (digits_val ds) * 10 powi y \<and>
    real (digits_val ds) * 10 powi y < (real f + 1 / 2) * 2 powi e"
proof -
  obtain f e ds y where g: "significand_ok f e" "unat x = double_value f e" "digits_for f e ds y"
    "\<And>pre post. 17 \<le> length post \<Longrightarrow> grisu2 x (digits_in pre [] post 0) = Inr (digits_in pre ds (drop (length ds) post) y)"
    using grisu2_spec [OF assms(1,2)] by metis
  then show ?thesis using assms(3)
    by (intro exI [of _ f] exI [of _ e] exI [of _ ds] exI [of _ y]) (simp add: digits_for_def Suc_le_eq)
qed

theorem grisu2_digits_witness:
  "\<exists>ds y. grisu2 0x3FF8000000000000 (digits_in [] [] (replicate 17 CHR 0x00) 0) = Inr (digits_in [] ds (drop (length ds) (replicate 17 CHR 0x00)) y) \<and>
     length ds \<le> 17"
proof -
  have "isfinite 0x3FF8000000000000" "double_positive 0x3FF8000000000000" by code_simp+
  then show ?thesis using grisu2_digits [of "0x3FF8000000000000" "replicate 17 CHR 0x00" "[]"] by fastforce
qed

end
