(* ===== verification/Json_Print.thy ===== *)
theory Json_Print
  imports Json_Escape Float_Text
begin

text \<open>
  What \<open>operator<<\<close> writes for a value, as a function on values (\<open>json_print\<close>), and that
  \<open>basic_json::parse\<close> reads it back.  The lexer inverts the escaping of strings, the two-digits-at-a-time
  output of integers writes their decimal numerals, and the recursive-descent grammar accepts the
  text of every value.  Finite floating point numbers are read back bit for bit.
\<close>

section \<open>Strings are read back\<close>

lemma hex_val_lower: "n < 16 \<Longrightarrow> hex_val (hex_lower n) = Some n"
  by (simp add: numeral_eq_Suc less_Suc_eq) (elim disjE; simp add: hex_lower_def hex_val_def Let_def)

lemma hex4_escape: "n < 0x10000 \<Longrightarrow> hex4 (drop 2 (escape_u16 n) @ r) = Some (n, r)"
proof -
  assume n: "n < 0x10000"
  have "n div 16 div 16 = n div 256" "n div 256 div 16 = n div 4096" by (simp_all flip: div_mult2_eq)
  moreover have m: "n div 4096 mod 16 = n div 4096" using n by simp
  ultimately have "4096 * (n div 4096 mod 16) + 256 * (n div 256 mod 16) + 16 * (n div 16 mod 16) + n mod 16 = n"
    using mult_div_mod_eq [of 16 n] mult_div_mod_eq [of 16 "n div 16"] mult_div_mod_eq [of 16 "n div 256"] by linarith
  moreover have "n div 4096 < 16" using n by simp
  ultimately show ?thesis using m by (simp add: escape_u16_def hex_val_lower numeral_2_eq_2)
qed

lemma lex_char_escape:
  assumes "of_char c < (0x80 :: nat)"
  shows "lex_char (escape_char c @ r) = Some ([c], r)" and "hd (escape_char c @ r) \<noteq> CHR 0x22"
proof -
  consider (short) "c \<in> set [CHR 0x08, CHR 0x09, CHR 0x0A, CHR 0x0C, CHR 0x0D, CHR 0x22, CHR 0x5C]"
    | (control) "c \<notin> set [CHR 0x08, CHR 0x09, CHR 0x0A, CHR 0x0C, CHR 0x0D, CHR 0x22, CHR 0x5C]" "of_char c < (0x20 :: nat)"
    | (plain) "c \<notin> set [CHR 0x08, CHR 0x09, CHR 0x0A, CHR 0x0C, CHR 0x0D, CHR 0x22, CHR 0x5C]" "\<not> of_char c < (0x20 :: nat)"
    by blast
  then have "lex_char (escape_char c @ r) = Some ([c], r) \<and> hd (escape_char c @ r) \<noteq> CHR 0x22"
  proof cases
    case short
    then show ?thesis by (elim set_ConsD [THEN disjE]) (auto simp: escape_char_def lex_char_def unescape_def)
  next
    case control
    then have e: "escape_char c = CHR 0x5C # CHR ''u'' # drop 2 (escape_u16 (of_char c))"
      by (simp add: escape_char_def escape_u16_def numeral_2_eq_2)
    have "unescape_unicode (drop 2 (escape_u16 (of_char c)) @ r) = Some ([c], r)"
      using control(2) hex4_escape [of "of_char c" r] by (simp add: unescape_unicode_def utf8_encode_def)
    then show ?thesis by (simp add: e lex_char_def unescape_def)
  next
    case plain
    then have e: "escape_char c = [c]" by (simp add: escape_char_def)
    have "(of_char c :: int) \<noteq> 0x22" "(of_char c :: int) \<noteq> 0x5C"
      using plain(1) by (auto simp: code_iff [of "CHR 0x22" "0x22", simplified] code_iff [of "CHR 0x5C" "0x5C", simplified])
    then show ?thesis using plain assms by (simp add: e lex_char_def Let_def of_char_int)
  qed
  then show "lex_char (escape_char c @ r) = Some ([c], r)" and "hd (escape_char c @ r) \<noteq> CHR 0x22" by auto
qed

lemma escape_char_not_Nil: "escape_char c \<noteq> []"
  by (simp add: escape_char_def escape_u16_def)

lemma take_ranges_high:
  "take_ranges rs s = Some (t, r) \<Longrightarrow> \<forall>x\<in>set rs. 0x80 \<le> fst x \<Longrightarrow> \<forall>d\<in>set t. (0x80 :: int) \<le> of_char d"
  by (induction rs s arbitrary: t r rule: take_ranges.induct) (fastforce split: if_splits)+

lemma utf8_ranges_high: "\<forall>x\<in>set (utf8_ranges n). 0x80 \<le> fst x"
  by (auto simp: utf8_ranges_def split: if_splits)

lemma escape_text_high: "\<forall>d\<in>set t. (0x80 :: int) \<le> of_char d \<Longrightarrow> escape_text t = t"
  by (induction t) (auto simp: escape_char_high)

lemma lex_string_escape: "utf8_ok s \<Longrightarrow> lex_string buf (escape_text s @ CHR 0x22 # r) = Some (buf @ s, r)"
proof (induction s arbitrary: buf rule: utf8_ok.induct)
  case (1 s)
  show ?case
  proof (cases s)
    case Nil
    then show ?thesis by (simp add: lex_string.simps)
  next
    case (Cons c s')
    show ?thesis
    proof (cases "of_char c < (0x80 :: int)")
      case True
      let ?x = "escape_char c @ escape_text s' @ CHR 0x22 # r"
      have lc: "lex_char ?x = Some ([c], escape_text s' @ CHR 0x22 # r)" "hd ?x \<noteq> CHR 0x22" "?x \<noteq> []"
        using lex_char_escape [of c] True escape_char_not_Nil [of c] by (simp_all add: of_char_int)
      have "lex_string buf ?x = lex_string (buf @ [c]) (escape_text s' @ CHR 0x22 # r)"
        using lc by (subst lex_string.simps) (cases "?x", auto)
      moreover have "utf8_ok s'" using 1(3) Cons True by (simp add: utf8_ok_ascii)
      ultimately show ?thesis using 1(1) [OF Cons True, of "buf @ [c]"] Cons by simp
    next
      case False
      obtain t r' where t: "take_ranges (utf8_ranges (of_char c)) s' = Some (t, r')" and ne: "utf8_ranges (of_char c) \<noteq> []"
        using 1(3) False Cons by (subst (asm) utf8_ok.simps) (auto split: if_splits option.splits)
      have s': "s' = t @ r'" using take_ranges_append [OF t] by simp
      have ok: "utf8_ok r'" using utf8_ok_char [OF t ne, of r'] 1(3) Cons s' by simp
      have esc: "escape_text s = c # t @ escape_text r'"
        using Cons s' False escape_text_high [OF take_ranges_high [OF t utf8_ranges_high]] by (simp add: escape_char_high)
      have "c \<noteq> CHR 0x22" using False by auto
      moreover have "lex_char (c # t @ escape_text r' @ CHR 0x22 # r) = Some (c # t, escape_text r' @ CHR 0x22 # r)"
        using take_ranges_append [OF t, of "escape_text r' @ CHR 0x22 # r"] False ne by (simp add: lex_char_def Let_def)
      ultimately have "lex_string buf (c # t @ escape_text r' @ CHR 0x22 # r) =
          lex_string (buf @ c # t) (escape_text r' @ CHR 0x22 # r)"
        by (subst lex_string.simps) simp
      then show ?thesis using 1(2) [OF Cons False ne t refl ok, of "buf @ c # t"] unfolding esc by (simp add: Cons s')
    qed
  qed
qed

section \<open>Integers\<close>

lemma put_back_ok:
  "0 < p \<Longrightarrow> p \<le> length buf \<Longrightarrow> put_back c (buf, p) = Inr (take (p - 1) buf @ c # drop p buf, p - 1)"
  by (cases p) (simp_all add: put_back_def buf_put_def upd_conv_take_nth_drop)

lemma put_pair_ok:
  assumes "2 \<le> p" "p \<le> length buf"
  shows "put_pair n (buf, p) = Inr (take (p - 2) buf @ digit_char (n div 10) # digit_char (n mod 10) # drop p buf, p - 2)"
proof -
  let ?buf = "take (p - 1) buf @ digit_char (n mod 10) # drop p buf"
  have "put_back (digit_char (n div 10)) (?buf, p - 1) =
      Inr (take (p - 1 - 1) ?buf @ digit_char (n div 10) # drop (p - 1) ?buf, p - 1 - 1)"
    using assms by (intro put_back_ok) auto
  moreover have "p - 1 - 1 = p - 2" "take (p - 2) ?buf = take (p - 2) buf" "drop (p - 1) ?buf = digit_char (n mod 10) # drop p buf"
    using assms by simp_all
  moreover have "put_back (digit_char (n mod 10)) (buf, p) = Inr (?buf, p - 1)"
    using assms by (intro put_back_ok) auto
  ultimately show ?thesis by (simp add: put_pair_def digits_to_99_def flip: digit_char_def)
qed

lemma decimal_pair: "100 \<le> n \<Longrightarrow> decimal n = decimal (n div 100) @ [digit_char (n mod 100 div 10), digit_char (n mod 100 mod 10)]"
proof -
  assume n: "100 \<le> n"
  have "n mod 100 = 10 * (n div 10 mod 10) + n mod 10" using mod_mult2_eq [of n 10 10] by simp
  moreover from this have "n div 10 mod 10 = n mod 100 div 10" "n mod 10 = n mod 100 mod 10" by simp_all
  moreover have "n div 10 div 10 = n div 100" by (simp flip: div_mult2_eq)
  moreover have "10 \<le> n div 10" using n by simp
  ultimately show ?thesis using n decimal_big [of n] decimal_big [of "n div 10"] by simp
qed

lemma decimal_two: "10 \<le> n \<Longrightarrow> n < 100 \<Longrightarrow> decimal n = [digit_char (n div 10), digit_char (n mod 10)]"
  by (simp add: decimal_big decimal_small)

lemma digit_pairs_ok:
  assumes "length (decimal (unat x)) \<le> p" "p \<le> length buf"
  shows "digit_pairs x (buf, p) =
    Inr (take (p - length (decimal (unat x))) buf @ decimal (unat x) @ drop p buf, p - length (decimal (unat x)))"
  using assms
proof (induction "unat x" arbitrary: x buf p rule: less_induct)
  case less
  consider (big) "100 \<le> unat x" | (two) "10 \<le> unat x" "unat x < 100" | (one) "unat x < 10" by linarith
  then show ?case
  proof cases
    case big
    let ?d = "length (decimal (unat x div 100))"
    have len: "length (decimal (unat x)) = ?d + 2" using decimal_pair [OF big] by simp
    let ?buf = "take (p - 2) buf @ digit_char (unat x mod 100 div 10) # digit_char (unat x mod 100 mod 10) # drop p buf"
    have "digit_pairs x (buf, p) = digit_pairs (x div 100) (?buf, p - 2)"
      using big less.prems len by (subst digit_pairs.simps) (simp add: word_le_nat_alt unat_mod put_pair_ok del: digit_pairs.simps)
    also have "\<dots> = Inr (take (p - 2 - ?d) ?buf @ decimal (unat x div 100) @ drop (p - 2) ?buf, p - 2 - ?d)"
      using less.hyps [of "x div 100" "p - 2" ?buf] big less.prems len by (simp add: unat_div)
    also have "take (p - 2 - ?d) ?buf = take (p - (?d + 2)) buf" using less.prems len by simp
    also have "drop (p - 2) ?buf = [digit_char (unat x mod 100 div 10), digit_char (unat x mod 100 mod 10)] @ drop p buf"
      using less.prems len by simp
    also have "p - 2 - ?d = p - (?d + 2)" by simp
    finally show ?thesis unfolding len by (simp only: decimal_pair [OF big] append_assoc)
  next
    case two
    have len: "length (decimal (unat x)) = 2" using two by (simp add: decimal_two)
    show ?thesis
      using two less.prems unfolding len
      by (subst digit_pairs.simps) (simp add: word_le_nat_alt put_pair_ok decimal_two)
  next
    case one
    then show ?thesis
      using less.prems by (subst digit_pairs.simps) (simp add: word_le_nat_alt put_back_ok decimal_small digit_char_def)
  qed
qed

lemma length_decimal:
  "n < 10 \<Longrightarrow> length (decimal n) = 1" "10 \<le> n \<Longrightarrow> n < 100 \<Longrightarrow> length (decimal n) = 2"
  "100 \<le> n \<Longrightarrow> length (decimal n) = length (decimal (n div 100)) + 2"
  by (simp_all add: decimal_small decimal_two decimal_pair)

lemma count_digits_loop_decimal: "count_digits_loop (Suc n) x = n + length (decimal (unat x))"
proof (induction "unat x" arbitrary: n x rule: less_induct)
  case less
  consider (one) "unat x < 10" | (two) "10 \<le> unat x" "unat x < 100" | (three) "100 \<le> unat x" "unat x < 1000"
    | (four) "1000 \<le> unat x" "unat x < 10000" | (more) "10000 \<le> unat x" by linarith
  then show ?case
  proof cases
    case more
    then have "length (decimal (unat x)) = length (decimal (unat x div 10000)) + 4"
      using length_decimal(3) [of "unat x"] length_decimal(3) [of "unat x div 100"] div_mult2_eq [of "unat x" 100 100] by simp
    moreover have "count_digits_loop (Suc n) x = count_digits_loop (Suc (n + 4)) (x div 10000)"
      using more by (subst count_digits_loop.simps) (simp add: word_less_nat_alt)
    ultimately show ?thesis
      using less.hyps [of "x div 10000" "n + 4"] more by (simp add: unat_div)
  next
    case three
    then show ?thesis
      using length_decimal(1) [of "unat x div 100"] length_decimal(3) [of "unat x"]
      by (subst count_digits_loop.simps) (simp add: word_less_nat_alt)
  next
    case four
    then show ?thesis
      using length_decimal(2) [of "unat x div 100"] length_decimal(3) [of "unat x"]
      by (subst count_digits_loop.simps) (simp add: word_less_nat_alt)
  qed (subst count_digits_loop.simps, simp add: word_less_nat_alt length_decimal(1,2))+
qed

lemma count_digits_decimal: "count_digits x = length (decimal (unat x))"
  using count_digits_loop_decimal [of 0] by (simp add: count_digits_def)

lemma length_decimal_less: "n < 10 ^ k \<Longrightarrow> 0 < k \<Longrightarrow> length (decimal n) \<le> k"
proof (induction k arbitrary: n)
  case (Suc k)
  show ?case
  proof (cases "n < 10")
    case False
    then have "n div 10 < 10 ^ k" using Suc.prems by (simp add: less_mult_imp_div_less mult.commute)
    moreover have "0 < k" using False Suc.prems by (cases k) auto
    ultimately
    show ?thesis using Suc.IH [of "n div 10"] False by (simp add: decimal_big)
  qed (simp add: decimal_small)
qed simp


text \<open>The buffers have their sizes and errors in strings are strict.\<close>

definition ser_ok :: "serializer \<Rightarrow> bool" where
  "ser_ok ser \<longleftrightarrow> length (number_buffer ser) = 64 \<and> length (string_buffer ser) = 512 \<and> error_handler ser = EH_strict"

text \<open>A computation of the serializer that writes exactly \<open>tx\<close>.\<close>

definition writes :: "serializer \<Rightarrow> string \<Rightarrow> failure + serializer \<Rightarrow> bool" where
  "writes ser tx m \<longleftrightarrow> (\<exists>ser'. m = Inr ser' \<and> so ser' = so ser @ tx \<and> ser_ok ser')"

lemma writes_text: "ser_ok ser \<Longrightarrow> writes ser tx (out_text tx ser)"
  by (simp add: writes_def write_characters_def ser_ok_def)

lemma writes_escaped:
  assumes "ser_ok ser"
  shows "if utf8_ok s then writes ser (escape_text s) (dump_escaped False s ser)
    else dump_escaped False s ser = Inl (Type_error 316)"
  using dump_escaped_text [of ser s] assms by (auto simp: ser_ok_def writes_def split: if_splits)

lemma digit_char_0: "digit_char 0 = CHR ''0''"
  by code_simp

lemma decimal_u64: "length (decimal (unat (x :: u64))) \<le> 20"
proof (rule length_decimal_less)
  have "unat x < 2 ^ 64" using unsigned_less [of x] by simp
  then show "unat x < 10 ^ 20" by simp
qed simp

lemma writes_unsigned: "ser_ok ser \<Longrightarrow> writes ser (decimal (unat x)) (dump_unsigned x ser)"
proof (cases "x = 0")
  case True
  then show "ser_ok ser \<Longrightarrow> ?thesis"
    by (simp add: dump_unsigned_def dump_integer_def writes_text decimal_small digit_char_0)
next
  case False
  assume ok: "ser_ok ser"
  let ?n = "length (decimal (unat x))"
  have "digit_pairs x (number_buffer ser, ?n) = Inr (decimal (unat x) @ drop ?n (number_buffer ser), 0)"
    using digit_pairs_ok [of x ?n "number_buffer ser"] decimal_u64 [of x] ok by (simp add: ser_ok_def)
  then show ?thesis
    using False ok decimal_u64 [of x]
    by (simp add: dump_unsigned_def dump_integer_def count_digits_decimal json_assert_def ser_ok_def write_buffer_def
        write_characters_def writes_def)
qed

definition integer_text :: "u64 \<Rightarrow> string" where
  "integer_text x = (if x <s 0 then CHR ''-'' # decimal (unat (- x)) else decimal (unat x))"

lemma writes_signed: "ser_ok ser \<Longrightarrow> writes ser (integer_text x) (dump_signed x ser)"
proof (cases "x <s 0")
  case False
  then show "ser_ok ser \<Longrightarrow> ?thesis"
    using writes_unsigned by (simp add: dump_signed_def integer_text_def dump_unsigned_def)
next
  case True
  assume ok: "ser_ok ser"
  let ?n = "length (decimal (unat (- x)))" let ?buf = "(number_buffer ser)[0 := CHR ''-'']"
  have x0: "x \<noteq> 0" using True by auto
  have "digit_pairs (- x) (?buf, Suc ?n) = Inr (take 1 ?buf @ decimal (unat (- x)) @ drop (Suc ?n) ?buf, 1)"
    using digit_pairs_ok [of "- x" "Suc ?n" ?buf] decimal_u64 [of "- x"] ok by (simp add: ser_ok_def)
  moreover have "take 1 ?buf = [CHR ''-'']" using ok by (cases "number_buffer ser") (simp_all add: ser_ok_def)
  ultimately have "digit_pairs (- x) (?buf, Suc ?n) = Inr ((CHR ''-'' # decimal (unat (- x))) @ drop (Suc ?n) ?buf, 1)" by simp
  then show ?thesis
    using True x0 ok decimal_u64 [of "- x"]
    by (simp add: dump_signed_def dump_integer_def count_digits_decimal json_assert_def ser_ok_def write_buffer_def
        write_characters_def writes_def integer_text_def buf_put_def remove_sign_def)
qed


section \<open>Values\<close>

fun join_comma :: "string list \<Rightarrow> string" where
  "join_comma [] = []"
| "join_comma [x] = x"
| "join_comma (x # y # xs) = x @ CHR '','' # join_comma (y # xs)"

definition quoted_text :: "string \<Rightarrow> string" where
  "quoted_text s = CHR 0x22 # escape_text s @ [CHR 0x22]"

text \<open>
  The compact text of a value; a floating point number that is not finite is written as \<open>null\<close>.
\<close>

fun json_print :: "json \<Rightarrow> string" where
  "json_print (JObject m) =
     CHR ''{'' # join_comma (map (\<lambda>kv. quoted_text (fst kv) @ CHR '':'' # json_print (snd kv)) m) @ ''}''"
| "json_print (JArray xs) = CHR ''['' # join_comma (map json_print xs) @ '']''"
| "json_print (JString str) = quoted_text str"
| "json_print (JBoolean b) = (if b then ''true'' else ''false'')"
| "json_print (JInteger x) = integer_text x"
| "json_print (JUnsigned x) = decimal (unat x)"
| "json_print (JFloat d) = (if isfinite d then float_text d else ''null'')"
| "json_print (JBinary b t) = ''''"
| "json_print JDiscarded = ''<discarded>''"
| "json_print JNull = ''null''"

fun binary_free :: "json \<Rightarrow> bool" where
  "binary_free (JObject m) = list_all (\<lambda>kv. binary_free (snd kv)) m"
| "binary_free (JArray xs) = list_all binary_free xs"
| "binary_free (JBinary b t) = False"
| "binary_free _ = True"

fun texts_ok :: "json \<Rightarrow> bool" where
  "texts_ok (JObject m) = list_all (\<lambda>kv. utf8_ok (fst kv) \<and> texts_ok (snd kv)) m"
| "texts_ok (JArray xs) = list_all texts_ok xs"
| "texts_ok (JString str) = utf8_ok str"
| "texts_ok _ = True"

definition emits :: "bool \<Rightarrow> string \<Rightarrow> serializer \<Rightarrow> failure + serializer \<Rightarrow> bool" where
  "emits ok tx ser m \<longleftrightarrow> (if ok then writes ser tx m else m = Inl (Type_error 316))"

lemma emits_bind:
  assumes "emits ok tx ser m" and "\<And>ser'. ser_ok ser' \<Longrightarrow> emits ok' tx' ser' (f ser')"
  shows "emits (ok \<and> ok') (tx @ tx') ser (ebind m f)"
proof (cases ok)
  case True
  then obtain ser' where ser': "m = Inr ser'" "so ser' = so ser @ tx" "ser_ok ser'"
    using assms(1) by (auto simp: emits_def writes_def)
  then show ?thesis using assms(2) [OF ser'(3)] True by (auto simp: emits_def writes_def)
qed (use assms(1) in \<open>simp add: emits_def\<close>)

lemma emits_bind_write:
  assumes "\<And>ser'. ser_ok ser' \<Longrightarrow> emits ok tx ser' (f ser')" and "ser_ok ser"
  shows "emits ok (cs @ tx) ser (f (write_characters cs ser))"
  using emits_bind [of True cs ser "out_text cs ser" ok tx f] assms writes_text by (simp add: emits_def)

lemma emits_text: "ser_ok ser \<Longrightarrow> emits True tx ser (out_text tx ser)"
  by (simp add: emits_def writes_text)

lemma emits_escaped: "ser_ok ser \<Longrightarrow> emits (utf8_ok s) (escape_text s) ser (dump_escaped False s ser)"
  using writes_escaped by (simp add: emits_def)

lemma emits_list:
  assumes "\<And>x ser. x \<in> set xs \<Longrightarrow> ser_ok ser \<Longrightarrow> emits (ok x) (tx x) ser (f x ser)" and "ser_ok ser" and "xs \<noteq> []"
  shows "emits (list_all ok xs) (join_comma (map tx xs)) ser (dump_list (item_sep False) f xs ser)"
  using assms
proof (induction xs arbitrary: ser)
  case (Cons x xs)
  show ?case
  proof (cases xs)
    case (Cons y ys)
    have rest: "emits (list_all ok xs) (join_comma (map tx xs)) ser (dump_list (item_sep False) f xs ser)" if "ser_ok ser" for ser
      using Cons.IH Cons.prems(1) that \<open>xs = y # ys\<close> by simp
    have "emits (ok x \<and> True \<and> list_all ok xs) (tx x @ '','' @ join_comma (map tx xs)) ser
        (dump_list (item_sep False) f (x # xs) ser)"
      unfolding Cons dump_list.simps
      by (intro emits_bind) (use Cons.prems rest Cons in \<open>auto simp: item_sep_def emits_text\<close>)
    then show ?thesis using Cons by simp
  qed (use Cons.prems in simp)
qed simp

lemma emits_quoted:
  "ser_ok ser \<Longrightarrow> emits (utf8_ok s) (quoted_text s) ser
     (ebind (dump_escaped False s (write_characters [CHR 0x22] ser)) (\<lambda>ser. out_text [CHR 0x22] ser))"
  using emits_bind_write [of "utf8_ok s" "escape_text s @ [CHR 0x22]"
      "\<lambda>ser. ebind (dump_escaped False s ser) (\<lambda>ser. out_text [CHR 0x22] ser)" ser "[CHR 0x22]"]
    emits_bind [OF emits_escaped emits_text]
  by (simp add: quoted_text_def)

lemma emits_key:
  "ser_ok ser \<Longrightarrow> emits (utf8_ok k) (quoted_text k @ '':'') ser (dump_key False False ind k ser)"
  using emits_bind_write [of "utf8_ok k" "escape_text k @ [CHR 0x22, CHR '':'']"
      "\<lambda>ser. ebind (dump_escaped False k ser) (\<lambda>ser. out_text [CHR 0x22, CHR '':''] ser)" ser "[CHR 0x22]"]
    emits_bind [OF emits_escaped emits_text]
  by (simp add: quoted_text_def dump_key_def item_indent_def)

lemma emits_container:
  assumes "\<And>ser. ser_ok ser \<Longrightarrow> emits ok tx ser (f ser)" and "ser_ok ser"
  shows "emits ok (a @ tx @ b) ser
    (ebind (f (open_container False a n ser)) (\<lambda>ser. end_dump False b i ser))"
proof -
  have "emits ok (tx @ b) ser' (ebind (f ser') (\<lambda>ser. out_text b ser))" if "ser_ok ser'" for ser'
    using emits_bind [OF assms(1) emits_text] that by simp
  from emits_bind_write [OF this assms(2)] show ?thesis by (simp add: open_container_def end_dump_def)
qed

lemma emits_float:
  assumes "isfinite d" and "ser_ok ser"
  shows "emits True (float_text d) ser (dump_float d ser)"
proof -
  obtain rest where "to_chars (number_buffer ser) d = Inr (float_text d @ rest, length (float_text d))"
      "length (float_text d) + length rest = 64"
    using float_text_written [OF assms(1), of "number_buffer ser"] assms(2) by (auto simp: ser_ok_def)
  then show ?thesis
    using assms by (simp add: emits_def writes_def dump_float_def write_buffer_def write_characters_def ser_ok_def)
qed

lemma dump_emits:
  "binary_free j \<Longrightarrow> ser_ok ser \<Longrightarrow> emits (texts_ok j) (json_print j) ser (dump False False step ind j ser)"
proof (induction j arbitrary: ser ind rule: json_print.induct)
  case (1 m)
  have key: "emits (utf8_ok (fst kv) \<and> texts_ok (snd kv)) (quoted_text (fst kv) @ CHR '':'' # json_print (snd kv)) ser
      (ebind (dump_key False False ind (fst kv) ser) (\<lambda>ser. dump False False step ind (snd kv) ser))"
    if "kv \<in> set m" "ser_ok ser" for kv ser
    using emits_bind [OF emits_key 1(1) [OF that(1)]] that 1(2) by (auto simp: list_all_iff)
  show ?case
  proof (cases "m = []")
    case False
    from emits_container [OF emits_list [OF key _ False] 1(3), where a = "''{''" and b = "''}''" and n = ind and i = ind]
    show ?thesis using False by simp
  qed (use emits_text [OF 1(3)] in simp)
next
  case (2 xs)
  have item: "emits (texts_ok x) (json_print x) ser
      (ebind (item_indent False ind ser) (\<lambda>ser. dump False False step ind x ser))"
    if "x \<in> set xs" "ser_ok ser" for x ser
    using 2(1) [OF that(1)] that 2(2) by (auto simp: list_all_iff item_indent_def)
  show ?case
  proof (cases "xs = []")
    case False
    from emits_container [OF emits_list [OF item _ False] 2(3), where a = "''[''" and b = "'']''" and n = ind and i = ind]
    show ?thesis using False by simp
  qed (use emits_text [OF 2(3)] in simp)
next
  case (3 str)
  then show ?case using emits_quoted by simp
next
  case (5 x)
  then show ?case using writes_signed by (simp add: emits_def)
next
  case (6 x)
  then show ?case using writes_unsigned by (simp add: emits_def)
next
  case (7 d)
  then show ?case using emits_text emits_float by (simp add: dump_float_def)
qed (simp_all add: emits_text)

lemma json_text_print:
  assumes "binary_free j"
  shows "json_text j = (if texts_ok j then Inr (json_print j) else Inl (Type_error 316))"
proof -
  have "ser_ok (serializer_new CHR '' '' EH_strict)" by (simp add: ser_ok_def serializer_new_def)
  from dump_emits [OF assms this, of 0 0] show ?thesis
    by (auto simp: json_text_def json_put_def emits_def writes_def serializer_new_def split: if_splits)
qed

section \<open>The text of a value is read back\<close>

lemma lex_integer_part_decimal:
  "delimiter r \<Longrightarrow> lex_integer_part (decimal n @ r) = Some (decimal n, r)"
proof (cases "n = 0")
  case True
  then show "delimiter r \<Longrightarrow> ?thesis" by (simp add: decimal_small digit_char_0 lex_integer_part_def)
next
  case False
  obtain c ds where d: "decimal n = c # ds" by (cases "decimal n") auto
  have "c \<noteq> CHR ''0''" using hd_decimal_zero [of n] False d by simp
  moreover have "is_digit_char c" using decimal_digits [of c n] d by simp
  moreover have "list_all is_digit_char (decimal n)" using decimal_digits by (auto simp: list_all_iff)
  moreover assume "delimiter r"
  ultimately show ?thesis
    using takeWhile_delimiter [of "decimal n" r] d by (simp add: lex_integer_part_def)
qed

lemma lex_number_decimal:
  assumes "delimiter r"
  shows "lex_number (decimal n @ r) = Some (decimal n, TK_value_unsigned, r)"
    and "lex_number (CHR ''-'' # decimal n @ r) = Some (CHR ''-'' # decimal n, TK_value_integer, r)"
proof -
  obtain c ds where d: "decimal n = c # ds" by (cases "decimal n") auto
  have "is_digit_char c" using decimal_digits [of c n] d by simp
  then have "c \<noteq> CHR ''-''" using is_digit_char_other by auto
  then show "lex_number (decimal n @ r) = Some (decimal n, TK_value_unsigned, r)"
    using lex_number_digit [of c "ds @ r"] lex_integer_part_decimal [OF assms, of n] lex_after_delimiter [OF assms] d
    by (simp add: number_kind_def)
  show "lex_number (CHR ''-'' # decimal n @ r) = Some (CHR ''-'' # decimal n, TK_value_integer, r)"
    using lex_integer_part_decimal [OF assms, of n] lex_after_delimiter [OF assms]
    by (simp add: lex_number_minus number_kind_def)
qed

lemma is_ws_simps: "is_digit_char c \<Longrightarrow> \<not> is_ws c" "\<not> is_ws CHR ''-''" "\<not> is_ws CHR 0x22"
  by (auto simp: is_ws_def is_digit_char_def)

lemma lex_next_nows: "\<not> is_ws c \<Longrightarrow> lex_next (c # s) = lex_nows (c # s)"
  by (simp add: lex_next_def)

lemma lex_next_unsigned:
  assumes "delimiter r"
  shows "lex_next (decimal (unat (x :: u64)) @ r) = (L_unsigned x, r)"
proof -
  obtain c ds where d: "decimal (unat x) = c # ds" by (cases "decimal (unat x)") auto
  have c: "is_digit_char c" using decimal_digits [of c "unat x"] d by simp
  have "unat x < 2 ^ 64" using unsigned_less [of x] by simp
  then have "number_lexeme (decimal (unat x)) TK_value_unsigned = L_unsigned x" by (simp add: number_lexeme_def)
  then show ?thesis
    using lex_number_decimal(1) [OF assms, of "unat x"] c d
    by (simp add: lex_next_nows is_ws_simps lex_nows_number)
qed

lemma unat_sint:
  "sint (x :: u64) < 0 \<Longrightarrow> unat (- x) = nat (- sint x)" "0 \<le> sint x \<Longrightarrow> unat x = nat (sint x)"
proof -
  have lo: "- (2 ^ 63) \<le> sint x" and hi: "sint x < 2 ^ 63" using sint_ge [of x] sint_lt [of x] by simp_all
  have "uint (- x) = (- sint x) mod 2 ^ 64" "uint x = sint x mod 2 ^ 64"
    using uint_word_of_int [of "- sint x", where 'a = 64] uint_word_of_int [of "sint x", where 'a = 64] by simp_all
  then show "sint x < 0 \<Longrightarrow> unat (- x) = nat (- sint x)" "0 \<le> sint x \<Longrightarrow> unat x = nat (sint x)"
    using lo hi by (simp_all add: mod_pos_pos_trivial flip: nat_uint_eq)
qed

lemma lex_next_integer:
  assumes "delimiter r" and "x <s 0"
  shows "lex_next (CHR ''-'' # decimal (unat (- x)) @ r) = (L_integer x, r)"
proof -
  have "sint x < 0" "- (2 ^ 63) \<le> sint x" using assms(2) sint_ge [of x] by (simp_all add: word_sless_alt)
  then have "unat (- x) \<le> 2 ^ 63" by (simp add: unat_sint nat_le_iff)
  then have "number_lexeme (CHR ''-'' # decimal (unat (- x))) TK_value_integer = L_integer x"
    by (simp add: number_lexeme_def)
  then show ?thesis
    using lex_number_decimal(2) [OF assms(1), of "unat (- x)"]
    by (simp add: lex_next_nows is_ws_simps lex_nows_number)
qed

lemma lex_next_float:
  assumes "isfinite d" and "delimiter r"
  shows "lex_next (float_text d @ r) = (L_float d, r)"
proof -
  obtain c cs where c: "float_text d = c # cs" "c = CHR ''-'' \<or> is_digit_char c" by (rule float_text_head [OF assms(1)])
  have "number_lexeme (float_text d) TK_value_float = L_float d" by (simp add: number_lexeme_def strtod_float_text assms(1))
  then show ?thesis
    using lex_number_float_text [OF assms] c by (auto simp: lex_next_nows is_ws_simps lex_nows_number)
qed

lemma lex_next_quoted: "utf8_ok s \<Longrightarrow> lex_next (quoted_text s @ r) = (L_string s, r)"
  by (simp add: quoted_text_def lex_next_nows is_ws_simps lex_nows_string lex_string_escape)

lemma lex_next_punctuation [simp]:
  "lex_next (CHR '','' # r) = (L_token TK_value_separator, r)" "lex_next (CHR '':'' # r) = (L_token TK_name_separator, r)"
  "lex_next (CHR ''['' # r) = (L_token TK_begin_array, r)" "lex_next (CHR '']'' # r) = (L_token TK_end_array, r)"
  "lex_next (CHR ''{'' # r) = (L_token TK_begin_object, r)" "lex_next (CHR ''}'' # r) = (L_token TK_end_object, r)"
  by (simp_all add: lex_next_def lex_nows_def is_ws_def)

lemma lex_next_literals [simp]:
  "lex_next (''true'' @ r) = (L_token TK_literal_true, r)" "lex_next (''false'' @ r) = (L_token TK_literal_false, r)"
  "lex_next (''null'' @ r) = (L_token TK_literal_null, r)"
  by (simp_all add: lex_next_def lex_nows_def is_ws_def lex_literal_def)

text \<open>
  An integer that is not negative is read back as an unsigned one, and a number that is not finite
  as \<open>null\<close>.
\<close>

fun json_norm :: "json \<Rightarrow> json" where
  "json_norm (JObject m) = JObject (map (\<lambda>kv. (fst kv, json_norm (snd kv))) m)"
| "json_norm (JArray xs) = JArray (map json_norm xs)"
| "json_norm (JInteger x) = (if x <s 0 then JInteger x else JUnsigned x)"
| "json_norm (JFloat d) = (if isfinite d then JFloat d else JNull)"
| "json_norm j = j"

text \<open>The values with a text that is JSON.\<close>

fun printable :: "json \<Rightarrow> bool" where
  "printable (JObject m) = (map_ok m \<and> list_all (\<lambda>kv. utf8_ok (fst kv) \<and> printable (snd kv)) m)"
| "printable (JArray xs) = list_all printable xs"
| "printable (JString str) = utf8_ok str"
| "printable (JBinary b t) = False"
| "printable JDiscarded = False"
| "printable _ = True"

lemma delimiter_simps [simp]: "delimiter []" "delimiter (CHR '','' # r)" "delimiter (CHR '']'' # r)" "delimiter (CHR ''}'' # r)"
  by (simp_all add: delimiter_def is_digit_char_def)


lemma rd_value_not_end: "rd_value s = Some v \<Longrightarrow> fst (lex_next s) \<noteq> L_token TK_end_array"
  by (subst (asm) rd_value.simps) (auto split: prod.splits)

lemma rd_elements_join:
  assumes "\<And>x r. x \<in> set xs \<Longrightarrow> delimiter r \<Longrightarrow> rd_value (tx x @ r) = Some (nv x, r)" and "xs \<noteq> []"
  shows "rd_elements acc (join_comma (map tx xs) @ CHR '']'' # r) = Some (JArray (acc @ map nv xs), r)"
  using assms
proof (induction xs arbitrary: acc)
  case (Cons x xs)
  then show ?case by (cases xs) (simp_all add: rd_elements_eq [of acc])
qed simp

definition member_text :: "(json \<Rightarrow> string) \<Rightarrow> string \<times> json \<Rightarrow> string" where
  "member_text tx kv = quoted_text (fst kv) @ CHR '':'' # tx (snd kv)"

lemma key_text_member:
  "utf8_ok (fst kv) \<Longrightarrow> key_text (lex_next (member_text tx kv @ r)) = Some (fst kv, tx (snd kv) @ r)"
  by (simp add: member_text_def lex_next_quoted)

lemma rd_members_join:
  assumes "\<And>kv r. kv \<in> set m \<Longrightarrow> delimiter r \<Longrightarrow> rd_value (tx (snd kv) @ r) = Some (nv (snd kv), r)"
    and "\<And>kv. kv \<in> set m \<Longrightarrow> utf8_ok (fst kv)" and "m \<noteq> []" and "sorted_wrt (<) (map fst (acc @ m))"
  shows "rd_members acc (join_comma (map (member_text tx) m) @ CHR ''}'' # r) =
    Some (JObject (acc @ map (\<lambda>kv. (fst kv, nv (snd kv))) m), r)"
  using assms
proof (induction m arbitrary: acc)
  case (Cons kv m)
  have put: "map_put acc (fst kv) (nv (snd kv)) = acc @ [(fst kv, nv (snd kv))]"
    using Cons.prems(4) by (intro map_put_last) (auto simp: sorted_wrt_append)
  have sorted: "sorted_wrt (<) (map fst ((acc @ [(fst kv, nv (snd kv))]) @ m))" using Cons.prems(4) by simp
  show ?case
  proof (cases m)
    case Nil
    then show ?thesis
      using Cons.prems by (simp add: rd_members_eq [of acc] key_text_member put)
  next
    case (Cons kv' m')
    have "rd_members acc (join_comma (map (member_text tx) (kv # m)) @ CHR ''}'' # r) =
        rd_members (acc @ [(fst kv, nv (snd kv))]) (join_comma (map (member_text tx) m) @ CHR ''}'' # r)"
      using Cons.prems Cons by (subst rd_members_eq) (simp add: key_text_member put)
    also have "\<dots> = Some (JObject ((acc @ [(fst kv, nv (snd kv))]) @ map (\<lambda>kv. (fst kv, nv (snd kv))) m), r)"
      using Cons.IH [OF _ _ _ sorted] Cons.prems Cons by simp
    finally show ?thesis by simp
  qed
qed simp

lemma rd_value_print: "printable j \<Longrightarrow> delimiter r \<Longrightarrow> rd_value (json_print j @ r) = Some (json_norm j, r)"
proof (induction j arbitrary: r rule: json_print.induct)
  case (1 m)
  let ?t = "join_comma (map (member_text json_print) m)"
  show ?case
  proof (cases "m = []")
    case True
    then show ?thesis by (subst rd_value.simps) simp
  next
    case False
    then obtain kv m' where m: "m = kv # m'" by (cases m) auto
    have ok: "\<And>kv. kv \<in> set m \<Longrightarrow> utf8_ok (fst kv)" using 1(2) by (auto simp: list_all_iff)
    have val: "\<And>kv r. kv \<in> set m \<Longrightarrow> delimiter r \<Longrightarrow> rd_value (json_print (snd kv) @ r) = Some (json_norm (snd kv), r)"
      using 1(1,2) by (auto simp: list_all_iff)
    have "rd_members [] (?t @ CHR ''}'' # r) = Some (JObject (map (\<lambda>kv. (fst kv, json_norm (snd kv))) m), r)"
      using rd_members_join [of m json_print json_norm "[]" r, OF val ok False] 1(2) by (simp add: map_ok_def)
    moreover have "fst (lex_next (?t @ CHR ''}'' # r)) \<noteq> L_token TK_end_object"
    proof -
      obtain u where "?t = quoted_text (fst kv) @ u" using m by (cases m') (auto simp: member_text_def)
      then show ?thesis using lex_next_quoted [OF ok [of kv]] m by simp
    qed
    ultimately show ?thesis by (subst rd_value.simps) (simp add: member_text_def [abs_def])
  qed
next
  case (2 xs)
  show ?case
  proof (cases "xs = []")
    case True
    then show ?thesis by (subst rd_value.simps) simp
  next
    case False
    let ?t = "join_comma (map json_print xs) @ CHR '']'' # r"
    have val: "\<And>x r. x \<in> set xs \<Longrightarrow> delimiter r \<Longrightarrow> rd_value (json_print x @ r) = Some (json_norm x, r)"
      using 2(1,2) by (auto simp: list_all_iff)
    have "rd_elements [] ?t = Some (JArray (map json_norm xs), r)"
      using rd_elements_join [of xs json_print json_norm "[]" r, OF val False] by simp
    moreover from this have "fst (lex_next ?t) \<noteq> L_token TK_end_array"
      using rd_value_not_end by (subst (asm) rd_elements_eq) (fastforce split: option.splits)
    ultimately show ?thesis by (subst rd_value.simps) simp
  qed
next
  case (3 str)
  then show ?case by (subst rd_value.simps) (simp add: lex_next_quoted)
next
  case (4 b)
  then show ?case
    by (subst rd_value.simps) (cases b, simp_all del: append.simps add: lex_next_literals)
next
  case (5 x)
  then show ?case
    by (subst rd_value.simps) (simp add: integer_text_def lex_next_integer lex_next_unsigned)
next
  case (6 x)
  then show ?case by (subst rd_value.simps) (simp add: lex_next_unsigned)
next
  case (7 d)
  then show ?case by (subst rd_value.simps) (simp add: lex_next_float del: append.simps)
next
  case 10
  then show ?case by (subst rd_value.simps) (simp del: append.simps)
qed simp_all

lemma hd_decimal_ascii: "hd (decimal n) \<noteq> CHR 0xEF"
proof
  assume "hd (decimal n) = CHR 0xEF"
  moreover have "is_digit_char (hd (decimal n))" by (rule decimal_digits [of _ n]) simp
  ultimately show False by (simp add: is_digit_char_def)
qed

lemma hd_float_ascii: "isfinite d \<Longrightarrow> hd (float_text d) \<noteq> CHR 0xEF"
  by (rule float_text_head [of d]) (auto simp: is_digit_char_def)

lemma json_print_hd: "printable j \<Longrightarrow> hd (json_print j) \<noteq> CHR 0xEF"
  by (cases j) (auto simp: quoted_text_def integer_text_def hd_decimal_ascii hd_float_ascii)

lemma json_parse_print: "printable j \<Longrightarrow> json_parse (json_print j) False = Inr (json_norm j)"
proof -
  assume j: "printable j"
  have "strip_bom (json_print j) = Some (json_print j)" using json_print_hd [OF j] by (simp add: strip_bom_def)
  moreover have "rd_value (json_print j) = Some (json_norm j, [])" using rd_value_print [OF j, of "[]"] by simp
  moreover have "fst (lex_next []) = L_token TK_end_of_input" by (simp add: lex_next_def lex_nows_def)
  ultimately show ?thesis by (simp add: json_parse_document rd_document_def)
qed


lemma printable_text: "printable j \<Longrightarrow> json_text j = Inr (json_print j)"
proof -
  assume j: "printable j"
  have "binary_free j \<and> texts_ok j" using j by (induction j rule: printable.induct) (auto simp: list_all_iff)
  then show ?thesis using json_text_print by simp
qed

lemma parsed_printable: "parsed_ok j \<Longrightarrow> printable j"
  by (induction j rule: printable.induct) (auto simp: list_all_iff)

section \<open>The library as a codec\<close>

text \<open>
  What the messages rely on: values that can be written are written to a text, reading the text gives the
  value up to a normal form, and normal forms are stable.
\<close>

locale json_codec =
  fixes writer :: "'v \<Rightarrow> failure + string" and reader :: "string \<Rightarrow> failure + 'v"
    and text_of :: "'v \<Rightarrow> string" and norm :: "'v \<Rightarrow> 'v" and ok :: "'v \<Rightarrow> bool"
  assumes writer_ok: "ok j \<Longrightarrow> writer j = Inr (text_of j)"
    and reader_text: "ok j \<Longrightarrow> reader (text_of j) = Inr (norm j)"
    and norm_ok: "ok j \<Longrightarrow> ok (norm j)"
    and norm_norm: "ok j \<Longrightarrow> norm (norm j) = norm j"
begin

lemma trip: "ok j \<Longrightarrow> \<exists>s. writer j = Inr s \<and> reader s = Inr (norm j)"
  by (simp add: writer_ok reader_text)

text \<open>A value that has been read is written and read without further change.\<close>

lemma second_trip: "ok j \<Longrightarrow> \<exists>s. writer (norm j) = Inr s \<and> reader s = Inr (norm j)"
  using trip [OF norm_ok] by (simp add: norm_norm)

end

lemma map_ok_norm: "map_ok (map (\<lambda>kv. (fst kv, f (snd kv))) m) = map_ok m"
  by (simp add: map_ok_def comp_def)

lemma printable_norm: "printable j \<Longrightarrow> printable (json_norm j)"
  by (induction j rule: json_norm.induct) (auto simp: list_all_iff map_ok_norm)

lemma json_norm_idem: "json_norm (json_norm j) = json_norm j"
  by (induction j rule: json_norm.induct) auto

interpretation library: json_codec json_text "\<lambda>s. json_parse s False" json_print json_norm printable
  by unfold_locales (simp_all add: printable_text json_parse_print printable_norm json_norm_idem)

section \<open>Properties of parsing and printing\<close>

text \<open>C4. What \<open>operator<<\<close> writes for a value with strings in UTF-8 and without binary or discarded parts is JSON that
  \<open>basic_json::parse\<close> accepts, and parsing it gives the value back: objects with their members,
  arrays in order, strings byte for byte, finite floating point numbers with all their 64 bits, negative integers exactly;
  an integer that is not negative comes back with the unsigned type, and a number that is not finite comes back as
  \<open>null\<close>.  A value that has been read in this way is written and read again without any change.\<close>
theorem json_text_roundtrip:
  assumes "printable j"
  shows "(\<exists>s. json_text j = Inr s \<and> json_parse s False = Inr (json_norm j)) \<and>
    (\<exists>s. json_text (json_norm j) = Inr s \<and> json_parse s False = Inr (json_norm j))"
  using library.trip [OF assms] library.second_trip [OF assms] by blast

theorem json_text_roundtrip_witness:
  "\<exists>s. json_text (JObject [(''a'', JArray [JInteger (- 3), JNull]), (''b'', JString [CHR 0x0A, CHR 0x22]), (''c'', JFloat 0x3FB999999999999A)]) = Inr s \<and>
     json_parse s False =
       Inr (JObject [(''a'', JArray [JInteger (- 3), JNull]), (''b'', JString [CHR 0x0A, CHR 0x22]), (''c'', JFloat 0x3FB999999999999A)])"
proof -
  have "printable (JObject [(''a'', JArray [JInteger (- 3), JNull]), (''b'', JString [CHR 0x0A, CHR 0x22]), (''c'', JFloat 0x3FB999999999999A)])"
    by code_simp
  moreover have "(- 3 :: u64) <s 0" "isfinite 0x3FB999999999999A" by code_simp+
  ultimately show ?thesis
    using json_text_roundtrip [of "JObject [(''a'', JArray [JInteger (- 3), JNull]), (''b'', JString [CHR 0x0A, CHR 0x22]), (''c'', JFloat 0x3FB999999999999A)]"]
    by simp
qed

text \<open>C22. Strings that are not well-formed UTF-8 are the only ones that cannot be written.  For a value
  without binary parts \<open>operator<<\<close> either writes the compact text of the value, or,
  when some string or key in it is not UTF-8, ends the process with error 316; in both cases it
  stays inside its buffers of 64 and 512 characters, however long the strings are.\<close>
theorem json_text_utf8:
  assumes "binary_free j"
  shows "json_text j = (if texts_ok j then Inr (json_print j) else Inl (Type_error 316))"
  using assms by (rule json_text_print)

theorem json_text_utf8_witness:
  "json_text (JString [CHR 0xFF]) = Inl (Type_error 316) \<and> json_text (JArray [JUnsigned 7]) = Inr ''[7]''"
proof -
  have "\<not> texts_ok (JString [CHR 0xFF])" "json_print (JArray [JUnsigned 7]) = ''[7]''" by code_simp+
  then show ?thesis using json_text_utf8 [of "JString [CHR 0xFF]"] json_text_utf8 [of "JArray [JUnsigned 7]"] by simp
qed



text \<open>C23. \<open>serializer::dump_integer\<close> writes the decimal numeral of every 64-bit integer, with a minus sign
  for the negative ones, \<open>INT64_MIN\<close> included, inside its 64-character buffer.\<close>
theorem dump_integer_decimal:
  assumes "ser_ok ser"
  shows "(\<exists>ser'. dump_signed x ser = Inr ser' \<and> ser_ok ser' \<and>
        so ser' = so ser @ (if sint x < 0 then CHR ''-'' # decimal (nat (- sint x)) else decimal (nat (sint x)))) \<and>
    (\<exists>ser'. dump_unsigned y ser = Inr ser' \<and> ser_ok ser' \<and> so ser' = so ser @ decimal (unat y))"
  using writes_signed [OF assms, of x] writes_unsigned [OF assms, of y] unat_sint [of x]
  by (auto simp: writes_def integer_text_def word_sless_alt)

theorem dump_integer_decimal_witness:
  "\<exists>ser'. dump_signed (- 25) (serializer_new CHR '' '' EH_strict) = Inr ser' \<and> so ser' = ''-25''"
proof -
  have "ser_ok (serializer_new CHR '' '' EH_strict)" "so (serializer_new CHR '' '' EH_strict) = []"
    by (simp_all add: ser_ok_def serializer_new_def)
  moreover have "sint (- 25 :: u64) = - 25" "decimal 25 = ''25''"
    by code_simp+
  ultimately show ?thesis
    using dump_integer_decimal [of "serializer_new CHR '' '' EH_strict" "- 25" 0] by auto
qed

end
