(* ===== verification/Snowflake.thy ===== *)
theory Snowflake
  imports Base64 Json_Print
begin

text \<open>
  The identifiers of \<^verbatim>\<open>src/src/common/snowflake.h\<close> and \<^verbatim>\<open>src/src/common/snowflake.cpp\<close>: two 64-bit
  words, how they are drawn, and how they are written to and read from JSON.  Objects are stored
  little-endian (x86-64): byte \<open>i\<close> of a \<open>uint64_t\<close> holds its bits \<open>8 i\<close> to \<open>8 i + 7\<close>.  A value of a type
  that cannot be an identifier is written to the log, which may end the process (\<open>json_text\<close>).
\<close>

named_theorems snowflake_simps "identifiers and their bytes"

record snowflake =
  m_most_sig :: u64
  m_least_sig :: u64

section \<open>The random source\<close>

text \<open>
  \<open>std::mt19937_64\<close> as the C++ standard fixes it, with libstdc++'s lazy regeneration of the state.
\<close>

record mt19937_64 =
  mt_x :: "u64 list"
  mt_p :: nat

fun mt_seed_from :: "nat \<Rightarrow> nat \<Rightarrow> u64 \<Rightarrow> u64 list" where
  "mt_seed_from 0 i prev = []"
| "mt_seed_from (Suc n) i prev =
     (let x = 6364136223846793005 * (prev XOR drop_bit 62 prev) + of_nat i
      in x # mt_seed_from n (i + 1) x)"

definition mt_seed :: "u64 \<Rightarrow> mt19937_64" where
  "mt_seed s = \<lparr>mt_x = s # mt_seed_from 311 1 s, mt_p = 312\<rparr>"

definition mt_twist :: "nat \<Rightarrow> u64 list \<Rightarrow> u64 list" where
  "mt_twist k x =
     (let y = (x ! k AND 0xFFFFFFFF80000000) OR (x ! ((k + 1) mod 312) AND 0x7FFFFFFF)
      in x[k := x ! ((k + 156) mod 312) XOR drop_bit 1 y XOR
               (if bit y 0 then 0xb5026f5aa96619e9 else 0)])"

definition mt_gen_rand :: "mt19937_64 \<Rightarrow> mt19937_64" where
  "mt_gen_rand g = \<lparr>mt_x = fold mt_twist [0..<312] (mt_x g), mt_p = 0\<rparr>"

definition mt_temper :: "u64 \<Rightarrow> u64" where
  "mt_temper z0 =
     (let z1 = z0 XOR (drop_bit 29 z0 AND 0x5555555555555555);
          z2 = z1 XOR (push_bit 17 z1 AND 0x71d67fffeda60000);
          z3 = z2 XOR (push_bit 37 z2 AND 0xfff7eee000000000)
      in z3 XOR drop_bit 43 z3)"

definition mt_next :: "mt19937_64 \<Rightarrow> u64 \<times> mt19937_64" where
  "mt_next g =
     (let g = (if 312 \<le> mt_p g then mt_gen_rand g else g)
      in (mt_temper (mt_x g ! mt_p g), g\<lparr>mt_p := mt_p g + 1\<rparr>))"

text \<open>
  \<open>std::uniform_int_distribution<uint64_t>\<close> over its default range, all of \<open>uint64_t\<close>, which is
  the range of the engine: one draw, returned as it is.
\<close>

definition uniform_u64 :: "mt19937_64 \<Rightarrow> u64 \<times> mt19937_64" where
  "uniform_u64 g = mt_next g"

section \<open>Construction\<close>

definition invalid_snowflake :: snowflake where
  "invalid_snowflake = \<lparr>m_most_sig = 0, m_least_sig = 0\<rparr>"

definition snowflake_default :: snowflake where
  "snowflake_default = invalid_snowflake"

definition is_valid :: "snowflake \<Rightarrow> bool" where
  "is_valid s \<longleftrightarrow> m_most_sig s \<noteq> 0 \<or> m_least_sig s \<noteq> 0"

text \<open>The argument \<open>draw\<close> is the \<open>unsigned int\<close> that \<open>std::random_device()()\<close> returns.\<close>

definition generate :: "u32 \<Rightarrow> snowflake" where
  "generate draw =
     (let out = snowflake_default;
          gen = mt_seed (ucast draw);
          (a, gen) = uniform_u64 gen;
          out = out\<lparr>m_most_sig := a\<rparr>;
          (b, gen) = uniform_u64 gen
      in out\<lparr>m_least_sig := b\<rparr>)"

definition generate_64 :: "u32 \<Rightarrow> snowflake" where
  "generate_64 draw =
     (let out = snowflake_default;
          gen = mt_seed (ucast draw);
          (a, gen) = uniform_u64 gen
      in out\<lparr>m_most_sig := a\<rparr>)"

section \<open>Bytes of an identifier\<close>

definition get_byte :: "u64 \<Rightarrow> nat \<Rightarrow> byte" where
  "get_byte w i = ucast (drop_bit (8 * i) w)"

definition set_byte :: "u64 \<Rightarrow> nat \<Rightarrow> byte \<Rightarrow> u64" where
  "set_byte w i b = (w AND NOT (push_bit (8 * i) 0xFF)) OR push_bit (8 * i) (ucast b)"

text \<open>
  \<open>*bytes[i]\<close> of \<open>as_json\<close> and \<open>*bytes[i] = b\<close> of \<open>from_json_string\<close>; the arrays of pointers have
  sixteen entries.
\<close>

definition read_field_byte :: "snowflake \<Rightarrow> nat \<Rightarrow> failure + byte" where
  "read_field_byte s i =
     (if i < 8 then Inr (get_byte (m_most_sig s) i)
      else if i < 16 then Inr (get_byte (m_least_sig s) (i - 8))
      else Inl Undefined_behaviour)"

definition write_field_byte :: "snowflake \<Rightarrow> nat \<Rightarrow> byte \<Rightarrow> failure + snowflake" where
  "write_field_byte s i b =
     (if i < 8 then Inr (s\<lparr>m_most_sig := set_byte (m_most_sig s) i b\<rparr>)
      else if i < 16 then Inr (s\<lparr>m_least_sig := set_byte (m_least_sig s) (i - 8) b\<rparr>)
      else Inl Undefined_behaviour)"

text \<open>The two copying loops, over the indices still to be visited.\<close>

fun store_bytes :: "string \<Rightarrow> nat list \<Rightarrow> snowflake \<Rightarrow> failure + snowflake" where
  "store_bytes str [] out = Inr out"
| "store_bytes str (i # is) out =
     ebind (buf_get str i)
       (\<lambda>c. ebind (write_field_byte out i (byte_of c)) (store_bytes str is))"

fun load_bytes :: "snowflake \<Rightarrow> nat list \<Rightarrow> string \<Rightarrow> failure + string" where
  "load_bytes s [] out = Inr out"
| "load_bytes s (i # is) out =
     ebind (read_field_byte s i)
       (\<lambda>b. ebind (buf_put out i (char_of_byte b)) (load_bytes s is))"

section \<open>JSON\<close>

definition snowflake_as_json :: "snowflake \<Rightarrow> failure + json" where
  "snowflake_as_json s =
     (if m_most_sig s \<noteq> 0 \<and> m_least_sig s = 0 then Inr (JUnsigned (m_most_sig s))
      else
        ebind (load_bytes s [0..<16] (replicate 16 (CHR 0x00)))
          (\<lambda>out. ebind (encode_base64url out)
            (\<lambda>r. Inr (JString (case r of Some t \<Rightarrow> t | None \<Rightarrow> '''')))))"

definition from_json_number :: "u64 \<Rightarrow> snowflake option" where
  "from_json_number num = Some \<lparr>m_most_sig = num, m_least_sig = 0\<rparr>"

definition from_json_string :: "string \<Rightarrow> failure + snowflake option" where
  "from_json_string str =
     ebind (decode_base64 str)
       (\<lambda>r. case r of
          None \<Rightarrow> Inr None
        | Some str \<Rightarrow>
            if length str = 16 then
              ebind (store_bytes str [0..<16] snowflake_default) (\<lambda>out. Inr (Some out))
            else
              ebind (decode_base64 str)
                (\<lambda>r. case r of
                   None \<Rightarrow> Inr None
                 | Some str64 \<Rightarrow>
                     if length str64 = 16 then
                       ebind (store_bytes str64 [0..<16] snowflake_default) (\<lambda>out. Inr (Some out))
                     else Inr None))"

text \<open>
  The loop of \<open>from_json_array\<close> over the indices still to be visited.  The early exit and the end
  of the function both return \<open>std::nullopt\<close>.  \<open>fields\<close> has two entries.
\<close>

definition write_field :: "snowflake \<Rightarrow> nat \<Rightarrow> u64 \<Rightarrow> failure + snowflake" where
  "write_field s i w =
     (if i = 0 then Inr (s\<lparr>m_most_sig := w\<rparr>)
      else if i = 1 then Inr (s\<lparr>m_least_sig := w\<rparr>)
      else Inl Undefined_behaviour)"

fun from_json_array_loop :: "json list \<Rightarrow> nat list \<Rightarrow> snowflake \<Rightarrow> failure + snowflake option" where
  "from_json_array_loop array [] out = Inr None"
| "from_json_array_loop array (i # is) out =
     ebind (buf_get array i)
       (\<lambda>x. if is_number x then Inr None
            else ebind (get_uint64 x)
                   (\<lambda>w. ebind (write_field out i w) (from_json_array_loop array is)))"

definition from_json_array :: "json list \<Rightarrow> failure + snowflake option" where
  "from_json_array array =
     (if length array \<noteq> 16 div 8 then Inr None
      else from_json_array_loop array [0..<8] snowflake_default)"

definition snowflake_from_json :: "json \<Rightarrow> failure + snowflake option" where
  "snowflake_from_json j =
     (case json_type j of
        T_array \<Rightarrow> ebind (get_array j) from_json_array
      | T_string \<Rightarrow> ebind (get_string j) from_json_string
      | T_number_unsigned \<Rightarrow> ebind (get_int64 j) (\<lambda>w. Inr (from_json_number w))
      | T_number_integer \<Rightarrow> ebind (get_int64 j) (\<lambda>w. Inr (from_json_number w))
      | _ \<Rightarrow> ebind (json_text j) (\<lambda>_. Inr None))"

section \<open>Lemmas\<close>

lemma load_bytes_prefix:
  "k \<le> length bs \<Longrightarrow> length out = length bs \<Longrightarrow>
   (\<forall>i<length bs. read_field_byte s i = Inr (bs ! i)) \<Longrightarrow>
   load_bytes s [k..<length bs] out = Inr (take k out @ string_of_bytes (drop k bs))"
proof (induction "length bs - k" arbitrary: k out)
  case (Suc d)
  then have k: "k < length bs" by simp
  have "load_bytes s [Suc k..<length bs] (out[k := char_of_byte (bs ! k)]) =
      Inr (take (Suc k) (out[k := char_of_byte (bs ! k)]) @ string_of_bytes (drop (Suc k) bs))"
    using Suc k by (intro Suc.hyps(1)) auto
  then show ?case
    using Suc.prems k
    by (simp add: upt_rec [of k] buf_put_ok take_Suc_conv_app_nth Cons_nth_drop_Suc [symmetric])
qed simp

definition snowflake_bytes :: "snowflake \<Rightarrow> byte list" where
  "snowflake_bytes s = map (get_byte (m_most_sig s)) [0..<8] @ map (get_byte (m_least_sig s)) [0..<8]"

lemma length_snowflake_bytes [simp]: "length (snowflake_bytes s) = 16"
  by (simp add: snowflake_bytes_def)

lemma read_field_byte_nth: "i < 16 \<Longrightarrow> read_field_byte s i = Inr (snowflake_bytes s ! i)"
  by (simp add: read_field_byte_def snowflake_bytes_def nth_append)

lemma load_bytes_all:
  "load_bytes s [0..<16] (replicate 16 (CHR 0x00)) = Inr (string_of_bytes (snowflake_bytes s))"
  using load_bytes_prefix [of 0 "snowflake_bytes s" "replicate 16 (CHR 0x00)" s]
  by (simp add: read_field_byte_nth)

lemma snowflake_as_json_cases [snowflake_simps]:
  "snowflake_as_json s =
   Inr (if m_most_sig s \<noteq> 0 \<and> m_least_sig s = 0 then JUnsigned (m_most_sig s)
        else JString (map to_base64url_char (sextets (snowflake_bytes s))))"
  by (simp add: snowflake_as_json_def load_bytes_all encode_base64url_sextets)

lemma u64_bytes_eq: "(\<And>i. i < 8 \<Longrightarrow> get_byte v i = get_byte w i) \<Longrightarrow> v = w"
proof (rule bit_word_eqI)
  fix n assume bytes: "\<And>i. i < 8 \<Longrightarrow> get_byte v i = get_byte w i" and n: "n < LENGTH(64)"
  have "get_byte v (n div 8) = get_byte w (n div 8)" using n by (intro bytes) simp
  then have "bit (get_byte v (n div 8)) (n mod 8) = bit (get_byte w (n div 8)) (n mod 8)" by simp
  then show "bit v n = bit w n"
    using n by (simp add: get_byte_def bit_simps)
qed

lemma get_set_byte:
  assumes "i < 8" "j < 8"
  shows "get_byte (set_byte w i b) j = (if i = j then b else get_byte w j)"
proof (rule bit_word_eqI)
  fix n assume n: "n < LENGTH(8)"
  have ff: "bit (0xFF :: int) m = (m < 8)" for m
  proof -
    have "(0xFF :: int) = mask 8" by (simp add: mask_eq_exp_minus_1)
    then show ?thesis by (simp only: bit_mask_iff) auto
  qed
  show "bit (get_byte (set_byte w i b) j) n = bit (if i = j then b else get_byte w j) n"
    using assms n
    by (cases i j rule: linorder_cases) (auto simp: get_byte_def set_byte_def bit_simps ff bit_byte_beyond)
qed

text \<open>Writing all the bytes of an identifier gives that identifier.\<close>

lemma write_field_byte_bytes:
  "i < 16 \<Longrightarrow> \<exists>out'. write_field_byte out i b = Inr out' \<and>
     snowflake_bytes out' = (snowflake_bytes out)[i := b]"
proof -
  assume i: "i < 16"
  consider (most) "i < 8" | (least) j where "j < 8" "i = 8 + j"
    using i by (metis add_diff_inverse_nat less_diff_conv2 not_less numeral_Bit0 add.commute)
  then show ?thesis
  proof cases
    case most
    then show ?thesis
      by (intro exI conjI) (simp add: write_field_byte_def,
          auto intro!: nth_equalityI simp: snowflake_bytes_def nth_append nth_list_update get_set_byte)
  next
    case least
    then show ?thesis
      by (intro exI conjI) (simp add: write_field_byte_def,
          auto intro!: nth_equalityI simp: snowflake_bytes_def nth_append nth_list_update get_set_byte)
  qed
qed

lemma store_bytes_prefix:
  "k \<le> 16 \<Longrightarrow> length str = 16 \<Longrightarrow>
   \<exists>out'. store_bytes str [k..<16] out = Inr out' \<and>
     snowflake_bytes out' = take k (snowflake_bytes out) @ drop k (bytes_of str)"
proof (induction "16 - k" arbitrary: k out)
  case (Suc d)
  then have k: "k < 16" by simp
  obtain out1 where out1: "write_field_byte out k (byte_of (str ! k)) = Inr out1"
      "snowflake_bytes out1 = (snowflake_bytes out)[k := byte_of (str ! k)]"
    using write_field_byte_bytes [OF k] by blast
  have "d = 16 - Suc k" "Suc k \<le> 16" using Suc.hyps(2) k by simp_all
  then obtain out' where "store_bytes str [Suc k..<16] out1 = Inr out'"
      "snowflake_bytes out' = take (Suc k) (snowflake_bytes out1) @ drop (Suc k) (bytes_of str)"
    using Suc.hyps(1) [of "Suc k" out1] Suc.prems(2) by blast
  then show ?case
    using k out1 Suc.prems
    by (simp add: upt_rec [of k] buf_get_ok take_Suc_conv_app_nth
        Cons_nth_drop_Suc [symmetric] drop_map)
qed auto

lemma snowflake_bytes_inject:
  assumes "snowflake_bytes s = snowflake_bytes t"
  shows "s = t"
proof -
  have eq: "map (get_byte (m_most_sig s)) [0..<8] = map (get_byte (m_most_sig t)) [0..<8]"
      "map (get_byte (m_least_sig s)) [0..<8] = map (get_byte (m_least_sig t)) [0..<8]"
    using assms by (simp_all add: snowflake_bytes_def)
  have "m_most_sig s = m_most_sig t" "m_least_sig s = m_least_sig t"
    using eq by (auto intro!: u64_bytes_eq simp: map_eq_conv)
  then show ?thesis by simp
qed

lemma store_bytes_snowflake:
  "store_bytes (string_of_bytes (snowflake_bytes s)) [0..<16] out = Inr s"
proof -
  obtain out' where "store_bytes (string_of_bytes (snowflake_bytes s)) [0..<16] out = Inr out'"
      "snowflake_bytes out' = snowflake_bytes s"
    using store_bytes_prefix [of 0 "string_of_bytes (snowflake_bytes s)" out] by auto
  then show ?thesis using snowflake_bytes_inject by blast
qed

lemma from_json_array_cases [snowflake_simps]:
  "from_json_array xs =
   (case xs of [x, y] \<Rightarrow> if is_number x then Inr None else Inl (Type_error 302) | _ \<Rightarrow> Inr None)"
proof -
  have "from_json_array [x, y] = (if is_number x then Inr None else Inl (Type_error 302))" for x y
    by (cases x) (simp_all add: from_json_array_def upt_rec [of 0] buf_get_def get_uint64_def
        is_number_def is_number_integer_def is_number_float_def)
  then show ?thesis
    by (auto simp: from_json_array_def split: list.splits)
qed

text \<open>The texts on which one of the two decodings is undefined.\<close>

definition unreadable_id :: "string \<Rightarrow> bool" where
  "unreadable_id s \<longleftrightarrow> leaves_bits s \<or>
     (case decode_base64 s of Inr (Some t) \<Rightarrow> length t \<noteq> 16 \<and> leaves_bits t | _ \<Rightarrow> False)"

lemma store_bytes_ok: "length str = 16 \<Longrightarrow> store_bytes str [0..<16] out \<noteq> Inl e"
  using store_bytes_prefix [of 0 str out] by auto

lemma from_json_string_undefined: "from_json_string str = Inl e \<longleftrightarrow> e = Undefined_behaviour \<and> unreadable_id str"
  unfolding from_json_string_def unreadable_id_def
  by (auto simp: result_simps decode_base64_undefined store_bytes_ok split: sum.splits option.splits if_splits)

lemma snowflake_from_as_json:
  "\<exists>j. snowflake_as_json s = Inr j \<and> snowflake_from_json j = Inr (Some s)"
  by (cases "m_most_sig s \<noteq> 0 \<and> m_least_sig s = 0")
    (simp_all add: snowflake_simps snowflake_from_json_def get_int64_def get_string_def
      from_json_number_def from_json_string_def decode_base64_decoded from_base64_eq
      url.decoded_sextets store_bytes_snowflake)

lemma snowflake_from_json_Inl:
  assumes "binary_free j"
  shows "snowflake_from_json j = Inl e \<longleftrightarrow>
    (\<exists>x y. j = JArray [x, y] \<and> \<not> is_number x \<and> e = Type_error 302) \<or>
    (\<exists>str. j = JString str \<and> unreadable_id str \<and> e = Undefined_behaviour) \<or>
    (\<exists>m. j = JObject m \<and> \<not> texts_ok j \<and> e = Type_error 316)"
proof (cases j)
  case (JString str)
  then show ?thesis by (auto simp: snowflake_from_json_def get_string_def from_json_string_undefined)
qed (use assms in \<open>auto simp: snowflake_from_json_def get_array_def get_int64_def snowflake_simps json_text_print result_simps
    split: list.splits\<close>)

text \<open>The words of the engine before the first regeneration, and the word that regeneration puts in place of one.\<close>

definition seed_next :: "nat \<Rightarrow> u64 \<Rightarrow> u64" where
  "seed_next i prev = 6364136223846793005 * (prev XOR drop_bit 62 prev) + of_nat i"

primrec seed_word :: "u64 \<Rightarrow> nat \<Rightarrow> u64" where
  "seed_word s 0 = s"
| "seed_word s (Suc i) = seed_next (Suc i) (seed_word s i)"

definition mt_word :: "u64 \<Rightarrow> u64 \<Rightarrow> u64 \<Rightarrow> u64" where
  "mt_word a b m =
     (let y = (a AND 0xFFFFFFFF80000000) OR (b AND 0x7FFFFFFF)
      in m XOR drop_bit 1 y XOR (if bit y 0 then 0xb5026f5aa96619e9 else 0))"

lemma mt_seed_from_words: "mt_seed_from n (Suc i) (seed_word s i) = map (seed_word s) [Suc i..<Suc i + n]"
proof (induction n arbitrary: i)
  case (Suc n)
  have "mt_seed_from (Suc n) (Suc i) (seed_word s i) = seed_word s (Suc i) # mt_seed_from n (Suc (Suc i)) (seed_word s (Suc i))"
    by (simp add: seed_next_def Let_def)
  also have "\<dots> = map (seed_word s) (Suc i # [Suc (Suc i)..<Suc (Suc i) + n])" unfolding Suc by simp
  also have "Suc i # [Suc (Suc i)..<Suc (Suc i) + n] = [Suc i..<Suc i + Suc n]"
    by (subst upt_conv_Cons) simp_all
  finally show ?case .
qed simp

lemma mt_seed_words: "mt_x (mt_seed s) = map (seed_word s) [0..<312]"
proof -
  have "[0..<312] = 0 # [Suc 0..<Suc 0 + 311]" by (simp add: upt_rec [of 0])
  then show ?thesis using mt_seed_from_words [of 311 0 s] by (simp add: mt_seed_def)
qed

lemma mt_twist_nth: "length x = 312 \<Longrightarrow> j < 312 \<Longrightarrow> k < 312 \<Longrightarrow>
  mt_twist k x ! j = (if j = k then mt_word (x ! k) (x ! ((k + 1) mod 312)) (x ! ((k + 156) mod 312)) else x ! j)"
  by (simp add: mt_twist_def mt_word_def Let_def)

lemma length_mt_twist [simp]: "length (mt_twist k x) = length x"
  by (simp add: mt_twist_def Let_def)

lemma mt_fold_other:
  "length x = 312 \<Longrightarrow> j < 312 \<Longrightarrow> \<forall>k\<in>set ks. k < 312 \<and> k \<noteq> j \<Longrightarrow> fold mt_twist ks x ! j = x ! j"
  by (induction ks arbitrary: x) (auto simp: mt_twist_nth)

text \<open>The first two numbers drawn from a fresh engine.\<close>

lemma mt_first_draws:
  assumes "mt_next (mt_seed s) = (a, g)" and "mt_next g = (b, g')"
  shows "a = mt_temper (mt_word (seed_word s 0) (seed_word s 1) (seed_word s 156)) \<and>
    b = mt_temper (mt_word (seed_word s 1) (seed_word s 2) (seed_word s 157))"
proof -
  let ?x = "map (seed_word s) [0..<312]" and ?y = "fold mt_twist [0..<312] (map (seed_word s) [0..<312])"
  have "[0..<312] = 0 # 1 # [2..<312]" by (simp add: upt_conv_Cons numeral_2_eq_2)
  then have y: "?y = fold mt_twist [2..<312] (mt_twist 1 (mt_twist 0 ?x))" by simp
  have "?y ! 0 = mt_word (seed_word s 0) (seed_word s 1) (seed_word s 156)"
    "?y ! 1 = mt_word (seed_word s 1) (seed_word s 2) (seed_word s 157)"
    unfolding y by (simp_all add: mt_fold_other mt_twist_nth numeral_2_eq_2 [symmetric] del: upt.simps seed_word.simps)
  moreover have "a = mt_temper (?y ! 0)" "b = mt_temper (?y ! 1)"
    using assms by (auto simp: mt_next_def mt_gen_rand_def mt_seed_words mt_seed_def [THEN arg_cong, of mt_p] Let_def)
  ultimately show ?thesis by simp
qed

section \<open>Properties\<close>

text \<open>C33. Every identifier is read back from the JSON value that \<open>as_json\<close> writes: the 64-bit
  ones travel as numbers, all others (the invalid one included) as 22 characters of base64url.\<close>

theorem snowflake_json_roundtrip:
  "\<exists>j. snowflake_as_json s = Inr j \<and> snowflake_from_json j = Inr (Some s)"
  by (rule snowflake_from_as_json)

text \<open>C34. Reading an identifier goes wrong on exactly three shapes of value: an array of two elements whose first
  element is not a number ends the process with type error 302; a text whose decoding (or the decoding of what it
  decodes to) leaves a one over is undefined behaviour; and an object with a string that is not UTF-8 ends the process with type error
  316 when it is written to the log.  An array never yields an identifier.\<close>

theorem snowflake_from_json_stops:
  assumes "binary_free j"
  shows "(\<forall>e. snowflake_from_json j = Inl e \<longleftrightarrow>
        (\<exists>x y. j = JArray [x, y] \<and> \<not> is_number x \<and> e = Type_error 302) \<or>
        (\<exists>str. j = JString str \<and> unreadable_id str \<and> e = Undefined_behaviour) \<or>
        (\<exists>m. j = JObject m \<and> \<not> texts_ok j \<and> e = Type_error 316)) \<and>
   (\<forall>xs s. snowflake_from_json (JArray xs) \<noteq> Inr (Some s))"
proof
  show "\<forall>xs s. snowflake_from_json (JArray xs) \<noteq> Inr (Some s)"
    by (auto simp: snowflake_from_json_def get_array_def snowflake_simps split: list.splits if_splits)
qed (simp add: snowflake_from_json_Inl [OF assms])

theorem snowflake_from_json_stops_witness:
  "snowflake_from_json (JArray [JNull, JNull]) = Inl (Type_error 302) \<and>
   snowflake_from_json (JString ''AB'') = Inl Undefined_behaviour \<and>
   snowflake_from_json (JObject [(''a'', JString [CHR 0xFF])]) = Inl (Type_error 316)"
proof (intro conjI)
  have "\<not> is_number JNull" by code_simp
  then show "snowflake_from_json (JArray [JNull, JNull]) = Inl (Type_error 302)"
    using snowflake_from_json_stops [of "JArray [JNull, JNull]"] by simp
  have "unreadable_id ''AB''" by code_simp
  then show "snowflake_from_json (JString ''AB'') = Inl Undefined_behaviour"
    using snowflake_from_json_stops [of "JString ''AB''"] by simp
  have "\<not> texts_ok (JObject [(''a'', JString [CHR 0xFF])])" by code_simp
  then show "snowflake_from_json (JObject [(''a'', JString [CHR 0xFF])]) = Inl (Type_error 316)"
    using snowflake_from_json_stops [of "JObject [(''a'', JString [CHR 0xFF])]"] by simp
qed

text \<open>C35. A number read as an identifier and written again keeps its 64 bits but not its type: a
  negative \<open>msg_id\<close> comes back as the unsigned number with the same bits, and \<open>0\<close> as a string.\<close>

theorem snowflake_number_echo:
  "(\<exists>s. snowflake_from_json (JInteger w) = Inr (Some s) \<and> snowflake_from_json (JUnsigned w) = Inr (Some s) \<and>
        (is_valid s \<longleftrightarrow> w \<noteq> 0) \<and>
        snowflake_as_json s = Inr (if w = 0 then JString (replicate 22 CHR ''A'') else JUnsigned w))"
proof -
  have zero: "map to_base64url_char (sextets (snowflake_bytes \<lparr>m_most_sig = 0, m_least_sig = 0\<rparr>)) =
      replicate 22 CHR ''A''"
    by code_simp
  show ?thesis
    by (simp add: snowflake_from_json_def get_int64_def from_json_number_def snowflake_simps
        is_valid_def zero)
qed

text \<open>C36. The identifiers are the first numbers of \<open>std::mt19937_64\<close>: for every draw of \<open>std::random_device\<close> the fields
  of \<open>generate\<close> are the tempered words of the engine's recurrence over the words seeded from that draw, the
  regeneration of all 312 words notwithstanding; \<open>generate_64\<close> takes the first and leaves the other zero; and
  for the seed 5489 they are the published first two outputs of the engine.\<close>

theorem generate_words:
  "generate draw =
     \<lparr>m_most_sig = mt_temper (mt_word (seed_word (ucast draw) 0) (seed_word (ucast draw) 1) (seed_word (ucast draw) 156)),
      m_least_sig = mt_temper (mt_word (seed_word (ucast draw) 1) (seed_word (ucast draw) 2) (seed_word (ucast draw) 157))\<rparr> \<and>
   generate_64 draw = (generate draw)\<lparr>m_least_sig := 0\<rparr> \<and>
   generate 5489 = \<lparr>m_most_sig = 14514284786278117030, m_least_sig = 4620546740167642908\<rparr>"
proof -
  have g: "generate draw =
      \<lparr>m_most_sig = mt_temper (mt_word (seed_word (ucast draw) 0) (seed_word (ucast draw) 1) (seed_word (ucast draw) 156)),
       m_least_sig = mt_temper (mt_word (seed_word (ucast draw) 1) (seed_word (ucast draw) 2) (seed_word (ucast draw) 157))\<rparr> \<and>
     generate_64 draw = (generate draw)\<lparr>m_least_sig := 0\<rparr>" for draw
  proof -
    obtain a g b g' where d: "mt_next (mt_seed (ucast draw)) = (a, g)" "mt_next g = (b, g')" by (metis surj_pair)
    then show ?thesis
      using mt_first_draws [OF d]
      by (simp add: generate_def generate_64_def uniform_u64_def snowflake_default_def invalid_snowflake_def)
  qed
  moreover have "mt_temper (mt_word (seed_word 5489 0) (seed_word 5489 1) (seed_word 5489 156)) = 14514284786278117030"
    "mt_temper (mt_word (seed_word 5489 1) (seed_word 5489 2) (seed_word 5489 157)) = 4620546740167642908"
    by code_simp+
  ultimately show ?thesis using g [of 5489] by simp
qed

end
