(* ===== verification/Message.thy ===== *)
theory Message
  imports Snowflake
begin

text \<open>
  The messages of \<^verbatim>\<open>src/src/common/message.h\<close> and \<^verbatim>\<open>src/src/common/message.cpp\<close>: message types and
  their names, reading a message from a JSON value, the constructors, replies and writing a message
  as JSON.  A function that draws a random identifier takes the 32-bit draw as an argument.
\<close>

named_theorems message_simps "fields of messages"

datatype MessageType =
    INVALID | INIT_REQ | INIT_RES | ECHO_REQ | ECHO_RES | GENERATE_REQ | GENERATE_RES

record message =
  msg_type :: MessageType
  msg_id :: snowflake
  reply_id :: snowflake
  msg_from :: string
  msg_to :: string
  body :: json

section \<open>Message types\<close>

definition conversion_map :: "(string \<times> MessageType) list" where
  "conversion_map =
     [(''init'', INIT_REQ), (''init_ok'', INIT_RES), (''echo'', ECHO_REQ), (''echo_ok'', ECHO_RES),
      (''generate'', GENERATE_REQ), (''generate_ok'', GENERATE_RES)]"

definition message_type_from_string :: "string \<Rightarrow> MessageType" where
  "message_type_from_string raw =
     (case map_of conversion_map raw of None \<Rightarrow> INVALID | Some t \<Rightarrow> t)"

fun message_type_to_string :: "MessageType \<Rightarrow> string" where
  "message_type_to_string INVALID = ''''"
| "message_type_to_string INIT_REQ = ''init''"
| "message_type_to_string INIT_RES = ''init_ok''"
| "message_type_to_string ECHO_REQ = ''echo''"
| "message_type_to_string ECHO_RES = ''echo_ok''"
| "message_type_to_string GENERATE_REQ = ''generate''"
| "message_type_to_string GENERATE_RES = ''generate_ok''"

section \<open>Constructors\<close>

definition message_default :: message where
  "message_default =
     \<lparr>msg_type = INVALID, msg_id = snowflake_default, reply_id = snowflake_default,
      msg_from = '''', msg_to = '''', body = JNull\<rparr>"

definition message_new :: "MessageType \<Rightarrow> snowflake \<Rightarrow> snowflake \<Rightarrow> string \<Rightarrow> string \<Rightarrow> failure + message"
where
  "message_new type sid rid from to =
     ebind (if type \<noteq> INVALID then json_set JNull ''type'' (JString (message_type_to_string type))
            else Inr JNull)
       (\<lambda>b. ebind (if is_valid sid
                   then ebind (snowflake_as_json sid) (\<lambda>v. json_set b ''msg_id'' v) else Inr b)
         (\<lambda>b. ebind (if is_valid rid
                     then ebind (snowflake_as_json rid) (\<lambda>v. json_set b ''in_reply_to'' v) else Inr b)
           (\<lambda>b. Inr \<lparr>msg_type = type, msg_id = sid, reply_id = rid, msg_from = from, msg_to = to,
                      body = b\<rparr>)))"

definition message_new_request :: "MessageType \<Rightarrow> snowflake \<Rightarrow> string \<Rightarrow> string \<Rightarrow> failure + message"
where
  "message_new_request type sid from to = message_new type sid invalid_snowflake from to"

section \<open>Reading a message\<close>

text \<open>The test \<open>!j.contains(key) || !check(j[key])\<close> with its evaluation order.\<close>

definition field_missing :: "json \<Rightarrow> string \<Rightarrow> (json \<Rightarrow> bool) \<Rightarrow> failure + bool" where
  "field_missing j key check =
     (if \<not> contains j key then Inr True else ebind (json_index j key) (\<lambda>v. Inr (\<not> check v)))"

text \<open>The same test written with \<open>at\<close>, on \<open>j.at("body")\<close>.\<close>

definition body_type_missing :: "json \<Rightarrow> failure + bool" where
  "body_type_missing j =
     ebind (json_at j ''body'')
       (\<lambda>b. if \<not> contains b ''type'' then Inr True
            else ebind (json_at b ''type'') (\<lambda>t. Inr (\<not> is_string t)))"

definition required_fields_present :: "json \<Rightarrow> failure + bool" where
  "required_fields_present j =
     ebind (field_missing j ''src'' is_string)
       (\<lambda>no_src. ebind (field_missing j ''dest'' is_string)
         (\<lambda>no_dest. ebind (field_missing j ''body'' is_object)
           (\<lambda>no_body. ebind (if no_body then Inr True else body_type_missing j)
             (\<lambda>no_type. Inr (\<not> no_src \<and> \<not> no_dest \<and> \<not> no_type)))))"

definition value_or :: "'a option \<Rightarrow> 'a \<Rightarrow> 'a" where
  "value_or r d = (case r of Some x \<Rightarrow> x | None \<Rightarrow> d)"

definition id_field :: "json \<Rightarrow> string \<Rightarrow> failure + snowflake" where
  "id_field b key =
     (if contains b key
      then ebind (json_index b key)
             (\<lambda>v. ebind (snowflake_from_json v) (\<lambda>r. Inr (value_or r invalid_snowflake)))
      else Inr invalid_snowflake)"

definition message_from_json :: "json \<Rightarrow> failure + message option" where
  "message_from_json j =
     ebind (required_fields_present j)
       (\<lambda>present. if \<not> present then Inr None
         else
           ebind (json_index j ''body'')
            (\<lambda>b. ebind (json_index b ''type'')
             (\<lambda>t. ebind (get_string_view t)
              (\<lambda>ts. let parsed_type = message_type_from_string ts in
               ebind (id_field b ''msg_id'')
                (\<lambda>mid. ebind (id_field b ''is_reply_to'')
                 (\<lambda>rid. if parsed_type = INVALID then Inr None
                   else
                     ebind (json_index j ''src'')
                      (\<lambda>src. ebind (get_string_view src)
                       (\<lambda>from. ebind (json_index j ''dest'')
                        (\<lambda>dest. ebind (get_string_view dest)
                         (\<lambda>to. ebind (message_new parsed_type mid rid from to)
                          (\<lambda>msg. Inr (Some (msg\<lparr>body := b\<rparr>)))))))))))))"

section \<open>Replies and output\<close>

fun response_type :: "MessageType \<Rightarrow> MessageType option" where
  "response_type INIT_REQ = Some INIT_RES"
| "response_type ECHO_REQ = Some ECHO_RES"
| "response_type GENERATE_REQ = Some GENERATE_RES"
| "response_type _ = None"

definition create_response :: "u32 \<Rightarrow> message \<Rightarrow> failure + message" where
  "create_response draw msg =
     (case response_type (msg_type msg) of
        None \<Rightarrow> Inr message_default
      | Some t \<Rightarrow> message_new t (generate_64 draw) (msg_id msg) (msg_to msg) (msg_from msg))"

definition message_as_json :: "message \<Rightarrow> json" where
  "message_as_json msg =
     json_of_init_list
       [json_of_init_list [JString ''src'', JString (msg_from msg)],
        json_of_init_list [JString ''dest'', JString (msg_to msg)],
        json_of_init_list [JString ''body'', body msg]]"

section \<open>Lemmas\<close>

lemma contains_Inr: "contains j k \<Longrightarrow> \<exists>v. json_index j k = Inr v \<and> json_at j k = Inr v"
  by (auto simp: contains_def json_index_def json_at_def split: json.splits option.splits)

lemma message_type_to_from [message_simps]:
  "message_type_from_string (message_type_to_string t) = t"
  by (cases t) (simp_all add: message_type_from_string_def conversion_map_def)

lemma message_type_from_eq:
  "t \<noteq> INVALID \<Longrightarrow> message_type_from_string s = t \<longleftrightarrow> s = message_type_to_string t"
  by (cases t) (auto simp: message_type_from_string_def conversion_map_def)

text \<open>The body that the constructor builds.\<close>

definition new_body :: "MessageType \<Rightarrow> snowflake \<Rightarrow> snowflake \<Rightarrow> json" where
  "new_body type sid rid =
     (let m0 = (if type \<noteq> INVALID then [(''type'', JString (message_type_to_string type))] else []);
          m1 = (if is_valid sid then map_put m0 ''msg_id'' (projr (snowflake_as_json sid)) else m0);
          m2 = (if is_valid rid then map_put m1 ''in_reply_to'' (projr (snowflake_as_json rid)) else m1)
      in if m2 = [] then JNull else JObject m2)"

lemma map_put_not_Nil [simp]: "map_put m k v \<noteq> []"
  by (induction m k v rule: map_put.induct) auto

lemma json_set_put: "json_set (JObject m) k v = Inr (JObject (map_put m k v))"
  by (simp add: json_set_object map_emplace_def map_put_put split: option.split)

lemma message_new_total:
  "message_new type sid rid from to =
   Inr \<lparr>msg_type = type, msg_id = sid, reply_id = rid, msg_from = from, msg_to = to,
        body = new_body type sid rid\<rparr>"
  by (auto simp: message_new_def new_body_def Let_def snowflake_simps json_set_put json_set_object(2))

lemma message_as_json_object:
  "message_as_json msg =
   JObject [(''body'', body msg), (''dest'', JString (msg_to msg)), (''src'', JString (msg_from msg))]"
  by (simp add: message_as_json_def json_of_init_list_def init_pair_def map_emplace_def)

text \<open>The required fields, as a condition on the value.\<close>

definition message_shape :: "json \<Rightarrow> string \<Rightarrow> string \<Rightarrow> json \<Rightarrow> string \<Rightarrow> bool" where
  "message_shape j from to b t \<longleftrightarrow>
     json_index j ''src'' = Inr (JString from) \<and> json_index j ''dest'' = Inr (JString to) \<and>
     json_index j ''body'' = Inr b \<and> is_object b \<and> json_index b ''type'' = Inr (JString t)"

lemma json_at_index: "json_index j k = Inr v \<Longrightarrow> json_at j k = Inr v"
  by (auto simp: json_index_def json_at_def split: json.splits option.splits)

lemma is_string_iff: "is_string v \<longleftrightarrow> (\<exists>s. v = JString s)"
  by (cases v) (auto simp: is_string_def)

lemma field_missing_cases:
  "field_missing j k check = Inr (\<not> (\<exists>v. json_index j k = Inr v \<and> check v))"
  by (auto simp: field_missing_def contains_index)

lemma required_fields_present_iff:
  "required_fields_present j = Inr (\<exists>from to b t. message_shape j from to b t)"
proof (cases "\<exists>b. json_index j ''body'' = Inr b \<and> is_object b")
  case True
  then obtain b where b: "json_index j ''body'' = Inr b" "is_object b" by blast
  have "body_type_missing j = Inr (\<not> (\<exists>v. json_index b ''type'' = Inr v \<and> is_string v))"
    by (auto simp: body_type_missing_def json_at_index b contains_index)
  with b show ?thesis
    by (auto simp: required_fields_present_def field_missing_cases message_shape_def is_string_iff)
next
  case False
  then show ?thesis
    by (auto simp: required_fields_present_def field_missing_cases message_shape_def)
qed

lemma message_from_json_shape:
  assumes "message_shape j from to b t"
  shows "message_from_json j =
    ebind (id_field b ''msg_id'') (\<lambda>mid. ebind (id_field b ''is_reply_to'')
      (\<lambda>rid. Inr (if message_type_from_string t = INVALID then None
        else Some \<lparr>msg_type = message_type_from_string t, msg_id = mid, reply_id = rid,
                   msg_from = from, msg_to = to, body = b\<rparr>)))"
proof -
  have "required_fields_present j = Inr True" using assms required_fields_present_iff by auto
  moreover have "json_index j ''src'' = Inr (JString from)" "json_index j ''dest'' = Inr (JString to)"
      "json_index j ''body'' = Inr b" "json_index b ''type'' = Inr (JString t)"
    using assms by (simp_all add: message_shape_def)
  ultimately show ?thesis
    by (cases "message_type_from_string t = INVALID")
      (simp_all add: message_from_json_def Let_def get_string_view_def message_new_total)
qed

lemma message_from_json_no_shape:
  "\<not> (\<exists>from to b t. message_shape j from to b t) \<Longrightarrow> message_from_json j = Inr None"
  using required_fields_present_iff [of j] by (simp add: message_from_json_def)

text \<open>What the body of a constructed message holds under each key.\<close>

lemma new_body_index:
  assumes "type \<noteq> INVALID"
  shows "is_object (new_body type sid rid)"
    and "json_index (new_body type sid rid) ''type'' = Inr (JString (message_type_to_string type))"
    and "json_index (new_body type sid rid) ''msg_id'' =
      (if is_valid sid then snowflake_as_json sid else Inl Assertion_failed)"
    and "json_index (new_body type sid rid) ''in_reply_to'' =
      (if is_valid rid then snowflake_as_json rid else Inl Assertion_failed)"
    and "\<not> contains (new_body type sid rid) ''is_reply_to''"
  using assms
  by (simp_all add: new_body_def Let_def is_object_def json_index_def contains_def map_find_put
      snowflake_simps)

lemma id_field_as_json:
  "json_index b k = (if is_valid s then snowflake_as_json s else Inl Assertion_failed) \<Longrightarrow>
   snowflake_as_json s = Inr v \<Longrightarrow> snowflake_from_json v = Inr (Some s) \<Longrightarrow>
   id_field b k = Inr s"
  by (cases "is_valid s")
    (auto simp: id_field_def contains_index value_or_def is_valid_def invalid_snowflake_def)

text \<open>
  The identifier fields that cannot be read: an array of two elements that does not start with a number, a text
  whose decoding is undefined, and an object that cannot be written to the log.
\<close>

definition poison_id :: "json \<Rightarrow> string \<Rightarrow> bool" where
  "poison_id b k \<longleftrightarrow> (\<exists>x y. json_index b k = Inr (JArray [x, y]) \<and> \<not> is_number x)"

definition undecodable_id :: "json \<Rightarrow> string \<Rightarrow> bool" where
  "undecodable_id b k \<longleftrightarrow> (\<exists>str. json_index b k = Inr (JString str) \<and> unreadable_id str)"

definition unloggable_id :: "json \<Rightarrow> string \<Rightarrow> bool" where
  "unloggable_id b k \<longleftrightarrow> (\<exists>m. json_index b k = Inr (JObject m) \<and> \<not> texts_ok (JObject m))"

definition id_failure :: "json \<Rightarrow> string \<Rightarrow> failure \<Rightarrow> bool" where
  "id_failure b k e \<longleftrightarrow>
     poison_id b k \<and> e = Type_error 302 \<or> undecodable_id b k \<and> e = Undefined_behaviour \<or> unloggable_id b k \<and> e = Type_error 316"

lemma binary_free_index: "json_index j k = Inr v \<Longrightarrow> binary_free j \<Longrightarrow> binary_free v"
  using map_find_list_all [of _ k v "\<lambda>kv. binary_free (snd kv)"]
  by (auto simp: json_index_def split: json.splits option.splits)

lemma id_field_stops: "binary_free b \<Longrightarrow> id_field b k = Inl e \<longleftrightarrow> id_failure b k e"
  using binary_free_index [of b k]
  by (auto simp: id_field_def id_failure_def poison_id_def undecodable_id_def unloggable_id_def contains_index result_simps
      snowflake_from_json_Inl)

lemma message_shape_unique:
  "message_shape j f t b ty \<Longrightarrow> message_shape j f' t' b' ty' \<Longrightarrow> f' = f \<and> t' = t \<and> b' = b \<and> ty' = ty"
  by (auto simp: message_shape_def)

lemma message_from_json_stops_iff:
  assumes "binary_free j"
  shows "message_from_json j = Inl e \<longleftrightarrow>
    (\<exists>from to b t. message_shape j from to b t \<and>
       (id_failure b ''msg_id'' e \<or> (\<nexists>e'. id_failure b ''msg_id'' e') \<and> id_failure b ''is_reply_to'' e))"
proof (cases "\<exists>from to b t. message_shape j from to b t")
  case True
  then obtain f to b t where sh: "message_shape j f to b t" by blast
  then have b: "binary_free b" using binary_free_index [OF _ assms] by (auto simp: message_shape_def)
  have "message_from_json j = Inl e \<longleftrightarrow>
      id_failure b ''msg_id'' e \<or> (\<nexists>e'. id_failure b ''msg_id'' e') \<and> id_failure b ''is_reply_to'' e"
    unfolding message_from_json_shape [OF sh] id_field_stops [OF b, symmetric]
    by (cases "id_field b ''msg_id''"; cases "id_field b ''is_reply_to''") auto
  with sh show ?thesis using message_shape_unique [OF sh] by blast
qed (auto simp: message_from_json_no_shape)

section \<open>Properties\<close>

text \<open>C29. A JSON value is accepted as a message exactly when \<open>src\<close>, \<open>dest\<close> and \<open>body.type\<close> are strings,
  \<open>body\<close> is an object and the type is a known one; the message then carries those fields, the body
  unchanged, and the identifiers read from \<open>msg_id\<close> and \<open>is_reply_to\<close>.\<close>

theorem message_from_json_accepts:
  "message_from_json j = Inr (Some m) \<longleftrightarrow>
   (\<exists>t. message_shape j (msg_from m) (msg_to m) (body m) t \<and> msg_type m \<noteq> INVALID \<and>
        t = message_type_to_string (msg_type m) \<and>
        id_field (body m) ''msg_id'' = Inr (msg_id m) \<and>
        id_field (body m) ''is_reply_to'' = Inr (reply_id m))"
proof (cases "\<exists>from to b t. message_shape j from to b t")
  case True
  then obtain f to b t where sh: "message_shape j f to b t" by blast
  have "message_from_json j = Inr (Some m) \<longleftrightarrow>
      id_field b ''msg_id'' = Inr (msg_id m) \<and> id_field b ''is_reply_to'' = Inr (reply_id m) \<and>
      message_type_from_string t \<noteq> INVALID \<and> message_type_from_string t = msg_type m \<and>
      msg_from m = f \<and> msg_to m = to \<and> body m = b"
    by (cases m) (auto simp: message_from_json_shape [OF sh] result_simps)
  then show ?thesis
    using message_shape_unique [OF sh] sh message_type_from_eq [of "msg_type m" t] by metis
qed (auto simp: message_from_json_no_shape)

text \<open>C30. Reading a message never fails an assertion.  It goes wrong exactly when a value with all required fields has
  a \<open>msg_id\<close> or, if that can be read, an \<open>is_reply_to\<close> that is an array of two elements not
  starting with a number (type error 302), a text whose decoding is undefined, or an object with a string that is not
  UTF-8, which cannot be logged (type error 316).  Unknown message types are not exempt: the identifiers are read first.\<close>

theorem message_from_json_stops:
  assumes "binary_free j"
  shows "message_from_json j = Inl e \<longleftrightarrow>
    (\<exists>from to b t. message_shape j from to b t \<and>
       (id_failure b ''msg_id'' e \<or> (\<nexists>e'. id_failure b ''msg_id'' e') \<and> id_failure b ''is_reply_to'' e))"
  by (rule message_from_json_stops_iff [OF assms])

theorem message_from_json_stops_witness:
  "message_from_json (JObject [(''body'', JObject [(''msg_id'', JObject [([CHR 0xFF], JNull)]), (''type'', JString ''echo'')]),
     (''dest'', JString ''n1''), (''src'', JString ''c1'')]) = Inl (Type_error 316)"
proof -
  let ?b = "JObject [(''msg_id'', JObject [([CHR 0xFF], JNull)]), (''type'', JString ''echo'')]"
  let ?j = "JObject [(''body'', ?b), (''dest'', JString ''n1''), (''src'', JString ''c1'')]"
  have "\<not> texts_ok (JObject [([CHR 0xFF], JNull)])" by code_simp
  then have "id_failure ?b ''msg_id'' (Type_error 316)" by (simp add: id_failure_def unloggable_id_def json_index_def)
  moreover have "message_shape ?j ''c1'' ''n1'' ?b ''echo''"
    by (simp add: message_shape_def json_index_def is_object_def)
  moreover have "binary_free ?j" by simp
  ultimately show ?thesis using message_from_json_stops [of ?j "Type_error 316"] by blast
qed


text \<open>C32. A reply written as JSON is read back as the same message, except that the identifier it
  answers is lost: it is written as \<open>in_reply_to\<close> and looked up as \<open>is_reply_to\<close>.\<close>

theorem response_json_roundtrip:
  assumes "create_response draw m = Inr r" and "msg_type r \<noteq> INVALID"
  shows "message_from_json (message_as_json r) = Inr (Some (r\<lparr>reply_id := invalid_snowflake\<rparr>))"
proof -
  obtain t where t: "response_type (msg_type m) = Some t"
    using assms by (cases "response_type (msg_type m)")
      (auto simp: create_response_def message_default_def)
  then have tv: "t \<noteq> INVALID" by (cases "msg_type m") auto
  let ?b = "new_body t (generate_64 draw) (msg_id m)"
  have r: "r = \<lparr>msg_type = t, msg_id = generate_64 draw, reply_id = msg_id m, msg_from = msg_to m,
      msg_to = msg_from m, body = ?b\<rparr>"
    using assms(1) t by (simp add: create_response_def message_new_total)
  have sh: "message_shape (message_as_json r) (msg_to m) (msg_from m) ?b (message_type_to_string t)"
    using new_body_index [OF tv]
    by (simp add: message_shape_def message_as_json_object r json_index_def)
  obtain v where "snowflake_as_json (generate_64 draw) = Inr v"
      "snowflake_from_json v = Inr (Some (generate_64 draw))"
    using snowflake_from_as_json by blast
  then have "id_field ?b ''msg_id'' = Inr (generate_64 draw)"
    using new_body_index(3) [OF tv] id_field_as_json by blast
  moreover have "id_field ?b ''is_reply_to'' = Inr invalid_snowflake"
    using new_body_index(5) [OF tv] by (simp add: id_field_def)
  ultimately show ?thesis
    using tv message_from_json_shape [OF sh] by (simp add: message_simps) (simp add: r)
qed

text \<open>The hypotheses hold for a reply to an echo request.\<close>

theorem response_json_roundtrip_witness:
  "\<exists>r. create_response 7 (message_default\<lparr>msg_type := ECHO_REQ\<rparr>) = Inr r \<and> msg_type r = ECHO_RES \<and>
       message_from_json (message_as_json r) = Inr (Some (r\<lparr>reply_id := invalid_snowflake\<rparr>))"
proof -
  have ex: "\<exists>r. create_response 7 (message_default\<lparr>msg_type := ECHO_REQ\<rparr>) = Inr r \<and> msg_type r = ECHO_RES"
    by (simp add: create_response_def message_new_total)
  then show ?thesis
    using response_json_roundtrip [of 7 "message_default\<lparr>msg_type := ECHO_REQ\<rparr>"] by fastforce
qed

end
