(* ===== verification/Node.thy ===== *)
theory Node
  imports Message Json_Print
begin

text \<open>
  The node of \<^verbatim>\<open>src/src/common/node.cpp\<close>, with \<open>Message::parse\<close> (\<^verbatim>\<open>message.cpp\<close>) and the program of
  \<^verbatim>\<open>src/src/main.cpp\<close>: registration of handlers, the init protocol, the dispatch of input lines
  into the task queue, and what a worker does with a task.  Each function is the sequential effect
  of the C++ function on the node; how the main thread and the workers interleave is the subject of
  \<^verbatim>\<open>Node_Threads\<close>.
\<close>

section \<open>Reading a message from a line\<close>

definition message_parse :: "string \<Rightarrow> failure + message option" where
  "message_parse raw =
     ebind (json_parse raw False) (\<lambda>parsed. if is_discarded parsed then Inr None else message_from_json parsed)"

section \<open>The node\<close>

datatype NodeState = STARTING | RUNNING | SHUTDOWN

text \<open>The handlers are values of a type \<open>'h\<close>; what invoking one does is given where it is needed.\<close>

record 'h node =
  handler_map :: "MessageType \<rightharpoonup> 'h"
  node_state :: NodeState
  self_node_id :: string
  all_node_ids :: "string list"
  task_queue :: "(message \<times> 'h) list"
  worker_count :: int

definition register_handler :: "MessageType \<Rightarrow> 'h \<Rightarrow> 'h node \<Rightarrow> 'h node" where
  "register_handler type handler node =
     (case handler_map node type of
        Some _ \<Rightarrow> node
      | None \<Rightarrow> node\<lparr>handler_map := (handler_map node)(type \<mapsto> handler)\<rparr>)"

text \<open>The constructor; \<open>init_handler\<close> is \<open>handle_init\<close> bound to the node.\<close>

definition node_new :: "'h \<Rightarrow> int \<Rightarrow> 'h node" where
  "node_new init_handler num_workers =
     register_handler INIT_REQ init_handler
       \<lparr>handler_map = Map.empty, node_state = STARTING, self_node_id = '''', all_node_ids = [],
        task_queue = [], worker_count = num_workers\<rparr>"

definition node_init :: "string list \<Rightarrow> nat \<Rightarrow> 'h node \<Rightarrow> failure + 'h node" where
  "node_init all_nodes self_index node =
     (if all_node_ids node \<noteq> [] \<or> self_node_id node \<noteq> '''' then Inr node
      else
        let node = node\<lparr>all_node_ids := all_nodes\<rparr> in
        if self_index < length (all_node_ids node)
        then Inr (node\<lparr>self_node_id := all_node_ids node ! self_index\<rparr>) else Inl Std_out_of_range)"

text \<open>The loop that looks for the node's own name.\<close>

fun node_index :: "string \<Rightarrow> string list \<Rightarrow> nat" where
  "node_index self_id [] = 0"
| "node_index self_id (x # ids) = (if self_id = x then 0 else Suc (node_index self_id ids))"

definition handle_init :: "u32 \<Rightarrow> message \<Rightarrow> 'h node \<Rightarrow> failure + message \<times> 'h node" where
  "handle_init draw msg node =
     ebind (field_missing (body msg) ''node_id'' is_string)
      (\<lambda>missing.
         if missing then ebind (create_response draw msg) (\<lambda>r. Inr (r, node))
         else
           ebind (json_index (body msg) ''node_id'')
            (\<lambda>v. ebind (get_string_view v)
             (\<lambda>self_id. ebind (json_index (body msg) ''node_ids'')
              (\<lambda>ids. ebind (get_string_vector ids)
               (\<lambda>node_ids. let idx = node_index self_id node_ids in
                  if idx = length node_ids then Inr (message_default, node)
                  else ebind (node_init node_ids idx node)
                         (\<lambda>node. ebind (create_response draw msg) (\<lambda>r. Inr (r, node))))))))"

definition node_stop :: "'h node \<Rightarrow> 'h node" where
  "node_stop node = node\<lparr>node_state := SHUTDOWN\<rparr>"

text \<open>
  A line of input: the task it leads to, if any.  The message that was parsed is written to the log,
  which may stop the process.
\<close>

definition dispatch_task :: "string \<Rightarrow> 'h node \<Rightarrow> failure + (message \<times> 'h) option" where
  "dispatch_task raw node =
     ebind (message_parse raw)
      (\<lambda>m. case m of
         None \<Rightarrow> Inr None
       | Some msg \<Rightarrow>
           ebind (json_text (message_as_json msg))
            (\<lambda>_. if self_node_id node = '''' \<and> msg_type msg \<noteq> INIT_REQ then Inr None
                 else
                   (case handler_map node (msg_type msg) of
                      None \<Rightarrow> Inr None
                    | Some handler \<Rightarrow> Inr (Some (msg, handler)))))"

definition push_task :: "message \<times> 'h \<Rightarrow> 'h node \<Rightarrow> 'h node" where
  "push_task task node = node\<lparr>task_queue := task_queue node @ [task]\<rparr>"

definition dispatch_message :: "string \<Rightarrow> 'h node \<Rightarrow> failure + 'h node" where
  "dispatch_message raw node =
     ebind (dispatch_task raw node) (\<lambda>t. case t of None \<Rightarrow> Inr node | Some task \<Rightarrow> Inr (push_task task node))"

text \<open>
  What a worker does with a task it has taken from the queue: it logs the message and runs the handler
  (\<open>invoke\<close>), then writes the response as a line to the standard output unless its type is \<open>INVALID\<close>.
\<close>

definition invoke_task ::
  "('h \<Rightarrow> message \<Rightarrow> 'h node \<Rightarrow> failure + message \<times> 'h node) \<Rightarrow> message \<times> 'h \<Rightarrow> 'h node \<Rightarrow> failure + message \<times> 'h node"
where
  "invoke_task invoke task node =
     ebind (json_text (message_as_json (fst task))) (\<lambda>_. invoke (snd task) (fst task) node)"

definition write_response :: "message \<Rightarrow> failure + string option" where
  "write_response response =
     (if msg_type response \<noteq> INVALID
      then ebind (json_text (message_as_json response)) (\<lambda>line. Inr (Some (line @ [CHR 0x0A])))
      else Inr None)"

definition run_task ::
  "('h \<Rightarrow> message \<Rightarrow> 'h node \<Rightarrow> failure + message \<times> 'h node) \<Rightarrow> message \<times> 'h \<Rightarrow> 'h node \<Rightarrow> failure + string option \<times> 'h node"
where
  "run_task invoke task node =
     ebind (invoke_task invoke task node)
      (\<lambda>(response, node). ebind (write_response response) (\<lambda>line. Inr (line, node)))"

lemmas task_defs = run_task_def invoke_task_def write_response_def

section \<open>The program\<close>

datatype callback = Handle_init | Echo_handler | Generate_handler

definition echo_handler :: "u32 \<Rightarrow> message \<Rightarrow> failure + message" where
  "echo_handler draw msg =
     ebind (create_response draw msg)
      (\<lambda>response. ebind (json_index (body msg) ''echo'')
       (\<lambda>v. ebind (json_set (body response) ''echo'' v) (\<lambda>b. Inr (response\<lparr>body := b\<rparr>))))"

definition generate_handler :: "u32 \<Rightarrow> u32 \<Rightarrow> message \<Rightarrow> failure + message" where
  "generate_handler draw draw' msg =
     ebind (create_response draw msg)
      (\<lambda>response. ebind (snowflake_as_json (generate draw'))
       (\<lambda>v. ebind (json_set (body response) ''id'' v) (\<lambda>b. Inr (response\<lparr>body := b\<rparr>))))"

text \<open>The two draws are the numbers that \<open>std::random_device\<close> yields during the call.\<close>

fun invoke_callback :: "u32 \<times> u32 \<Rightarrow> callback \<Rightarrow> message \<Rightarrow> callback node \<Rightarrow> failure + message \<times> callback node" where
  "invoke_callback (draw, draw') Handle_init msg node = handle_init draw msg node"
| "invoke_callback (draw, draw') Echo_handler msg node = ebind (echo_handler draw msg) (\<lambda>r. Inr (r, node))"
| "invoke_callback (draw, draw') Generate_handler msg node = ebind (generate_handler draw draw' msg) (\<lambda>r. Inr (r, node))"

definition main_node :: "callback node" where
  "main_node =
     register_handler GENERATE_REQ Generate_handler (register_handler ECHO_REQ Echo_handler (node_new Handle_init 16))"

section \<open>Messages as text\<close>

lemma map_find_map: "map_find (map (\<lambda>kv. (fst kv, f (snd kv))) m) k = map_option f (map_find m k)"
  by (induction m) auto

lemma json_index_norm:
  "json_index (json_norm j) k = (case json_index j k of Inl e \<Rightarrow> Inl e | Inr v \<Rightarrow> Inr (json_norm v))"
  by (cases j) (auto simp: json_index_def map_find_map split: option.splits)

lemma is_object_norm: "is_object (json_norm j) = is_object j"
  by (cases j) (auto simp: is_object_def)

lemma to_base64url_ascii: "b < 64 \<Longrightarrow> of_char (to_base64url_char b) < (0x80 :: int)"
proof (rule small_byte_cases [of "\<lambda>b. of_char (to_base64url_char b) < (0x80 :: int)"])
  show "\<forall>n\<in>set [0..<64]. of_char (to_base64url_char (word_of_nat n)) < (0x80 :: int)" by code_simp
qed

lemma utf8_ok_all_ascii: "\<forall>c\<in>set s. of_char c < (0x80 :: int) \<Longrightarrow> utf8_ok s"
  by (induction s) (auto simp: utf8_ok_ascii)

lemma snowflake_as_json_text:
  "snowflake_as_json s = Inr v \<Longrightarrow> printable v \<and> json_norm v = v"
  by (auto simp: snowflake_simps intro!: utf8_ok_all_ascii to_base64url_ascii sextets_small split: if_splits)

lemma printable_put: "printable (JObject m) \<Longrightarrow> utf8_ok k \<Longrightarrow> printable v \<Longrightarrow> printable (JObject (map_put m k v))"
  by (simp add: map_ok_put list_all_map_put)

lemma message_type_utf8: "utf8_ok (message_type_to_string t)"
  by (cases t; simp; code_simp)

lemma new_body_printable:
  assumes "t \<noteq> INVALID"
  shows "\<exists>m. new_body t sid rid = JObject m \<and> printable (JObject m)"
proof -
  obtain v w where v: "snowflake_as_json sid = Inr v" "snowflake_as_json rid = Inr w" by (simp add: snowflake_simps)
  have k: "utf8_ok ''type''" "utf8_ok ''msg_id''" "utf8_ok ''in_reply_to''" by code_simp+
  have m0: "printable (JObject [(''type'', JString (message_type_to_string t))])"
    using k message_type_utf8 by (simp add: map_ok_def)
  show ?thesis
    using assms v m0 snowflake_as_json_text [OF v(1)] snowflake_as_json_text [OF v(2)]
      printable_put [OF m0 k(2)] printable_put [OF m0 k(3)] printable_put [OF printable_put [OF m0 k(2)] k(3)]
    by (auto simp: new_body_def Let_def simp del: printable.simps)
qed

lemma message_as_json_printable:
  "printable (body r) \<Longrightarrow> utf8_ok (msg_from r) \<Longrightarrow> utf8_ok (msg_to r) \<Longrightarrow> printable (message_as_json r)"
proof -
  have "utf8_ok ''body''" "utf8_ok ''dest''" "utf8_ok ''src''" by code_simp+
  moreover have "map_ok [(''body'', a), (''dest'', b), (''src'', c)]" for a b c :: json
    by (simp add: map_ok_def)
  moreover assume "printable (body r)" "utf8_ok (msg_from r)" "utf8_ok (msg_to r)"
  ultimately show ?thesis by (simp add: message_as_json_object)
qed


text \<open>A reply on its way out: a text that is read back as the reply, with its numbers normalised.\<close>

lemma reply_line:
  assumes "printable (body r)" "utf8_ok (msg_from r)" "utf8_ok (msg_to r)" and "is_object (body r)"
    and "json_index (body r) ''type'' = Inr (JString (message_type_to_string (msg_type r)))" "msg_type r \<noteq> INVALID"
    and "json_index (body r) ''msg_id'' = (if is_valid (msg_id r) then snowflake_as_json (msg_id r) else Inl Assertion_failed)"
    and "\<not> contains (body r) ''is_reply_to''"
  shows "\<exists>line. json_text (message_as_json r) = Inr line \<and>
    message_parse line = Inr (Some (r\<lparr>body := json_norm (body r), reply_id := invalid_snowflake\<rparr>))"
proof -
  let ?j = "json_norm (message_as_json r)" and ?b = "json_norm (body r)"
  have p: "printable (message_as_json r)" by (rule message_as_json_printable [OF assms(1-3)])
  have shape: "message_shape ?j (msg_from r) (msg_to r) ?b (message_type_to_string (msg_type r))"
    using assms(4,5) by (simp add: message_shape_def message_as_json_object json_index_norm is_object_norm) (simp add: json_index_def)
  obtain v where v: "snowflake_as_json (msg_id r) = Inr v" "snowflake_from_json v = Inr (Some (msg_id r))"
    using snowflake_from_as_json by blast
  have "json_index ?b ''msg_id'' = (if is_valid (msg_id r) then snowflake_as_json (msg_id r) else Inl Assertion_failed)"
    using assms(7) v(1) snowflake_as_json_text [OF v(1)] by (simp add: json_index_norm)
  then have mid: "id_field ?b ''msg_id'' = Inr (msg_id r)" using id_field_as_json v by blast
  have rid: "id_field ?b ''is_reply_to'' = Inr invalid_snowflake"
    using assms(8) by (auto simp: id_field_def contains_index json_index_norm split: sum.splits)
  have "message_parse (json_print (message_as_json r)) = message_from_json ?j"
    using json_parse_print [OF p] by (simp add: message_parse_def is_discarded_def message_as_json_object)
  also have "\<dots> = Inr (Some (r\<lparr>body := ?b, reply_id := invalid_snowflake\<rparr>))"
    unfolding message_from_json_shape [OF shape] using assms(6) mid rid by (cases r) (simp add: message_simps)
  finally show ?thesis using printable_text [OF p] by blast
qed

text \<open>What is known of a message that was read from a line.\<close>

lemma json_index_parsed: "json_index j k = Inr v \<Longrightarrow> parsed_ok j \<Longrightarrow> parsed_ok v"
  by (auto simp: json_index_def dest: map_find_list_all split: json.splits option.splits)

lemma message_parse_ok:
  assumes "message_parse raw = Inr (Some msg)"
  shows "utf8_ok (msg_from msg) \<and> utf8_ok (msg_to msg) \<and> parsed_ok (body msg) \<and> is_object (body msg) \<and> msg_type msg \<noteq> INVALID"
proof -
  obtain j where j: "json_parse raw False = Inr j" "j = JDiscarded \<or> parsed_ok j" using json_parse_total by blast
  then have m: "message_from_json j = Inr (Some msg)" and ok: "parsed_ok j"
    using assms by (auto simp: message_parse_def is_discarded_def split: if_splits)
  obtain f t b ty where sh: "message_shape j f t b ty"
    using m message_from_json_no_shape [of j] by (cases "\<exists>f t b ty. message_shape j f t b ty") auto
  then have "msg_from msg = f" "msg_to msg = t" "body msg = b" "msg_type msg \<noteq> INVALID"
    using m by (auto simp: message_from_json_shape [OF sh] result_simps split: if_splits)
  moreover have "parsed_ok (JString f)" "parsed_ok (JString t)" "parsed_ok b" "is_object b"
    using sh json_index_parsed [OF _ ok] unfolding message_shape_def by blast+
  ultimately show ?thesis by simp
qed

lemma message_log:
  assumes "message_parse raw = Inr (Some msg)"
  shows "json_text (message_as_json msg) = Inr (json_print (message_as_json msg))"
  using message_parse_ok [OF assms]
  by (intro printable_text message_as_json_printable) (auto intro: parsed_printable)


section \<open>Handlers\<close>

lemma create_response_request:
  assumes "response_type (msg_type msg) = Some t"
  shows "create_response draw msg =
    Inr \<lparr>msg_type = t, msg_id = generate_64 draw, reply_id = msg_id msg, msg_from = msg_to msg, msg_to = msg_from msg,
         body = new_body t (generate_64 draw) (msg_id msg)\<rparr>"
  using assms by (simp add: create_response_def message_new_total)

lemma json_index_put: "json_index (JObject (map_put m k v)) k' = (if k' = k then Inr v else json_index (JObject m) k')"
  by (simp add: json_index_def map_find_put)

lemma contains_put: "contains (JObject (map_put m k v)) k' = (k' = k \<or> contains (JObject m) k')"
  by (simp add: contains_def map_find_put)

text \<open>
  A handler that adds one field to the reply: the line the worker writes for it.
\<close>

lemma reply_with_field:
  assumes msg: "message_parse raw = Inr (Some msg)" and t: "response_type (msg_type msg) = Some t"
    and r: "create_response draw msg = Inr r" and k: "utf8_ok k" "k \<notin> {''type'', ''msg_id'', ''in_reply_to'', ''is_reply_to''}"
    and v: "printable v"
    and inv: "invoke h msg node = ebind (json_set (body r) k v) (\<lambda>b. Inr (r\<lparr>body := b\<rparr>, node))"
  shows "\<exists>line q. run_task invoke (msg, h) node = Inr (Some (line @ [CHR 0x0A]), node) \<and>
    message_parse line = Inr (Some q) \<and> msg_type q = t \<and> msg_from q = msg_to msg \<and> msg_to q = msg_from msg \<and>
    msg_id q = generate_64 draw \<and> json_index (body q) k = Inr (json_norm v) \<and>
    json_index (body q) ''in_reply_to'' = (if is_valid (msg_id msg) then snowflake_as_json (msg_id msg) else Inl Assertion_failed)"
proof -
  have tv: "t \<noteq> INVALID" using t by (cases "msg_type msg") auto
  let ?b = "new_body t (generate_64 draw) (msg_id msg)"
  obtain m where m: "?b = JObject m" "printable (JObject m)" using new_body_printable [OF tv] by blast
  have r': "r = \<lparr>msg_type = t, msg_id = generate_64 draw, reply_id = msg_id msg, msg_from = msg_to msg,
      msg_to = msg_from msg, body = JObject m\<rparr>"
    using r create_response_request [OF t, of draw] m(1) by simp
  define r1 where "r1 = r\<lparr>body := JObject (map_put m k v)\<rparr>"
  have "invoke h msg node = Inr (r1, node)" using inv r' by (simp add: json_set_put r1_def)
  note invoked = this
  have ok: "utf8_ok (msg_from msg)" "utf8_ok (msg_to msg)" using message_parse_ok [OF msg] by simp_all
  have ks: "''type'' \<noteq> k" "''msg_id'' \<noteq> k" "''in_reply_to'' \<noteq> k" "''is_reply_to'' \<noteq> k" using k(2) by auto
  note idx = new_body_index [OF tv, of "generate_64 draw" "msg_id msg", unfolded m(1)]
  have "\<exists>line. json_text (message_as_json r1) = Inr line \<and>
      message_parse line = Inr (Some (r1\<lparr>body := json_norm (body r1), reply_id := invalid_snowflake\<rparr>))"
    by (rule reply_line)
      (use printable_put [OF m(2) k(1) v] ok idx ks tv in
        \<open>simp_all add: r1_def r' json_index_put contains_put is_object_def del: printable.simps\<close>)
  then obtain line where line: "json_text (message_as_json r1) = Inr line"
      "message_parse line = Inr (Some (r1\<lparr>body := json_norm (body r1), reply_id := invalid_snowflake\<rparr>))" by blast
  have kv: "json_index (json_norm (body r1)) k = Inr (json_norm v)"
    by (simp add: r1_def json_index_norm json_index_put del: json_norm.simps)
  obtain w where w: "snowflake_as_json (msg_id msg) = Inr w" "json_norm w = w"
    using snowflake_from_as_json [of "msg_id msg"] snowflake_as_json_text by blast
  then have rid: "json_index (json_norm (body r1)) ''in_reply_to'' =
      (if is_valid (msg_id msg) then snowflake_as_json (msg_id msg) else Inl Assertion_failed)"
    using idx(4) ks by (simp add: r1_def json_index_norm json_index_put del: json_norm.simps)
  have "run_task invoke (msg, h) node = Inr (Some (line @ [CHR 0x0A]), node)"
    using message_log [OF msg] tv invoked line(1) by (simp add: task_defs) (simp add: r1_def r')
  moreover have "msg_type r1 = t" "msg_from r1 = msg_to msg" "msg_to r1 = msg_from msg" "msg_id r1 = generate_64 draw"
    by (simp_all add: r1_def r')
  ultimately show ?thesis using line(2) kv rid by auto
qed


text \<open>The reply to an echo request, by whether it has an \<open>echo\<close> field.\<close>

lemma echo_task:
  assumes "message_parse raw = Inr (Some msg)" and "msg_type msg = ECHO_REQ"
  shows "case json_index (body msg) ''echo'' of
      Inl e \<Rightarrow> run_task (invoke_callback (draw, draw')) (msg, Echo_handler) node = Inl Assertion_failed
    | Inr v \<Rightarrow>
        \<exists>line q. run_task (invoke_callback (draw, draw')) (msg, Echo_handler) node = Inr (Some (line @ [CHR 0x0A]), node) \<and>
          message_parse line = Inr (Some q) \<and> msg_type q = ECHO_RES \<and> msg_from q = msg_to msg \<and> msg_to q = msg_from msg \<and>
          msg_id q = generate_64 draw \<and> json_index (body q) ''echo'' = Inr (json_norm v) \<and>
          json_index (body q) ''in_reply_to'' =
            (if is_valid (msg_id msg) then snowflake_as_json (msg_id msg) else Inl Assertion_failed)"
proof (cases "json_index (body msg) ''echo''")
  case (Inl e)
  have "is_object (body msg)" using message_parse_ok [OF assms(1)] by simp
  then have "e = Assertion_failed" using Inl by (auto simp: json_index_def is_object_def split: json.splits option.splits)
  then show ?thesis
    using Inl message_log [OF assms(1)] assms(2) create_response_request [of msg ECHO_RES draw]
    by (simp add: task_defs echo_handler_def)
next
  case (Inr v)
  have v: "printable v"
    using json_index_parsed [OF Inr] message_parse_ok [OF assms(1)]
    by (simp add: parsed_printable)
  obtain r where r: "create_response draw msg = Inr r"
    using create_response_request [of msg ECHO_RES draw] assms(2) by simp
  have "utf8_ok ''echo''" by code_simp
  then show ?thesis
    using reply_with_field [OF assms(1) _ r _ _ v, of ECHO_RES "''echo''" "invoke_callback (draw, draw')" Echo_handler node]
      assms(2) Inr r
    by (simp add: echo_handler_def ebind_assoc)
qed


section \<open>Properties\<close>

text \<open>C13. From line to line: for an echo request read from a line of input, whatever else
  the line holds, the worker writes one line, which reads back as an \<open>echo_ok\<close> message to the sender, with the
  request's \<open>msg_id\<close> as \<open>in_reply_to\<close> and the same \<open>echo\<close> value; a request without an \<open>echo\<close> field
  ends the process.\<close>
theorem echo_reply:
  assumes "message_parse raw = Inr (Some msg)" and "msg_type msg = ECHO_REQ"
  shows "case json_index (body msg) ''echo'' of
      Inl e \<Rightarrow> run_task (invoke_callback (draw, draw')) (msg, Echo_handler) node = Inl Assertion_failed
    | Inr v \<Rightarrow>
        \<exists>line q. run_task (invoke_callback (draw, draw')) (msg, Echo_handler) node = Inr (Some (line @ [CHR 0x0A]), node) \<and>
          message_parse line = Inr (Some q) \<and> msg_type q = ECHO_RES \<and> msg_from q = msg_to msg \<and> msg_to q = msg_from msg \<and>
          msg_id q = generate_64 draw \<and> json_index (body q) ''echo'' = Inr (json_norm v) \<and>
          json_index (body q) ''in_reply_to'' =
            (if is_valid (msg_id msg) then snowflake_as_json (msg_id msg) else Inl Assertion_failed)"
  by (rule echo_task [OF assms])

text \<open>The hypotheses hold for a line as Maelstrom sends it.\<close>

definition echo_line :: string where
  "echo_line = json_print (JObject [(''body'', JObject [(''echo'', JArray [JFloat 0x3FB999999999999A, JString ''x'']), (''msg_id'', JUnsigned 7),
     (''type'', JString ''echo'')]), (''dest'', JString ''n1''), (''src'', JString ''c1'')])"

definition echo_message :: message where
  "echo_message = \<lparr>msg_type = ECHO_REQ, msg_id = \<lparr>m_most_sig = 7, m_least_sig = 0\<rparr>, reply_id = invalid_snowflake,
     msg_from = ''c1'', msg_to = ''n1'',
     body = JObject [(''echo'', JArray [JFloat 0x3FB999999999999A, JString ''x'']), (''msg_id'', JUnsigned 7), (''type'', JString ''echo'')]\<rparr>"

lemma message_parse_print:
  assumes "printable j" "json_norm j = j" "message_from_json j = Inr (Some msg)" "\<not> is_discarded j"
  shows "message_parse (json_print j) = Inr (Some msg)"
  using library.reader_text [OF assms(1)] assms(2-) by (simp add: message_parse_def)

lemma echo_line_parse: "message_parse echo_line = Inr (Some echo_message)"
  unfolding echo_line_def by (rule message_parse_print) code_simp+

theorem echo_reply_witness:
  "\<exists>line q. run_task (invoke_callback (1, 2)) (echo_message, Echo_handler) main_node = Inr (Some (line @ [CHR 0x0A]), main_node) \<and>
     message_parse line = Inr (Some q) \<and> msg_type q = ECHO_RES \<and> msg_to q = ''c1'' \<and>
     json_index (body q) ''echo'' = Inr (JArray [JFloat 0x3FB999999999999A, JString ''x'']) \<and> json_index (body q) ''in_reply_to'' = Inr (JUnsigned 7)"
proof -
  have "msg_type echo_message = ECHO_REQ" "msg_from echo_message = ''c1''"
    "json_index (body echo_message) ''echo'' = Inr (JArray [JFloat 0x3FB999999999999A, JString ''x''])"
    "json_norm (JArray [JFloat 0x3FB999999999999A, JString ''x'']) = JArray [JFloat 0x3FB999999999999A, JString ''x'']"
    "is_valid (msg_id echo_message)" "snowflake_as_json (msg_id echo_message) = Inr (JUnsigned 7)" by code_simp+
  then show ?thesis
    using echo_reply [OF echo_line_parse, of 1 2 main_node] by fastforce
qed

text \<open>C14. A generate request is answered with a \<open>generate_ok\<close> message to the sender whose \<open>id\<close> field is the
  text of a fresh 128-bit identifier; reading that field gives the identifier back.\<close>
theorem generate_reply:
  assumes "message_parse raw = Inr (Some msg)" and "msg_type msg = GENERATE_REQ"
  shows "\<exists>line q. run_task (invoke_callback (draw, draw')) (msg, Generate_handler) node = Inr (Some (line @ [CHR 0x0A]), node) \<and>
      message_parse line = Inr (Some q) \<and> msg_type q = GENERATE_RES \<and> msg_from q = msg_to msg \<and> msg_to q = msg_from msg \<and>
      json_index (body q) ''in_reply_to'' =
        (if is_valid (msg_id msg) then snowflake_as_json (msg_id msg) else Inl Assertion_failed) \<and>
      ebind (json_index (body q) ''id'') snowflake_from_json = Inr (Some (generate draw'))"
proof -
  obtain v where v: "snowflake_as_json (generate draw') = Inr v" "snowflake_from_json v = Inr (Some (generate draw'))"
    using snowflake_from_as_json by blast
  note tx = snowflake_as_json_text [OF v(1)]
  obtain r where r: "create_response draw msg = Inr r"
    using create_response_request [of msg GENERATE_RES draw] assms(2) by simp
  have "utf8_ok ''id''" by code_simp
  then show ?thesis
    using reply_with_field [OF assms(1) _ r _ _, of GENERATE_RES "''id''" v "invoke_callback (draw, draw')" Generate_handler node]
      assms(2) r v tx
    by (fastforce simp: generate_handler_def ebind_assoc)
qed

definition generate_message :: message where
  "generate_message = \<lparr>msg_type = GENERATE_REQ, msg_id = \<lparr>m_most_sig = 7, m_least_sig = 0\<rparr>, reply_id = invalid_snowflake,
     msg_from = ''c1'', msg_to = ''n1'', body = JObject [(''msg_id'', JUnsigned 7), (''type'', JString ''generate'')]\<rparr>"

lemma generate_line_parse:
  "message_parse (json_print (JObject [(''body'', JObject [(''msg_id'', JUnsigned 7), (''type'', JString ''generate'')]),
     (''dest'', JString ''n1''), (''src'', JString ''c1'')])) = Inr (Some generate_message)"
  by (rule message_parse_print) code_simp+

theorem generate_reply_witness:
  "\<exists>line q. run_task (invoke_callback (1, 2)) (generate_message, Generate_handler) main_node = Inr (Some (line @ [CHR 0x0A]), main_node) \<and>
     message_parse line = Inr (Some q) \<and> msg_type q = GENERATE_RES \<and> msg_to q = ''c1'' \<and>
     ebind (json_index (body q) ''id'') snowflake_from_json = Inr (Some (generate 2))"
proof -
  have "msg_type generate_message = GENERATE_REQ" "msg_from generate_message = ''c1''"
    by code_simp+
  then show ?thesis using generate_reply [OF generate_line_parse, of 1 2 main_node] by auto
qed

section \<open>Initialisation\<close>

lemma node_index_found: "node_index x ids = length ids \<longleftrightarrow> x \<notin> set ids"
  by (induction ids) auto

lemma node_index_nth: "x \<in> set ids \<Longrightarrow> node_index x ids < length ids \<and> ids ! node_index x ids = x"
  by (induction ids) auto

lemma get_strings_iff: "get_strings js = Inr ss \<longleftrightarrow> js = map JString ss"
proof (induction js arbitrary: ss)
  case (Cons j js)
  have "get_string j = Inr s \<longleftrightarrow> j = JString s" for s by (cases j) (auto simp: get_string_def)
  then show ?case using Cons by (auto simp: result_simps)
qed auto

lemma get_strings_error: "get_strings js = Inl e \<Longrightarrow> e = Type_error 302"
proof (induction js)
  case (Cons j js)
  have "get_string j = Inl e \<Longrightarrow> e = Type_error 302" by (cases j) (auto simp: get_string_def)
  then show ?case using Cons by (auto simp: result_simps)
qed auto

lemma get_string_vector_iff: "get_string_vector j = Inr ss \<longleftrightarrow> j = JArray (map JString ss)"
  by (cases j) (auto simp: get_string_vector_def get_array_def get_strings_iff)

lemma get_string_vector_error: "get_string_vector j = Inl e \<Longrightarrow> e = Type_error 302"
  by (cases j) (auto simp: get_string_vector_def get_array_def get_strings_error)

definition fresh :: "'h node \<Rightarrow> bool" where
  "fresh node = (all_node_ids node = [] \<and> self_node_id node = '''')"

lemma node_init_found:
  "x \<in> set ids \<Longrightarrow> node_init ids (node_index x ids) node =
     Inr (if fresh node then node\<lparr>all_node_ids := ids, self_node_id := x\<rparr> else node)"
  using node_index_nth [of x ids] by (auto simp: node_init_def fresh_def Let_def)

lemma handle_init_no_id:
  "\<not> (\<exists>s. json_index (body msg) ''node_id'' = Inr (JString s)) \<Longrightarrow>
   handle_init draw msg node = ebind (create_response draw msg) (\<lambda>r. Inr (r, node))"
  by (auto simp: handle_init_def field_missing_cases is_string_iff)

lemma handle_init_id:
  assumes "json_index (body msg) ''node_id'' = Inr (JString s)"
  shows "handle_init draw msg node =
    ebind (json_index (body msg) ''node_ids'') (\<lambda>v. ebind (get_string_vector v)
      (\<lambda>ids. if s \<in> set ids
             then ebind (create_response draw msg)
                    (\<lambda>r. Inr (r, if fresh node then node\<lparr>all_node_ids := ids, self_node_id := s\<rparr> else node))
             else Inr (message_default, node)))"
proof -
  have "field_missing (body msg) ''node_id'' is_string = Inr False"
    using assms by (auto simp: field_missing_cases is_string_iff)
  moreover have "(if node_index s ids = length ids then Inr (message_default, node)
      else ebind (node_init ids (node_index s ids) node) (\<lambda>node. ebind (create_response draw msg) (\<lambda>r. Inr (r, node)))) =
    (if s \<in> set ids
     then ebind (create_response draw msg)
            (\<lambda>r. Inr (r, if fresh node then node\<lparr>all_node_ids := ids, self_node_id := s\<rparr> else node))
     else Inr (message_default, node))" for ids
    by (simp add: node_index_found node_init_found)
  ultimately show ?thesis
    using assms by (simp add: handle_init_def get_string_view_def Let_def)
qed

text \<open>The names in an array of strings.\<close>

fun string_array :: "json \<Rightarrow> string list option" where
  "string_array (JArray []) = Some []"
| "string_array (JArray (JString s # js)) = map_option ((#) s) (string_array (JArray js))"
| "string_array _ = None"

lemma string_array_map: "string_array (JArray (map JString ids)) = Some ids"
  by (induction ids) auto

lemma get_string_vector_array:
  "get_string_vector j = (case string_array j of Some ids \<Rightarrow> Inr ids | None \<Rightarrow> Inl (Type_error 302))"
proof (cases "get_string_vector j")
  case (Inl e)
  moreover have "string_array j = None"
  proof (rule ccontr)
    assume "string_array j \<noteq> None"
    then obtain ids where "string_array j = Some ids" by blast
    then have "j = JArray (map JString ids)"
      by (induction j arbitrary: ids rule: string_array.induct) auto
    then show False using Inl get_string_vector_iff [of j ids] by simp
  qed
  ultimately show ?thesis using get_string_vector_error by simp
qed (simp add: get_string_vector_iff string_array_map)

text \<open>C16. The init handler on every branch: without a textual \<open>node_id\<close> it only replies; without
  \<open>node_ids\<close> it trips an assertion; if \<open>node_ids\<close> is not an array of strings the process stops with
  type error 302; if the node's own name is not listed there is no reply (the response is the default
  message); otherwise it replies, and the names are stored if none were stored before.\<close>
theorem handle_init_behaviour:
  "handle_init draw msg node =
    (case json_index (body msg) ''node_id'' of
       Inr (JString s) \<Rightarrow>
         (case json_index (body msg) ''node_ids'' of
            Inl _ \<Rightarrow> Inl Assertion_failed
          | Inr v \<Rightarrow>
              (case string_array v of
                 None \<Rightarrow> Inl (Type_error 302)
               | Some ids \<Rightarrow>
                   if s \<notin> set ids then Inr (message_default, node)
                   else ebind (create_response draw msg)
                          (\<lambda>r. Inr (r, if all_node_ids node = [] \<and> self_node_id node = ''''
                                       then node\<lparr>all_node_ids := ids, self_node_id := s\<rparr> else node))))
     | _ \<Rightarrow> ebind (create_response draw msg) (\<lambda>r. Inr (r, node)))"
proof (cases "\<exists>s. json_index (body msg) ''node_id'' = Inr (JString s)")
  case True
  then obtain s where s: "json_index (body msg) ''node_id'' = Inr (JString s)" by blast
  have "json_index (body msg) ''node_ids'' = Inl e \<Longrightarrow> e = Assertion_failed" for e
    using s by (auto simp: json_index_def split: json.splits option.splits)
  then show ?thesis
    unfolding handle_init_id [OF s] get_string_vector_array s fresh_def
    by (auto simp: ebind_def split: sum.split option.split)
next
  case False
  then show ?thesis
    unfolding handle_init_no_id [OF False] by (auto split: sum.split json.split)
qed


text \<open>The reply without a further field.\<close>

lemma plain_reply:
  assumes msg: "message_parse raw = Inr (Some msg)" and t: "response_type (msg_type msg) = Some t"
    and r: "create_response draw msg = Inr r" and inv: "invoke h msg node = Inr (r, node')"
  shows "\<exists>line q. run_task invoke (msg, h) node = Inr (Some (line @ [CHR 0x0A]), node') \<and>
    message_parse line = Inr (Some q) \<and> msg_type q = t \<and> msg_from q = msg_to msg \<and> msg_to q = msg_from msg \<and>
    json_index (body q) ''in_reply_to'' = (if is_valid (msg_id msg) then snowflake_as_json (msg_id msg) else Inl Assertion_failed)"
proof -
  have tv: "t \<noteq> INVALID" using t by (cases "msg_type msg") auto
  let ?b = "new_body t (generate_64 draw) (msg_id msg)"
  obtain m where m: "?b = JObject m" "printable (JObject m)" using new_body_printable [OF tv] by blast
  have r': "r = \<lparr>msg_type = t, msg_id = generate_64 draw, reply_id = msg_id msg, msg_from = msg_to msg,
      msg_to = msg_from msg, body = JObject m\<rparr>"
    using r create_response_request [OF t, of draw] m(1) by simp
  have ok: "utf8_ok (msg_from msg)" "utf8_ok (msg_to msg)" using message_parse_ok [OF msg] by simp_all
  note idx = new_body_index [OF tv, of "generate_64 draw" "msg_id msg", unfolded m(1)]
  have "\<exists>line. json_text (message_as_json r) = Inr line \<and>
      message_parse line = Inr (Some (r\<lparr>body := json_norm (body r), reply_id := invalid_snowflake\<rparr>))"
    by (rule reply_line) (use m(2) ok idx tv in \<open>simp_all add: r' is_object_def del: printable.simps\<close>)
  then obtain line where line: "json_text (message_as_json r) = Inr line"
      "message_parse line = Inr (Some (r\<lparr>body := json_norm (body r), reply_id := invalid_snowflake\<rparr>))" by blast
  obtain w where w: "snowflake_as_json (msg_id msg) = Inr w" "json_norm w = w"
    using snowflake_from_as_json [of "msg_id msg"] snowflake_as_json_text by blast
  then have rid: "json_index (json_norm (body r)) ''in_reply_to'' =
      (if is_valid (msg_id msg) then snowflake_as_json (msg_id msg) else Inl Assertion_failed)"
    using idx(4) by (simp add: r' json_index_norm del: json_norm.simps)
  have "run_task invoke (msg, h) node = Inr (Some (line @ [CHR 0x0A]), node')"
    using message_log [OF msg] tv inv line(1) by (simp add: task_defs) (simp add: r')
  then show ?thesis using line(2) rid by (auto simp: r')
qed

lemma init_task:
  assumes "message_parse raw = Inr (Some msg)" and "msg_type msg = INIT_REQ"
    and "json_index (body msg) ''node_id'' = Inr (JString s)"
    and "json_index (body msg) ''node_ids'' = Inr (JArray (map JString ids))" and "s \<in> set ids"
  shows "\<exists>line q. run_task (invoke_callback (draw, draw')) (msg, Handle_init) node =
        Inr (Some (line @ [CHR 0x0A]),
             if all_node_ids node = [] \<and> self_node_id node = '''' then node\<lparr>all_node_ids := ids, self_node_id := s\<rparr> else node) \<and>
      message_parse line = Inr (Some q) \<and> msg_type q = INIT_RES \<and> msg_from q = msg_to msg \<and> msg_to q = msg_from msg \<and>
      json_index (body q) ''in_reply_to'' =
        (if is_valid (msg_id msg) then snowflake_as_json (msg_id msg) else Inl Assertion_failed)"
proof -
  obtain r where r: "create_response draw msg = Inr r"
    using create_response_request [of msg INIT_RES draw] assms(2) by simp
  have "get_string_vector (JArray (map JString ids)) = Inr ids" by (simp add: get_string_vector_iff)
  then have "invoke_callback (draw, draw') Handle_init msg node =
      Inr (r, if all_node_ids node = [] \<and> self_node_id node = '''' then node\<lparr>all_node_ids := ids, self_node_id := s\<rparr> else node)"
    using r assms(4,5) by (simp add: handle_init_id [OF assms(3)] fresh_def)
  then show ?thesis
    using plain_reply [OF assms(1) _ r, of INIT_RES "invoke_callback (draw, draw')" Handle_init node] assms(2) by simp
qed

text \<open>C15. Initialisation from line to line: an init request whose \<open>node_id\<close> is among its \<open>node_ids\<close> is
  answered with an \<open>init_ok\<close> line to the sender that carries the request's identifier, and the node
  takes the name and the list of names unless it has them already.\<close>
theorem init_reply:
  assumes "message_parse raw = Inr (Some msg)" and "msg_type msg = INIT_REQ"
    and "json_index (body msg) ''node_id'' = Inr (JString s)"
    and "json_index (body msg) ''node_ids'' = Inr (JArray (map JString ids))" and "s \<in> set ids"
  shows "\<exists>line q. run_task (invoke_callback (draw, draw')) (msg, Handle_init) node =
        Inr (Some (line @ [CHR 0x0A]),
             if all_node_ids node = [] \<and> self_node_id node = '''' then node\<lparr>all_node_ids := ids, self_node_id := s\<rparr> else node) \<and>
      message_parse line = Inr (Some q) \<and> msg_type q = INIT_RES \<and> msg_from q = msg_to msg \<and> msg_to q = msg_from msg \<and>
      json_index (body q) ''in_reply_to'' =
        (if is_valid (msg_id msg) then snowflake_as_json (msg_id msg) else Inl Assertion_failed)"
  by (rule init_task [OF assms])

definition init_message :: message where
  "init_message = \<lparr>msg_type = INIT_REQ, msg_id = \<lparr>m_most_sig = 1, m_least_sig = 0\<rparr>, reply_id = invalid_snowflake,
     msg_from = ''c0'', msg_to = ''n1'',
     body = JObject [(''msg_id'', JUnsigned 1), (''node_id'', JString ''n1''),
       (''node_ids'', JArray [JString ''n1'', JString ''n2'']), (''type'', JString ''init'')]\<rparr>"

definition init_line :: string where
  "init_line = json_print (JObject [(''body'', JObject [(''msg_id'', JUnsigned 1), (''node_id'', JString ''n1''),
     (''node_ids'', JArray [JString ''n1'', JString ''n2'']), (''type'', JString ''init'')]),
     (''dest'', JString ''n1''), (''src'', JString ''c0'')])"

lemma init_line_parse: "message_parse init_line = Inr (Some init_message)"
  unfolding init_line_def by (rule message_parse_print) code_simp+

theorem init_reply_witness:
  "\<exists>line q. run_task (invoke_callback (1, 2)) (init_message, Handle_init) main_node =
       Inr (Some (line @ [CHR 0x0A]), main_node\<lparr>all_node_ids := [''n1'', ''n2''], self_node_id := ''n1''\<rparr>) \<and>
     message_parse line = Inr (Some q) \<and> msg_type q = INIT_RES \<and> msg_to q = ''c0'' \<and>
     json_index (body q) ''in_reply_to'' = Inr (JUnsigned 1)"
proof -
  have "msg_type init_message = INIT_REQ" "msg_from init_message = ''c0''"
    "json_index (body init_message) ''node_id'' = Inr (JString ''n1'')"
    "json_index (body init_message) ''node_ids'' = Inr (JArray (map JString [''n1'', ''n2'']))"
    "is_valid (msg_id init_message)" "snowflake_as_json (msg_id init_message) = Inr (JUnsigned 1)"
    "all_node_ids main_node = []" "self_node_id main_node = ''''" by code_simp+
  then show ?thesis
    using init_reply [OF init_line_parse, of "''n1''" "[''n1'', ''n2'']" 1 2 main_node] by auto
qed

section \<open>Dispatch\<close>

text \<open>What is parsed can be logged, so of the ways in which reading an identifier fails two remain.\<close>

definition bad_id :: "json \<Rightarrow> string \<Rightarrow> failure \<Rightarrow> bool" where
  "bad_id b k e \<longleftrightarrow> poison_id b k \<and> e = Type_error 302 \<or> undecodable_id b k \<and> e = Undefined_behaviour"

lemma parsed_texts: "parsed_ok j \<Longrightarrow> binary_free j \<and> texts_ok j"
  by (induction j rule: parsed_ok.induct) (auto simp: list_all_iff)

lemma id_failure_parsed: "parsed_ok b \<Longrightarrow> id_failure b k e \<longleftrightarrow> bad_id b k e"
proof -
  assume b: "parsed_ok b"
  have "\<not> unloggable_id b k" using json_index_parsed [OF _ b] parsed_texts unfolding unloggable_id_def by blast
  then show ?thesis by (simp add: id_failure_def bad_id_def)
qed

lemma message_parse_stops:
  "message_parse raw = Inl e \<longleftrightarrow>
     (\<exists>j from to b t. rd_document raw = Some j \<and> message_shape j from to b t \<and>
        (bad_id b ''msg_id'' e \<or> (\<nexists>e'. bad_id b ''msg_id'' e') \<and> bad_id b ''is_reply_to'' e))"
proof (cases "rd_document raw")
  case None
  then show ?thesis by (simp add: message_parse_def json_parse_document is_discarded_def)
next
  case (Some j)
  obtain j' where "json_parse raw False = Inr j'" "j' = JDiscarded \<or> parsed_ok j'" using json_parse_total by blast
  then have j: "j = JDiscarded \<or> parsed_ok j" using Some by (simp add: json_parse_document)
  show ?thesis
  proof (cases "j = JDiscarded")
    case True
    then show ?thesis
      using Some by (auto simp: message_parse_def json_parse_document is_discarded_def message_shape_def json_index_def)
  next
    case False
    then have ok: "parsed_ok j" using j by simp
    then have "\<not> is_discarded j" by (cases j) (auto simp: is_discarded_def)
    then have "message_parse raw = message_from_json j" using Some by (simp add: message_parse_def json_parse_document)
    moreover have "id_failure b k e = bad_id b k e" if "message_shape j f to b t" for f to b t k e
      using that id_failure_parsed json_index_parsed [OF _ ok] by (auto simp: message_shape_def)
    moreover have "binary_free j" using parsed_texts ok by blast
    ultimately show ?thesis using Some message_from_json_stops_iff [of j e] by (metis option.inject)
  qed
qed

lemma dispatch_task_parse:
  "dispatch_task raw node =
    (case message_parse raw of
       Inl e \<Rightarrow> Inl e
     | Inr None \<Rightarrow> Inr None
     | Inr (Some msg) \<Rightarrow>
         if self_node_id node = '''' \<and> msg_type msg \<noteq> INIT_REQ then Inr None
         else Inr (map_option (\<lambda>h. (msg, h)) (handler_map node (msg_type msg))))"
  using message_log [of raw] by (auto simp: dispatch_task_def split: sum.split option.split)

text \<open>C17. Which lines end the process: the dispatcher stops with type error 302 exactly when the line is a JSON document of a message in which \<open>msg_id\<close> or, if
  that can be read, \<open>is_reply_to\<close> is a two-element array that does not start with a number; and its behaviour is
  undefined exactly when the field is a text whose base64 decoding leaves a one over.  No
  other text of any kind can stop it, and there is no other failure.\<close>
theorem dispatch_message_stops:
  "dispatch_message raw node = Inl e \<longleftrightarrow>
     (\<exists>j from to b t. rd_document raw = Some j \<and> message_shape j from to b t \<and>
        (bad_id b ''msg_id'' e \<or> (\<nexists>e'. bad_id b ''msg_id'' e') \<and> bad_id b ''is_reply_to'' e))"
proof -
  have "dispatch_message raw node = Inl e \<longleftrightarrow> message_parse raw = Inl e"
    using dispatch_task_parse [of raw node]
    by (auto simp: dispatch_message_def ebind_def split: sum.splits option.splits if_splits)
  then show ?thesis using message_parse_stops by simp
qed

text \<open>C18. Which lines become tasks: a line appends to the queue the pair of its message and the handler for its type if
  the line is a message, the node is initialised or the message is an init request, and a
  handler is registered; every other line that does not end the process leaves the node as it is.\<close>
theorem dispatch_message_queue:
  assumes "dispatch_message raw node = Inr node'"
  shows "if \<exists>msg h. message_parse raw = Inr (Some msg) \<and> handler_map node (msg_type msg) = Some h \<and>
              (self_node_id node \<noteq> '''' \<or> msg_type msg = INIT_REQ)
    then \<exists>msg h. message_parse raw = Inr (Some msg) \<and> handler_map node (msg_type msg) = Some h \<and>
           node' = node\<lparr>task_queue := task_queue node @ [(msg, h)]\<rparr>
    else node' = node"
  using assms dispatch_task_parse [of raw node]
  by (auto simp: dispatch_message_def push_task_def split: sum.splits option.splits if_splits)

theorem dispatch_message_queue_witness:
  "dispatch_message init_line main_node = Inr (main_node\<lparr>task_queue := [(init_message, Handle_init)]\<rparr>)"
proof -
  have h: "handler_map main_node (msg_type init_message) = Some Handle_init" "msg_type init_message = INIT_REQ"
    "task_queue main_node = []" by code_simp+
  obtain node' where n: "dispatch_message init_line main_node = Inr node'"
    using dispatch_task_parse [of init_line main_node] init_line_parse h
    by (auto simp: dispatch_message_def)
  then show ?thesis using dispatch_message_queue [OF n] init_line_parse h n by auto
qed

end
