(* ===== verification/Node_Threads.thy ===== *)
theory Node_Threads
  imports Node "HOL-Library.Multiset" "HOL-Library.Sublist"
begin

text \<open>
  The threads of a node (\<open>Node::run\<close>, \<open>Node::worker_loop\<close> of \<^verbatim>\<open>src/src/common/node.cpp\<close>) as a
  transition system.  The state holds the node, the mutex \<open>mutex_thread_tasks\<close>, where each thread is in its
  code, the lines still to be read and the lines written.  A step is one action of one thread
  between two points at which another thread can interfere: a lock operation, a blocking wait, a read or write of the
  atomic \<open>state\<close>, a critical section, an access to the names of the node, the writing of a response (under
  \<open>mutex_write_response\<close>).  The names (\<open>all_node_ids\<close>, \<open>self_node_id\<close>) are not protected by a lock: each of the two tests and the
  two assignments of \<open>Node::init\<close> is a step of its own, and so is the test of \<open>self_node_id\<close> in
  \<open>dispatch_message\<close>, so that the threads can overlap there.  Everything else a handler does is local to its thread and belongs to the
  step next to it.  The memory accesses of one such step are taken to happen at once; what C++ allows beyond that when
  two of them collide (a data race) is not modelled.
  \<open>dispatched\<close>, \<open>taken\<close> and \<open>finished\<close> record the history and influence nothing.
\<close>

section \<open>State\<close>

type_synonym task = "message \<times> callback"

datatype thread = Main_thread | Worker nat

datatype main_state =
    M_spawn           \<comment> \<open>in the loop that starts the workers\<close>
  | M_read            \<comment> \<open>at the loop condition, before \<open>getline\<close>\<close>
  | M_lock task       \<comment> \<open>before \<open>unique_lock lock(mutex_thread_tasks)\<close>\<close>
  | M_push task       \<comment> \<open>holding the mutex, before \<open>task_queue.emplace\<close>\<close>
  | M_notify          \<comment> \<open>before \<open>notify_one\<close>\<close>
  | M_notify_all      \<comment> \<open>after the loop, before \<open>notify_all\<close>\<close>
  | M_join nat        \<comment> \<open>before \<open>join\<close> of a worker\<close>
  | M_finished

text \<open>Where a worker is inside the handler of its task; the lists and numbers are the arguments of \<open>Node::init\<close>.\<close>

datatype handler_state =
    H_start                       \<comment> \<open>before the log line of the task\<close>
  | H_test_ids "string list" nat  \<comment> \<open>in \<open>init\<close>, before \<open>all_node_ids.empty()\<close>\<close>
  | H_test_name "string list" nat \<comment> \<open>\<open>all_node_ids\<close> was empty, before \<open>self_node_id.empty()\<close>\<close>
  | H_set_ids "string list" nat   \<comment> \<open>both were empty, before \<open>all_node_ids = std::move(all_nodes)\<close>\<close>
  | H_set_name nat                \<comment> \<open>before \<open>self_node_id = all_node_ids.at(self_index)\<close>\<close>

datatype worker_state =
    W_lock            \<comment> \<open>waiting for the mutex: at \<open>unique_lock queue_lock\<close>, or woken up inside \<open>wait\<close>\<close>
  | W_test            \<comment> \<open>holding the mutex, before the predicate of \<open>wait\<close>\<close>
  | W_block           \<comment> \<open>holding the mutex, predicate false, before blocking\<close>
  | W_wait            \<comment> \<open>blocked on \<open>queue_condition\<close>\<close>
  | W_take            \<comment> \<open>holding the mutex, predicate true\<close>
  | W_run task handler_state \<comment> \<open>with a task, inside its handler\<close>
  | W_write task message \<comment> \<open>with the response\<close>
  | W_done            \<comment> \<open>returned from \<open>worker_loop\<close>\<close>

record system =
  shared :: "callback node"
  task_mutex :: "thread option"
  main_thread :: main_state
  workers :: "worker_state list"
  stdin :: "string list"
  stdout :: "string list"
  crashed :: "failure option"
  dispatched :: "task list"
  taken :: "task list"
  finished :: "(task \<times> string option) list"

definition system_new :: "callback node \<Rightarrow> string list \<Rightarrow> system" where
  "system_new node lines =
     \<lparr>shared = node, task_mutex = None, main_thread = M_spawn, workers = [], stdin = lines, stdout = [],
      crashed = None, dispatched = [], taken = [], finished = []\<rparr>"

section \<open>The handler in steps\<close>

text \<open>What \<open>handle_init\<close> finds in the message before it calls \<open>init\<close>.\<close>

datatype init_plan = Reply_only | No_reply | Call_init "string list" nat

definition plan_init :: "message \<Rightarrow> failure + init_plan" where
  "plan_init msg =
     ebind (field_missing (body msg) ''node_id'' is_string)
      (\<lambda>missing.
         if missing then Inr Reply_only
         else
           ebind (json_index (body msg) ''node_id'')
            (\<lambda>v. ebind (get_string_view v)
             (\<lambda>self_id. ebind (json_index (body msg) ''node_ids'')
              (\<lambda>ids. ebind (get_string_vector ids)
               (\<lambda>node_ids. let idx = node_index self_id node_ids in
                  Inr (if idx = length node_ids then No_reply else Call_init node_ids idx))))))"

text \<open>
  One step of a handler: it goes on (\<open>Inl\<close>) or yields the response (\<open>Inr\<close>).  Only the init handler has
  more than one; the others do not touch the node.
\<close>

definition respond :: "u32 \<times> u32 \<Rightarrow> task \<Rightarrow> callback node \<Rightarrow> failure + (handler_state + message) \<times> callback node" where
  "respond draws t node = ebind (create_response (fst draws) (fst t)) (\<lambda>r. Inr (Inr r, node))"

text \<open>Inside \<open>Node::init\<close>.\<close>

fun init_step ::
  "u32 \<times> u32 \<Rightarrow> task \<Rightarrow> handler_state \<Rightarrow> callback node \<Rightarrow> failure + (handler_state + message) \<times> callback node"
where
  "init_step draws t (H_test_ids ids idx) node =
     (if all_node_ids node \<noteq> [] then respond draws t node else Inr (Inl (H_test_name ids idx), node))"
| "init_step draws t (H_test_name ids idx) node =
     (if self_node_id node \<noteq> '''' then respond draws t node else Inr (Inl (H_set_ids ids idx), node))"
| "init_step draws t (H_set_ids ids idx) node = Inr (Inl (H_set_name idx), node\<lparr>all_node_ids := ids\<rparr>)"
| "init_step draws t (H_set_name idx) node =
     (if idx < length (all_node_ids node) then respond draws t (node\<lparr>self_node_id := all_node_ids node ! idx\<rparr>)
      else Inl Std_out_of_range)"
| "init_step draws t H_start node = Inr (Inl H_start, node)"

fun handler_step ::
  "u32 \<times> u32 \<Rightarrow> task \<Rightarrow> handler_state \<Rightarrow> callback node \<Rightarrow> failure + (handler_state + message) \<times> callback node"
where
  "handler_step draws t H_start node =
     (if snd t = Handle_init then
        ebind (json_text (message_as_json (fst t)))
         (\<lambda>_. ebind (plan_init (fst t))
          (\<lambda>plan. case plan of
             Reply_only \<Rightarrow> respond draws t node
           | No_reply \<Rightarrow> Inr (Inr message_default, node)
           | Call_init ids idx \<Rightarrow> Inr (Inl (H_test_ids ids idx), node)))
      else ebind (invoke_task (invoke_callback draws) t node) (\<lambda>(r, node). Inr (Inr r, node)))"
| "handler_step draws t (H_test_ids ids idx) node = init_step draws t (H_test_ids ids idx) node"
| "handler_step draws t (H_test_name ids idx) node = init_step draws t (H_test_name ids idx) node"
| "handler_step draws t (H_set_ids ids idx) node = init_step draws t (H_set_ids ids idx) node"
| "handler_step draws t (H_set_name idx) node = init_step draws t (H_set_name idx) node"

fun after_step :: "task \<Rightarrow> handler_state + message \<Rightarrow> worker_state" where
  "after_step t (Inl h) = W_run t h"
| "after_step t (Inr r) = W_write t r"

section \<open>Steps\<close>

definition shut_down :: "system \<Rightarrow> system" where
  "shut_down s = s\<lparr>shared := node_stop (shared s), main_thread := M_notify_all\<rparr>"

text \<open>The end of \<open>dispatch_message\<close>, where a new task is put into the queue; \<open>w\<close> is the worker that \<open>notify_one\<close> picks.\<close>

fun enqueue_at :: "main_state \<Rightarrow> nat option \<Rightarrow> system \<Rightarrow> system option" where
  "enqueue_at (M_lock t) w s =
     (if task_mutex s = None then Some (s\<lparr>task_mutex := Some Main_thread, main_thread := M_push t\<rparr>) else None)"
| "enqueue_at (M_push t) w s =
     Some (s\<lparr>shared := push_task t (shared s), dispatched := dispatched s @ [t], task_mutex := None, main_thread := M_notify\<rparr>)"
| "enqueue_at M_notify w s =
     (if W_wait \<notin> set (workers s) then Some (s\<lparr>main_thread := M_read\<rparr>)
      else
        (case w of
           None \<Rightarrow> None
         | Some i \<Rightarrow>
             if i < length (workers s) \<and> workers s ! i = W_wait
             then Some (s\<lparr>workers := (workers s)[i := W_lock], main_thread := M_read\<rparr>) else None))"
| "enqueue_at _ w s = None"

text \<open>One step of the main thread.\<close>

fun main_at :: "main_state \<Rightarrow> nat option \<Rightarrow> system \<Rightarrow> system option" where
  "main_at M_spawn w s =
     (if worker_count (shared s) < 0 then Some (s\<lparr>crashed := Some Std_length_error\<rparr>)
      else if int (length (workers s)) < worker_count (shared s) then Some (s\<lparr>workers := workers s @ [W_lock]\<rparr>)
      else Some (s\<lparr>shared := (shared s)\<lparr>node_state := RUNNING\<rparr>, main_thread := M_read\<rparr>))"
| "main_at M_read w s =
     (if node_state (shared s) \<noteq> RUNNING then Some (s\<lparr>main_thread := M_notify_all\<rparr>)
      else
        (case stdin s of
           [] \<Rightarrow> Some (shut_down s)
         | buf # rest \<Rightarrow>
             if buf = '''' then Some (shut_down (s\<lparr>stdin := rest\<rparr>))
             else
               (case dispatch_task buf (shared s) of
                  Inl e \<Rightarrow> Some (s\<lparr>stdin := rest, crashed := Some e\<rparr>)
                | Inr None \<Rightarrow> Some (s\<lparr>stdin := rest\<rparr>)
                | Inr (Some t) \<Rightarrow> Some (s\<lparr>stdin := rest, main_thread := M_lock t\<rparr>))))"
| "main_at (M_lock t) w s = enqueue_at (M_lock t) w s"
| "main_at (M_push t) w s = enqueue_at (M_push t) w s"
| "main_at M_notify w s = enqueue_at M_notify w s"
| "main_at M_notify_all w s =
     Some (s\<lparr>workers := map (\<lambda>p. if p = W_wait then W_lock else p) (workers s), main_thread := M_join 0\<rparr>)"
| "main_at (M_join k) w s =
     (if k = length (workers s) then Some (s\<lparr>main_thread := M_finished\<rparr>)
      else if k < length (workers s) \<and> workers s ! k = W_done then Some (s\<lparr>main_thread := M_join (Suc k)\<rparr>)
      else None)"
| "main_at M_finished w s = None"

definition main_step :: "nat option \<Rightarrow> system \<Rightarrow> system option" where
  "main_step w s = (if crashed s = None then main_at (main_thread s) w s else None)"

definition set_worker :: "nat \<Rightarrow> worker_state \<Rightarrow> system \<Rightarrow> system" where
  "set_worker i p s = s\<lparr>workers := (workers s)[i := p]\<rparr>"

text \<open>One step of worker \<open>i\<close>; \<open>draws\<close> are the random numbers its handler sees.\<close>

fun worker_at :: "worker_state \<Rightarrow> u32 \<times> u32 \<Rightarrow> nat \<Rightarrow> system \<Rightarrow> system option" where
  "worker_at W_lock draws i s =
     (if task_mutex s = None then Some (set_worker i W_test (s\<lparr>task_mutex := Some (Worker i)\<rparr>)) else None)"
| "worker_at W_test draws i s =
     Some (set_worker i (if node_state (shared s) = SHUTDOWN \<or> task_queue (shared s) \<noteq> [] then W_take else W_block) s)"
| "worker_at W_block draws i s = Some (set_worker i W_wait (s\<lparr>task_mutex := None\<rparr>))"
| "worker_at W_wait draws i s = None"
| "worker_at W_take draws i s =
     (if node_state (shared s) = SHUTDOWN \<and> task_queue (shared s) = []
      then Some (set_worker i W_done (s\<lparr>task_mutex := None\<rparr>))
      else
        (case task_queue (shared s) of
           [] \<Rightarrow> Some (s\<lparr>crashed := Some Undefined_behaviour\<rparr>)
         | t # ts \<Rightarrow>
             Some (set_worker i (W_run t H_start)
               (s\<lparr>shared := (shared s)\<lparr>task_queue := ts\<rparr>, taken := taken s @ [t], task_mutex := None\<rparr>))))"
| "worker_at (W_run t h) draws i s =
     (case handler_step draws t h (shared s) of
        Inl e \<Rightarrow> Some (s\<lparr>crashed := Some e\<rparr>)
      | Inr (q, node) \<Rightarrow> Some (set_worker i (after_step t q) (s\<lparr>shared := node\<rparr>)))"
| "worker_at (W_write t r) draws i s =
     (case write_response r of
        Inl e \<Rightarrow> Some (s\<lparr>crashed := Some e\<rparr>)
      | Inr out \<Rightarrow>
          Some (set_worker i W_lock
            (s\<lparr>stdout := stdout s @ (case out of None \<Rightarrow> [] | Some line \<Rightarrow> [line]), finished := finished s @ [(t, out)]\<rparr>)))"
| "worker_at W_done draws i s = None"

definition worker_step :: "u32 \<times> u32 \<Rightarrow> nat \<Rightarrow> system \<Rightarrow> system option" where
  "worker_step draws i s =
     (if crashed s = None \<and> i < length (workers s) then worker_at (workers s ! i) draws i s else None)"

text \<open>A step of some thread; a blocked worker may also return from \<open>wait\<close> without a notification.\<close>

inductive system_step :: "system \<Rightarrow> system \<Rightarrow> bool" where
  main: "main_step w s = Some s' \<Longrightarrow> system_step s s'"
| worker: "worker_step draws i s = Some s' \<Longrightarrow> system_step s s'"

inductive spurious_step :: "system \<Rightarrow> system \<Rightarrow> bool" where
  spurious: "crashed s = None \<Longrightarrow> i < length (workers s) \<Longrightarrow> workers s ! i = W_wait \<Longrightarrow>
    spurious_step s (set_worker i W_lock s)"

inductive reachable :: "system \<Rightarrow> system \<Rightarrow> bool" for s0 where
  start: "reachable s0 s0"
| step: "reachable s0 s \<Longrightarrow> system_step s s' \<Longrightarrow> reachable s0 s'"
| wakeup: "reachable s0 s \<Longrightarrow> spurious_step s s' \<Longrightarrow> reachable s0 s'"

inductive_cases system_stepE: "system_step s s'"
inductive_cases spurious_stepE: "spurious_step s s'"

text \<open>
  The contract of an invariant: each kind of step keeps it.  Then it holds in every state that is reachable from
  a state in which it holds.
\<close>

locale thread_invariant =
  fixes inv :: "system \<Rightarrow> bool"
  assumes main_keeps: "inv s \<Longrightarrow> main_step w s = Some s' \<Longrightarrow> inv s'"
    and worker_keeps: "inv s \<Longrightarrow> worker_step draws i s = Some s' \<Longrightarrow> inv s'"
    and wakeup_keeps: "inv s \<Longrightarrow> i < length (workers s) \<Longrightarrow> workers s ! i = W_wait \<Longrightarrow> inv (set_worker i W_lock s)"
begin

lemma step_keeps: "inv s \<Longrightarrow> system_step s s' \<Longrightarrow> inv s'"
  by (auto elim!: system_stepE intro: main_keeps worker_keeps)

lemma reachable_inv: "reachable s0 s \<Longrightarrow> inv s0 \<Longrightarrow> inv s"
  by (induction rule: reachable.induct) (auto elim!: spurious_stepE intro: step_keeps wakeup_keeps)

end


section \<open>Invariants\<close>

named_theorems thread_defs "the steps of the threads"

declare main_step_def [thread_defs] worker_step_def [thread_defs] set_worker_def [thread_defs] shut_down_def [thread_defs]
  push_task_def [thread_defs] node_stop_def [thread_defs]

definition holds_mutex :: "worker_state \<Rightarrow> bool" where
  "holds_mutex p \<longleftrightarrow> p \<in> {W_test, W_block, W_take}"

fun running :: "worker_state \<Rightarrow> task list" where
  "running (W_run t h) = [t]"
| "running (W_write t r) = [t]"
| "running _ = []"

definition out_lines :: "(task \<times> string option) list \<Rightarrow> string list" where
  "out_lines done = concat (map (\<lambda>d. case snd d of None \<Rightarrow> [] | Some line \<Rightarrow> [line]) done)"

definition lock_inv :: "thread option \<Rightarrow> worker_state list \<Rightarrow> main_state \<Rightarrow> bool" where
  "lock_inv m ws ms \<longleftrightarrow>
     (\<forall>i. m = Some (Worker i) \<longleftrightarrow> i < length ws \<and> holds_mutex (ws ! i)) \<and>
     (m = Some Main_thread \<longleftrightarrow> (\<exists>t. ms = M_push t))"

definition lock_ok :: "system \<Rightarrow> bool" where
  "lock_ok s \<longleftrightarrow> lock_inv (task_mutex s) (workers s) (main_thread s)"

definition history_ok :: "system \<Rightarrow> bool" where
  "history_ok s \<longleftrightarrow>
     dispatched s = taken s @ task_queue (shared s) \<and>
     mset (taken s) = mset (map fst (finished s)) + mset (concat (map running (workers s))) \<and>
     stdout s = out_lines (finished s)"

definition workers_started :: "system \<Rightarrow> bool" where
  "workers_started s \<longleftrightarrow> int (length (workers s)) = worker_count (shared s)"

definition phase_ok :: "system \<Rightarrow> bool" where
  "phase_ok s \<longleftrightarrow> 0 < worker_count (shared s) \<and>
     (case main_thread s of
        M_spawn \<Rightarrow> node_state (shared s) = STARTING \<and> task_queue (shared s) = [] \<and>
          int (length (workers s)) \<le> worker_count (shared s)
      | M_notify_all \<Rightarrow> node_state (shared s) = SHUTDOWN \<and> workers_started s
      | M_join k \<Rightarrow> node_state (shared s) = SHUTDOWN \<and> workers_started s \<and> k \<le> length (workers s) \<and>
          (\<forall>j<k. workers s ! j = W_done)
      | M_finished \<Rightarrow> node_state (shared s) = SHUTDOWN \<and> workers_started s \<and> (\<forall>j<length (workers s). workers s ! j = W_done)
      | _ \<Rightarrow> node_state (shared s) = RUNNING \<and> workers_started s)"

text \<open>What a step of a handler may change of the node.\<close>

definition same_but_names :: "callback node \<Rightarrow> callback node \<Rightarrow> bool" where
  "same_but_names node node' \<longleftrightarrow> task_queue node' = task_queue node \<and> node_state node' = node_state node \<and>
     worker_count node' = worker_count node \<and> handler_map node' = handler_map node"

lemma invoke_other_handler:
  assumes "h \<noteq> Handle_init" "invoke_callback draws h msg node = Inr (r, node')"
  shows "node' = node"
  using assms by (cases draws; cases h) (auto simp: result_simps)

lemma handler_start_local:
  assumes "handler_step draws t H_start node = Inr (q, node')"
  shows "node' = node"
proof (cases "snd t = Handle_init")
  case True
  then obtain plan where "plan_init (fst t) = Inr plan" using assms by (auto simp: result_simps)
  then show ?thesis using assms True by (cases plan) (auto simp: result_simps respond_def)
next
  case False
  then show ?thesis
    using assms invoke_other_handler [of "snd t" draws "fst t" node] by (auto simp: result_simps invoke_task_def)
qed

lemma handler_step_cases:
  assumes "handler_step draws t h node = Inr (q, node')"
  obtains
    (local) "node' = node"
  | (ids) ids idx where "h = H_set_ids ids idx" "q = Inl (H_set_name idx)" "node' = node\<lparr>all_node_ids := ids\<rparr>"
  | (name) idx r where "h = H_set_name idx" "q = Inr r" "idx < length (all_node_ids node)"
      "node' = node\<lparr>self_node_id := all_node_ids node ! idx\<rparr>"
proof (cases h)
  case H_start
  then show thesis using assms handler_start_local local by blast
qed (use assms in \<open>auto simp: result_simps respond_def split: if_splits intro: local ids name\<close>)

lemma handler_step_frame: "handler_step draws t h node = Inr (q, node') \<Longrightarrow> same_but_names node node'"
  by (erule handler_step_cases) (auto simp: same_but_names_def)

lemma running_after [simp]: "running (after_step t q) = [t]"
  by (cases q) auto

lemma mset_running_update:
  "i < length ws \<Longrightarrow> mset (concat (map running (ws[i := p]))) + mset (running (ws ! i)) = mset (concat (map running ws)) + mset (running p)"
  by (induction ws arbitrary: i) (auto split: nat.splits simp: add.commute add.left_commute)

lemma out_lines_append [simp]: "out_lines (ds @ [(t, out)]) = out_lines ds @ (case out of None \<Rightarrow> [] | Some line \<Rightarrow> [line])"
  by (simp add: out_lines_def)

lemma running_wake: "map (running \<circ> (\<lambda>p. if p = W_wait then W_lock else p)) ws = map running ws"
  by (induction ws) auto

subsection \<open>The steps by case\<close>

lemma worker_stepE:
  assumes "worker_step draws i s = Some s'"
  obtains
    (lock) "i < length (workers s)" "workers s ! i = W_lock" "task_mutex s = None"
      "s' = s\<lparr>task_mutex := Some (Worker i), workers := (workers s)[i := W_test]\<rparr>"
  | (ready) "i < length (workers s)" "workers s ! i = W_test" "node_state (shared s) = SHUTDOWN \<or> task_queue (shared s) \<noteq> []"
      "s' = s\<lparr>workers := (workers s)[i := W_take]\<rparr>"
  | (idle) "i < length (workers s)" "workers s ! i = W_test" "node_state (shared s) \<noteq> SHUTDOWN" "task_queue (shared s) = []"
      "s' = s\<lparr>workers := (workers s)[i := W_block]\<rparr>"
  | (block) "i < length (workers s)" "workers s ! i = W_block"
      "s' = s\<lparr>task_mutex := None, workers := (workers s)[i := W_wait]\<rparr>"
  | (leave) "i < length (workers s)" "workers s ! i = W_take" "node_state (shared s) = SHUTDOWN" "task_queue (shared s) = []"
      "s' = s\<lparr>task_mutex := None, workers := (workers s)[i := W_done]\<rparr>"
  | (take) t ts where "i < length (workers s)" "workers s ! i = W_take" "task_queue (shared s) = t # ts"
      "s' = s\<lparr>shared := (shared s)\<lparr>task_queue := ts\<rparr>, taken := taken s @ [t], task_mutex := None,
              workers := (workers s)[i := W_run t H_start]\<rparr>"
  | (run) t h q node where "i < length (workers s)" "workers s ! i = W_run t h"
      "handler_step draws t h (shared s) = Inr (q, node)"
      "s' = s\<lparr>shared := node, workers := (workers s)[i := after_step t q]\<rparr>"
  | (finish) t r out where "i < length (workers s)" "workers s ! i = W_write t r" "write_response r = Inr out"
      "s' = s\<lparr>stdout := stdout s @ (case out of None \<Rightarrow> [] | Some line \<Rightarrow> [line]), finished := finished s @ [(t, out)],
              workers := (workers s)[i := W_lock]\<rparr>"
  | (crash) e where "i < length (workers s)" "s' = s\<lparr>crashed := Some e\<rparr>"
      "workers s ! i = W_take \<Longrightarrow> node_state (shared s) \<noteq> SHUTDOWN \<and> task_queue (shared s) = []"
proof -
  have i: "i < length (workers s)" and at: "worker_at (workers s ! i) draws i s = Some s'"
    using assms by (auto simp: worker_step_def split: if_splits)
  show thesis
  proof (cases "workers s ! i")
    case (W_run t h)
    then show thesis using at i by (auto simp: set_worker_def split: sum.splits intro: run crash)
  next
    case (W_write t r)
    then show thesis using at i by (auto simp: set_worker_def split: sum.splits intro: finish crash)
  next
    case W_take
    then show thesis using at i by (auto simp: set_worker_def split: if_splits list.splits intro: leave take crash)
  qed (use at i in \<open>auto simp: set_worker_def split: if_splits intro: lock ready idle block\<close>)
qed

lemma main_stepE:
  assumes "main_step w s = Some s'"
  obtains
    (spawn) "main_thread s = M_spawn" "int (length (workers s)) < worker_count (shared s)" "s' = s\<lparr>workers := workers s @ [W_lock]\<rparr>"
  | (start) "main_thread s = M_spawn" "worker_count (shared s) \<le> int (length (workers s))"
      "s' = s\<lparr>shared := (shared s)\<lparr>node_state := RUNNING\<rparr>, main_thread := M_read\<rparr>"
  | (stopped) "main_thread s = M_read" "node_state (shared s) \<noteq> RUNNING" "s' = s\<lparr>main_thread := M_notify_all\<rparr>"
  | (quit) rest where "main_thread s = M_read" "node_state (shared s) = RUNNING" "stdin s = [] \<and> rest = [] \<or> stdin s = [] # rest"
      "s' = s\<lparr>stdin := rest, shared := (shared s)\<lparr>node_state := SHUTDOWN\<rparr>, main_thread := M_notify_all\<rparr>"
  | (ignore) buf rest where "main_thread s = M_read" "node_state (shared s) = RUNNING" "stdin s = buf # rest" "buf \<noteq> []"
      "dispatch_task buf (shared s) = Inr None" "s' = s\<lparr>stdin := rest\<rparr>"
  | (accept) buf rest t where "main_thread s = M_read" "node_state (shared s) = RUNNING" "stdin s = buf # rest" "buf \<noteq> []"
      "dispatch_task buf (shared s) = Inr (Some t)" "s' = s\<lparr>stdin := rest, main_thread := M_lock t\<rparr>"
  | (lock) t where "main_thread s = M_lock t" "task_mutex s = None"
      "s' = s\<lparr>task_mutex := Some Main_thread, main_thread := M_push t\<rparr>"
  | (push) t where "main_thread s = M_push t"
      "s' = s\<lparr>shared := (shared s)\<lparr>task_queue := task_queue (shared s) @ [t]\<rparr>, dispatched := dispatched s @ [t],
              task_mutex := None, main_thread := M_notify\<rparr>"
  | (notify_none) "main_thread s = M_notify" "W_wait \<notin> set (workers s)" "s' = s\<lparr>main_thread := M_read\<rparr>"
  | (notify_one) i where "main_thread s = M_notify" "i < length (workers s)" "workers s ! i = W_wait"
      "s' = s\<lparr>workers := (workers s)[i := W_lock], main_thread := M_read\<rparr>"
  | (notify_all) "main_thread s = M_notify_all"
      "s' = s\<lparr>workers := map (\<lambda>p. if p = W_wait then W_lock else p) (workers s), main_thread := M_join 0\<rparr>"
  | (join) k where "main_thread s = M_join k" "k < length (workers s)" "workers s ! k = W_done"
      "s' = s\<lparr>main_thread := M_join (Suc k)\<rparr>"
  | (joined) k where "main_thread s = M_join k" "k = length (workers s)" "s' = s\<lparr>main_thread := M_finished\<rparr>"
  | (crash) e rest where "main_thread s \<in> {M_spawn, M_read}" "s' = s\<lparr>stdin := rest, crashed := Some e\<rparr>"
      "main_thread s = M_spawn \<Longrightarrow> worker_count (shared s) < 0" "suffix rest (stdin s)"
proof -
  have at: "main_at (main_thread s) w s = Some s'"
    using assms by (auto simp: main_step_def split: if_splits)
  show thesis
  proof (cases "main_thread s")
    case M_spawn
    then show thesis
      using at crash [of Std_length_error "stdin s"] by (auto split: if_splits intro: spawn start)
  next
    case M_read
    then show thesis
      using at quit [of "stdin s"] by (auto simp: shut_down_def node_stop_def suffix_Cons
        split: if_splits list.splits sum.splits option.splits intro: stopped quit ignore accept crash)
  next
    case (M_lock t)
    then show thesis using at by (auto split: if_splits intro: lock)
  next
    case (M_push t)
    then show thesis using at by (auto simp: push_task_def intro: push)
  next
    case M_notify
    then show thesis using at by (auto split: if_splits option.splits intro: notify_none notify_one)
  next
    case M_notify_all
    then show thesis using at by (auto intro: notify_all)
  next
    case (M_join k)
    then show thesis using at by (auto split: if_splits intro: join joined)
  qed (use at in auto)
qed


subsection \<open>Mutual exclusion\<close>

lemma holds_mutex_simps [simp]:
  "\<not> holds_mutex W_lock" "holds_mutex W_test" "holds_mutex W_block" "\<not> holds_mutex W_wait" "holds_mutex W_take"
  "\<not> holds_mutex (W_run t h)" "\<not> holds_mutex (W_write t r)" "\<not> holds_mutex W_done"
  by (auto simp: holds_mutex_def)

lemma holds_mutex_after [simp]: "\<not> holds_mutex (after_step t q)"
  by (cases q) auto

lemma lock_keep:
  assumes "lock_inv m ws ms" "i < length ws" "holds_mutex p = holds_mutex (ws ! i)"
  shows "lock_inv m (ws[i := p]) ms"
proof -
  have "holds_mutex (ws[i := p] ! j) = holds_mutex (ws ! j)" for j
    using assms(2,3) by (cases "j = i") auto
  then show ?thesis using assms(1) by (simp add: lock_inv_def)
qed

lemma lock_acquire:
  assumes "lock_inv None ws ms" "i < length ws" "holds_mutex p"
  shows "lock_inv (Some (Worker i)) (ws[i := p]) ms"
proof -
  have "j < length ws \<and> holds_mutex (ws[i := p] ! j) \<longleftrightarrow> j = i" for j
    using assms by (cases "j = i") (auto simp: lock_inv_def)
  then show ?thesis using assms(1) by (auto simp: lock_inv_def)
qed

lemma lock_release:
  assumes "lock_inv m ws ms" "i < length ws" "holds_mutex (ws ! i)" "\<not> holds_mutex p"
  shows "lock_inv None (ws[i := p]) ms"
proof -
  have m: "m = Some (Worker i)" using assms by (auto simp: lock_inv_def)
  then have "\<not> (j < length ws \<and> holds_mutex (ws[i := p] ! j))" for j
    using assms by (cases "j = i") (auto simp: lock_inv_def)
  then show ?thesis using assms(1) m by (auto simp: lock_inv_def)
qed

lemma lock_main:
  assumes "lock_inv m ws ms" "\<And>t. ms \<noteq> M_push t" "\<And>t. ms' \<noteq> M_push t"
  shows "lock_inv m ws ms'"
  using assms by (simp add: lock_inv_def)

lemma lock_main_acquire: "lock_inv None ws (M_lock t) \<Longrightarrow> lock_inv (Some Main_thread) ws (M_push t)"
  by (simp add: lock_inv_def)

lemma lock_main_release: "lock_inv m ws (M_push t) \<Longrightarrow> lock_inv None ws M_notify"
  by (cases "m = Some Main_thread") (simp_all add: lock_inv_def)

lemma lock_workers:
  assumes "lock_inv m ws ms" "\<And>i. i < length ws' \<and> holds_mutex (ws' ! i) \<longleftrightarrow> i < length ws \<and> holds_mutex (ws ! i)"
  shows "lock_inv m ws' ms"
  using assms by (simp add: lock_inv_def)

lemma lock_ok_worker:
  assumes "lock_ok s" "worker_step draws i s = Some s'"
  shows "lock_ok s'"
  using assms(2)
  by (cases rule: worker_stepE) (use assms(1) in \<open>auto simp: lock_ok_def intro: lock_keep lock_acquire lock_release\<close>)

lemma lock_ok_main:
  assumes "lock_ok s" "main_step w s = Some s'"
  shows "lock_ok s'"
  using assms(2)
proof (cases rule: main_stepE)
  case spawn
  have "i < length (workers s @ [W_lock]) \<and> holds_mutex ((workers s @ [W_lock]) ! i) \<longleftrightarrow>
      i < length (workers s) \<and> holds_mutex (workers s ! i)" for i
    by (auto simp: nth_append less_Suc_eq)
  then show ?thesis using assms(1) spawn lock_workers by (simp add: lock_ok_def)
next
  case (notify_one i)
  then show ?thesis using assms(1) lock_keep [of _ "workers s" M_read i W_lock] lock_main [of _ "workers s" M_notify M_read]
    by (simp add: lock_ok_def)
next
  case notify_all
  let ?ws = "map (\<lambda>p. if p = W_wait then W_lock else p) (workers s)"
  have "i < length ?ws \<and> holds_mutex (?ws ! i) \<longleftrightarrow> i < length (workers s) \<and> holds_mutex (workers s ! i)" for i by (auto split: if_splits)
  then have "lock_inv (task_mutex s) ?ws M_notify_all" using assms(1) notify_all lock_workers by (simp add: lock_ok_def)
  then show ?thesis using notify_all lock_main [of _ ?ws M_notify_all "M_join 0"] by (simp add: lock_ok_def)
next
  case (push t)
  then show ?thesis using assms(1) lock_main_release by (simp add: lock_ok_def)
next
  case (lock t)
  then show ?thesis using assms(1) lock_main_acquire by (simp add: lock_ok_def)
qed (use assms(1) in \<open>auto simp: lock_ok_def elim: lock_main\<close>)

subsection \<open>History\<close>

lemma history_ok_worker:
  assumes "history_ok s" "worker_step draws i s = Some s'"
  shows "history_ok s'"
  using assms(2)
proof (cases rule: worker_stepE)
  case (take t ts)
  then show ?thesis using assms(1) mset_running_update [of i "workers s" "W_run t H_start"] by (simp add: history_ok_def)
next
  case (run t h q node)
  then show ?thesis
    using assms(1) mset_running_update [of i "workers s" "after_step t q"] handler_step_frame [OF run(3)]
    by (simp add: history_ok_def same_but_names_def)
next
  case (finish t r out)
  then show ?thesis
    using assms(1) mset_running_update [of i "workers s" W_lock] by (simp add: history_ok_def)
next
  case (crash e)
  then show ?thesis using assms(1) by (simp add: history_ok_def)
next
  case lock
  then show ?thesis using assms(1) mset_running_update [of i "workers s" W_test] by (simp add: history_ok_def)
next
  case ready
  then show ?thesis using assms(1) mset_running_update [of i "workers s" W_take] by (simp add: history_ok_def)
next
  case idle
  then show ?thesis using assms(1) mset_running_update [of i "workers s" W_block] by (simp add: history_ok_def)
next
  case block
  then show ?thesis using assms(1) mset_running_update [of i "workers s" W_wait] by (simp add: history_ok_def)
next
  case leave
  then show ?thesis using assms(1) mset_running_update [of i "workers s" W_done] by (simp add: history_ok_def)
qed

lemma history_ok_main:
  assumes "history_ok s" "main_step w s = Some s'"
  shows "history_ok s'"
  using assms(2)
proof (cases rule: main_stepE)
  case (notify_one i)
  then show ?thesis using assms(1) mset_running_update [of i "workers s" W_lock] by (simp add: history_ok_def)
next
  case notify_all
  then show ?thesis using assms(1) by (simp add: history_ok_def running_wake del: map_eq_conv)
qed (use assms(1) in \<open>auto simp: history_ok_def\<close>)

subsection \<open>Phases of the main thread\<close>

lemma phase_ok_worker:
  assumes "phase_ok s" "worker_step draws i s = Some s'"
  shows "phase_ok s'"
  using assms(2)
proof (cases rule: worker_stepE)
  case (run t h q node)
  then show ?thesis
    using assms(1) handler_step_frame [OF run(3)]
    by (auto simp: phase_ok_def workers_started_def same_but_names_def nth_list_update split: main_state.splits)
qed (use assms(1) in \<open>auto simp: phase_ok_def workers_started_def nth_list_update split: main_state.splits\<close>)

lemma phase_ok_main:
  assumes "phase_ok s" "main_step w s = Some s'"
  shows "phase_ok s'"
  using assms(2)
proof (cases rule: main_stepE)
  case (join k)
  then show ?thesis using assms(1) by (auto simp: phase_ok_def workers_started_def less_Suc_eq)
qed (use assms(1) in \<open>auto simp: phase_ok_def workers_started_def\<close>)


subsection \<open>The queue and the workers\<close>

text \<open>What is known of a worker at each point, and that a task in the queue is never left alone.\<close>

definition worker_ok :: "callback node \<Rightarrow> worker_state \<Rightarrow> bool" where
  "worker_ok node p \<longleftrightarrow>
     (p = W_take \<longrightarrow> node_state node = SHUTDOWN \<or> task_queue node \<noteq> []) \<and>
     (p = W_block \<longrightarrow> task_queue node = []) \<and>
     (p = W_done \<longrightarrow> node_state node = SHUTDOWN \<and> task_queue node = [])"

definition active :: "worker_state \<Rightarrow> bool" where
  "active p \<longleftrightarrow> p \<noteq> W_wait \<and> p \<noteq> W_done"

definition queue_inv :: "callback node \<Rightarrow> worker_state list \<Rightarrow> main_state \<Rightarrow> bool" where
  "queue_inv node ws ms \<longleftrightarrow>
     (\<forall>p\<in>set ws. worker_ok node p) \<and> (task_queue node \<noteq> [] \<longrightarrow> ms = M_notify \<or> (\<exists>p\<in>set ws. active p))"

definition queue_ok :: "system \<Rightarrow> bool" where
  "queue_ok s \<longleftrightarrow> queue_inv (shared s) (workers s) (main_thread s)"

lemma worker_ok_simps [simp]:
  "worker_ok node W_lock" "worker_ok node W_test" "worker_ok node W_wait" "worker_ok node (W_run t h)" "worker_ok node (W_write t r)"
  "worker_ok node W_take \<longleftrightarrow> node_state node = SHUTDOWN \<or> task_queue node \<noteq> []"
  "worker_ok node W_block \<longleftrightarrow> task_queue node = []"
  "worker_ok node W_done \<longleftrightarrow> node_state node = SHUTDOWN \<and> task_queue node = []"
  by (auto simp: worker_ok_def)

lemma active_simps [simp]:
  "active W_lock" "active W_test" "active W_block" "\<not> active W_wait" "active W_take" "active (W_run t h)" "active (W_write t r)"
  "\<not> active W_done"
  by (auto simp: active_def)

lemma after_step_ok [simp]: "worker_ok node (after_step t q)" "active (after_step t q)"
  by (cases q; simp)+

lemma all_update: "\<forall>p\<in>set ws. P p \<Longrightarrow> P q \<Longrightarrow> \<forall>p\<in>set (ws[i := q]). P p"
  using set_update_subset_insert [of ws i q] by blast

lemma ex_update: "i < length ws \<Longrightarrow> P q \<Longrightarrow> \<exists>p\<in>set (ws[i := q]). P p"
  by (rule bexI [of _ q]) (auto simp: set_update_memI)

lemma queue_update:
  assumes "queue_inv node ws ms" "i < length ws" "worker_ok node p" "active p \<or> task_queue node = []"
  shows "queue_inv node (ws[i := p]) ms"
proof -
  have "\<forall>q\<in>set (ws[i := p]). worker_ok node q" using assms(1,3) by (intro all_update) (simp_all add: queue_inv_def)
  then show ?thesis using assms ex_update [of i ws active p] by (auto simp: queue_inv_def)
qed

lemma queue_frame:
  assumes "queue_inv node ws ms" "task_queue node' = task_queue node" "node_state node' = node_state node"
  shows "queue_inv node' ws ms"
  using assms by (simp add: queue_inv_def worker_ok_def)

lemma queue_main:
  assumes "queue_inv node ws ms" "ms \<noteq> M_notify"
  shows "queue_inv node ws ms'"
  using assms by (auto simp: queue_inv_def)

lemma holder_unique:
  "lock_ok s \<Longrightarrow> i < length (workers s) \<Longrightarrow> holds_mutex (workers s ! i) \<Longrightarrow> j < length (workers s) \<Longrightarrow>
   holds_mutex (workers s ! j) \<Longrightarrow> j = i"
  unfolding lock_ok_def lock_inv_def by (metis option.inject thread.inject)

text \<open>Taking a task does not falsify what is known of the other workers: none of them holds the mutex.\<close>

lemma others_not_holding:
  assumes "lock_ok s" "i < length (workers s)" "holds_mutex (workers s ! i)" "p \<in> set ((workers s)[i := q])" "p \<noteq> q"
  shows "\<not> holds_mutex p"
proof -
  obtain j where j: "j < length (workers s)" "p = (workers s)[i := q] ! j" using assms(4) by (auto simp: in_set_conv_nth)
  then have "j \<noteq> i" "p = workers s ! j" using assms(2,5) by (auto simp: nth_list_update split: if_splits)
  then show ?thesis using holder_unique [OF assms(1-3) j(1)] by auto
qed

lemma worker_ok_not_holding: "\<not> holds_mutex p \<Longrightarrow> p \<noteq> W_done \<Longrightarrow> worker_ok node p"
  by (cases p) auto

lemma queue_ok_worker:
  assumes "queue_ok s" "lock_ok s" "worker_step draws i s = Some s'"
  shows "queue_ok s'"
  using assms(3)
proof (cases rule: worker_stepE)
  case block
  then have "task_queue (shared s) = []" using assms(1) nth_mem [of i "workers s"] by (fastforce simp: queue_ok_def queue_inv_def)
  then show ?thesis using block assms(1) by (simp add: queue_ok_def queue_update)
next
  case (take t ts)
  have "worker_ok ((shared s)\<lparr>task_queue := ts\<rparr>) p" if p: "p \<in> set ((workers s)[i := W_run t H_start])" for p
  proof (cases "p = W_run t H_start")
    case False
    then have "\<not> holds_mutex p" using others_not_holding [OF assms(2) take(1) _ p] take(2) by simp
    moreover have "p \<in> set (workers s)" using p False set_update_subset_insert by fastforce
    then have "p \<noteq> W_done" using assms(1) take(3) by (auto simp: queue_ok_def queue_inv_def)
    ultimately show ?thesis by (rule worker_ok_not_holding)
  qed simp
  then show ?thesis using take ex_update [of i "workers s" active "W_run t H_start"] by (simp add: queue_ok_def queue_inv_def)
next
  case (run t h q node)
  then show ?thesis
    using assms(1) handler_step_frame [OF run(3)] queue_frame
      queue_update [of "shared s" "workers s" "main_thread s" i "after_step t q"]
    by (simp add: queue_ok_def same_but_names_def)
qed (use assms(1) in \<open>simp_all add: queue_ok_def queue_update\<close>)

text \<open>While the node runs no worker has returned.\<close>

lemma queue_ok_running: "queue_ok s \<Longrightarrow> node_state (shared s) \<noteq> SHUTDOWN \<Longrightarrow> W_done \<notin> set (workers s)"
  by (auto simp: queue_ok_def queue_inv_def)

lemma workers_nonempty: "phase_ok s \<Longrightarrow> main_thread s \<noteq> M_spawn \<Longrightarrow> workers s \<noteq> []"
  by (auto simp: phase_ok_def workers_started_def split: main_state.splits)

lemma workers_number: "phase_ok s \<Longrightarrow> main_thread s \<noteq> M_spawn \<Longrightarrow> nat (worker_count (shared s)) = length (workers s)"
  unfolding phase_ok_def workers_started_def by (auto split: main_state.splits)

lemma queue_ok_main:
  assumes "queue_ok s" "lock_ok s" "phase_ok s" "main_step w s = Some s'"
  shows "queue_ok s'"
  using assms(4)
proof (cases rule: main_stepE)
  case spawn
  then show ?thesis using assms(1) by (auto simp: queue_ok_def queue_inv_def)
next
  case start
  have "\<forall>p\<in>set (workers s). worker_ok (shared s) p" "task_queue (shared s) = []" "node_state (shared s) = STARTING"
    using assms(1,3) start(1) by (auto simp: queue_ok_def queue_inv_def phase_ok_def)
  then have "\<forall>p\<in>set (workers s). worker_ok ((shared s)\<lparr>node_state := RUNNING\<rparr>) p" by (fastforce simp: worker_ok_def)
  then show ?thesis using start \<open>task_queue (shared s) = []\<close> by (simp add: queue_ok_def queue_inv_def)
next
  case (quit rest)
  have "worker_ok (shared s) p \<Longrightarrow> worker_ok ((shared s)\<lparr>node_state := SHUTDOWN\<rparr>) p" for p
    by (auto simp: worker_ok_def)
  then show ?thesis using assms(1) quit by (auto simp: queue_ok_def queue_inv_def)
next
  case (push t)
  have "\<not> holds_mutex p" if p: "p \<in> set (workers s)" for p
  proof -
    have m: "task_mutex s = Some Main_thread" using assms(2) push(1) by (simp add: lock_ok_def lock_inv_def)
    obtain j where "j < length (workers s)" "p = workers s ! j" using p by (auto simp: in_set_conv_nth)
    then show ?thesis using assms(2) m by (auto simp: lock_ok_def lock_inv_def)
  qed
  moreover have "W_done \<notin> set (workers s)" using assms(1,3) push(1) by (intro queue_ok_running) (auto simp: phase_ok_def)
  ultimately have "\<forall>p\<in>set (workers s). worker_ok node p" for node by (metis worker_ok_not_holding)
  then show ?thesis using push by (simp add: queue_ok_def queue_inv_def)
next
  case notify_none
  have "W_done \<notin> set (workers s)" using assms(1,3) notify_none(1) by (intro queue_ok_running) (auto simp: phase_ok_def)
  moreover have "workers s \<noteq> []" using workers_nonempty assms(3) notify_none(1) by auto
  ultimately have "\<exists>p\<in>set (workers s). active p" using notify_none(2) by (metis active_def last_in_set)
  then show ?thesis using notify_none assms(1) by (simp add: queue_ok_def queue_inv_def)
next
  case (notify_one i)
  have "\<exists>p\<in>set ((workers s)[i := W_lock]). active p" using notify_one by (simp add: ex_update)
  moreover have "\<forall>p\<in>set ((workers s)[i := W_lock]). worker_ok (shared s) p"
    using assms(1) by (intro all_update) (simp_all add: queue_ok_def queue_inv_def)
  ultimately show ?thesis using notify_one by (simp add: queue_ok_def queue_inv_def)
next
  case notify_all
  have "worker_ok node p \<Longrightarrow> worker_ok node (if p = W_wait then W_lock else p)"
    "active p \<Longrightarrow> active (if p = W_wait then W_lock else p)" for node p by auto
  then show ?thesis using assms(1) notify_all by (fastforce simp: queue_ok_def queue_inv_def)
qed (use assms(1) in \<open>auto simp: queue_ok_def elim: queue_main\<close>)


subsection \<open>Reachable states\<close>

definition system_ok :: "system \<Rightarrow> bool" where
  "system_ok s \<longleftrightarrow> lock_ok s \<and> history_ok s \<and> phase_ok s \<and> queue_ok s"

interpretation ok: thread_invariant system_ok
proof
  show "system_ok s'" if "system_ok s" "main_step w s = Some s'" for w s s'
    using that(1) lock_ok_main [OF _ that(2)] history_ok_main [OF _ that(2)] phase_ok_main [OF _ that(2)]
      queue_ok_main [OF _ _ _ that(2)]
    by (simp add: system_ok_def)
  show "system_ok s'" if "system_ok s" "worker_step draws i s = Some s'" for draws i s s'
    using that(1) lock_ok_worker [OF _ that(2)] history_ok_worker [OF _ that(2)] phase_ok_worker [OF _ that(2)]
      queue_ok_worker [OF _ _ that(2)]
    by (simp add: system_ok_def)
  show "system_ok (set_worker i W_lock s)" if "system_ok s" "i < length (workers s)" "workers s ! i = W_wait" for i s
  proof -
    have "phase_ok (set_worker i W_lock s)"
      using that
      by (auto simp: system_ok_def phase_ok_def workers_started_def set_worker_def nth_list_update split: main_state.splits)
    moreover have "history_ok (set_worker i W_lock s)"
      using that mset_running_update [of i "workers s" W_lock] by (simp add: system_ok_def history_ok_def set_worker_def)
    ultimately show ?thesis
      using that by (simp add: system_ok_def lock_ok_def queue_ok_def set_worker_def lock_keep queue_update)
  qed
qed

lemma system_ok_new:
  assumes "0 < worker_count node" "node_state node = STARTING" "task_queue node = []"
  shows "system_ok (system_new node lines)"
  using assms
  by (simp add: system_ok_def system_new_def lock_ok_def lock_inv_def history_ok_def phase_ok_def queue_ok_def queue_inv_def
      workers_started_def out_lines_def)

lemma main_node_start [simp]:
  "worker_count main_node = 16" "node_state main_node = STARTING" "task_queue main_node = []" "self_node_id main_node = ''''"
  "all_node_ids main_node = []"
  by (simp_all add: main_node_def node_new_def register_handler_def)

lemma reachable_ok: "reachable (system_new main_node lines) s \<Longrightarrow> system_ok s"
  by (erule ok.reachable_inv) (rule system_ok_new; simp)

section \<open>Runs that must end\<close>

locale decreasing_steps =
  fixes step :: "'s \<Rightarrow> 's \<Rightarrow> bool" and inv :: "'s \<Rightarrow> bool" and weight :: "'s \<Rightarrow> nat"
  assumes inv_step: "inv s \<Longrightarrow> step s s' \<Longrightarrow> inv s'"
    and weight_step: "inv s \<Longrightarrow> step s s' \<Longrightarrow> weight s' < weight s"
begin

lemma run_inv: "step\<^sup>*\<^sup>* s s' \<Longrightarrow> inv s \<Longrightarrow> inv s'"
  by (induction rule: rtranclp_induct) (auto intro: inv_step)

lemma run_length: "(step ^^ n) s s' \<Longrightarrow> inv s \<Longrightarrow> inv s' \<and> n + weight s' \<le> weight s"
proof (induction n arbitrary: s')
  case (Suc n)
  then obtain t where t: "(step ^^ n) s t" "step t s'" by auto
  then have "inv t" "n + weight t \<le> weight s" using Suc by auto
  then show ?case using weight_step [OF _ t(2)] inv_step [OF _ t(2)] by auto
qed simp

lemma no_infinite_run: "inv (f 0) \<Longrightarrow> \<not> (\<forall>k. step (f k) (f (Suc k)))"
proof
  assume inv: "inv (f 0)" and run: "\<forall>k. step (f k) (f (Suc k))"
  have "(step ^^ k) (f 0) (f k)" for k by (induction k) (use run in auto)
  then have "Suc (weight (f 0)) \<le> weight (f 0)" using run_length inv le_add1 order_trans by metis
  then show False by simp
qed

end

fun handler_weight :: "handler_state \<Rightarrow> nat" where
  "handler_weight H_start = 5"
| "handler_weight (H_test_ids ids idx) = 4"
| "handler_weight (H_test_name ids idx) = 3"
| "handler_weight (H_set_ids ids idx) = 2"
| "handler_weight (H_set_name idx) = 1"

fun worker_weight :: "worker_state \<Rightarrow> nat" where
  "worker_weight W_done = 0"
| "worker_weight W_wait = 0"
| "worker_weight W_block = 1"
| "worker_weight W_take = 1"
| "worker_weight W_test = 2"
| "worker_weight W_lock = 3"
| "worker_weight (W_write t r) = 4"
| "worker_weight (W_run t h) = 4 + handler_weight h"

text \<open>\<open>n\<close> is the number of workers, \<open>l\<close> the number of lines left, \<open>k\<close> the number of workers started.\<close>

fun main_weight :: "nat \<Rightarrow> nat \<Rightarrow> nat \<Rightarrow> main_state \<Rightarrow> nat" where
  "main_weight n l k M_spawn = 16 * l + 4 * n + 4 + 4 * (n - k)"
| "main_weight n l k M_read = 16 * l + 4 * n + 3"
| "main_weight n l k (M_lock t) = 16 * l + 4 * n + 18"
| "main_weight n l k (M_push t) = 16 * l + 4 * n + 17"
| "main_weight n l k M_notify = 16 * l + 4 * n + 7"
| "main_weight n l k M_notify_all = 4 * n + 2"
| "main_weight n l k (M_join j) = Suc (n - j)"
| "main_weight n l k M_finished = 0"

definition system_weight :: "system \<Rightarrow> nat" where
  "system_weight s =
     (if crashed s = None
      then Suc (main_weight (nat (worker_count (shared s))) (length (stdin s)) (length (workers s)) (main_thread s) +
        9 * length (task_queue (shared s)) + sum_list (map worker_weight (workers s)))
      else 0)"

lemma sum_weight_update:
  "i < length ws \<Longrightarrow> sum_list (map worker_weight (ws[i := p])) + worker_weight (ws ! i) = sum_list (map worker_weight ws) + worker_weight p"
  by (induction ws arbitrary: i) (auto split: nat.splits)

lemma sum_weight_wake:
  "sum_list (map (worker_weight \<circ> (\<lambda>p. if p = W_wait then W_lock else p)) ws) \<le> sum_list (map worker_weight ws) + 3 * length ws"
  by (induction ws) auto

lemma handler_weight:
  assumes "handler_step draws t h node = Inr (q, node')"
  shows "worker_weight (after_step t q) < worker_weight (W_run t h)"
proof (cases q)
  case (Inr r)
  then show ?thesis by (cases h) auto
next
  case (Inl h')
  have "handler_weight h' < handler_weight h"
  proof (cases h)
    case H_start
    then have t: "snd t = Handle_init" using assms Inl by (auto simp: result_simps split: if_splits)
    then obtain plan where "plan_init (fst t) = Inr plan" using assms H_start by (auto simp: result_simps)
    then show ?thesis using assms t H_start Inl by (cases plan) (auto simp: result_simps respond_def)
  qed (use assms Inl in \<open>auto simp: result_simps respond_def split: if_splits\<close>)
  then show ?thesis using Inl by simp
qed

lemma weight_worker:
  assumes "worker_step draws i s = Some s'"
  shows "system_weight s' < system_weight s"
proof -
  have c: "crashed s = None" using assms by (auto simp: worker_step_def split: if_splits)
  from assms show ?thesis
  proof (cases rule: worker_stepE)
    case (run t h q node)
    then show ?thesis
      using c sum_weight_update [of i "workers s" "after_step t q"] handler_step_frame [OF run(3)] handler_weight [OF run(3)]
      by (simp add: system_weight_def same_but_names_def)
  next
    case lock
    then show ?thesis using c sum_weight_update [of i "workers s" W_test] by (simp add: system_weight_def)
  next
    case ready
    then show ?thesis using c sum_weight_update [of i "workers s" W_take] by (simp add: system_weight_def)
  next
    case idle
    then show ?thesis using c sum_weight_update [of i "workers s" W_block] by (simp add: system_weight_def)
  next
    case block
    then show ?thesis using c sum_weight_update [of i "workers s" W_wait] by (simp add: system_weight_def)
  next
    case leave
    then show ?thesis using c sum_weight_update [of i "workers s" W_done] by (simp add: system_weight_def)
  next
    case (take t ts)
    then show ?thesis using c sum_weight_update [of i "workers s" "W_run t H_start"] by (simp add: system_weight_def)
  next
    case (finish t r out)
    then show ?thesis using c sum_weight_update [of i "workers s" W_lock] by (simp add: system_weight_def)
  qed (use c in \<open>simp add: system_weight_def\<close>)
qed

lemma weight_main:
  assumes "phase_ok s" "main_step w s = Some s'"
  shows "system_weight s' < system_weight s"
proof -
  have c: "crashed s = None" using assms by (auto simp: main_step_def split: if_splits)
  from assms(2) show ?thesis
  proof (cases rule: main_stepE)
    case (notify_one i)
    then show ?thesis using c sum_weight_update [of i "workers s" W_lock] by (simp add: system_weight_def)
  next
    case notify_all
    then have "nat (worker_count (shared s)) = length (workers s)" using assms(1) workers_number by simp
    then show ?thesis using c notify_all sum_weight_wake [of "workers s"] by (simp add: system_weight_def)
  next
    case (quit rest)
    then show ?thesis using c by (auto simp: system_weight_def)
  next
    case (join k)
    then have "nat (worker_count (shared s)) = length (workers s)" using assms(1) workers_number by simp
    then show ?thesis using c join by (simp add: system_weight_def)
  next
    case stopped
    then show ?thesis using c by (simp add: system_weight_def)
  next
    case spawn
    then show ?thesis using c by (simp add: system_weight_def)
  next
    case start
    then show ?thesis using c by (simp add: system_weight_def)
  qed (use c in \<open>simp_all add: system_weight_def\<close>)
qed

interpretation threads: decreasing_steps system_step system_ok system_weight
proof
  show "system_ok s \<Longrightarrow> system_step s s' \<Longrightarrow> system_ok s'" for s s' by (rule ok.step_keeps)
  show "system_weight s' < system_weight s" if "system_ok s" "system_step s s'" for s s'
    using that(2)
  proof cases
    case (main w)
    then show ?thesis using that(1) weight_main by (simp add: system_ok_def)
  qed (rule weight_worker)
qed

section \<open>Where the threads can get stuck\<close>

text \<open>
  The state after a lost wake-up: the main thread waits for a worker that is still blocked on the condition
  variable, although the node has been shut down.
\<close>

definition lost_wakeup :: "system \<Rightarrow> bool" where
  "lost_wakeup s \<longleftrightarrow> crashed s = None \<and> node_state (shared s) = SHUTDOWN \<and> task_queue (shared s) = [] \<and> task_mutex s = None \<and>
     (\<forall>p\<in>set (workers s). p = W_wait \<or> p = W_done) \<and>
     (case main_thread s of M_join k \<Rightarrow> k < length (workers s) \<and> workers s ! k = W_wait | _ \<Rightarrow> False)"

lemma stuck_worker:
  assumes "\<not> (\<exists>s'. system_step s s')" "crashed s = None" "p \<in> set (workers s)"
  shows "p = W_wait \<or> p = W_done \<or> p = W_lock \<and> task_mutex s \<noteq> None"
proof -
  obtain i where i: "i < length (workers s)" "p = workers s ! i" using assms(3) by (auto simp: in_set_conv_nth)
  have "worker_step (0, 0) i s = None" using assms(1) worker by (meson not_Some_eq)
  then have "worker_at p (0, 0) i s = None" using i assms(2) by (simp add: worker_step_def)
  then show ?thesis by (cases p) (auto split: if_splits sum.splits list.splits)
qed

lemma stuck_main:
  assumes "\<not> (\<exists>s'. system_step s s')" "crashed s = None"
  shows "case main_thread s of
      M_lock t \<Rightarrow> task_mutex s \<noteq> None
    | M_join k \<Rightarrow> k \<noteq> length (workers s) \<and> (k < length (workers s) \<longrightarrow> workers s ! k \<noteq> W_done)
    | M_finished \<Rightarrow> True | _ \<Rightarrow> False"
proof -
  have n: "main_step w s = None" for w using assms(1) main by (meson not_Some_eq)
  then have at: "main_at (main_thread s) w s = None" for w using assms(2) by (simp add: main_step_def)
  show ?thesis
  proof (cases "main_thread s")
    case M_notify
    show ?thesis
    proof (cases "W_wait \<in> set (workers s)")
      case True
      then obtain i where "i < length (workers s)" "workers s ! i = W_wait" by (auto simp: in_set_conv_nth)
      then show ?thesis using at [of "Some i"] M_notify True by simp
    qed (use at [of None] M_notify in simp)
  next
    case M_read
    then show ?thesis using at [of None] by (auto split: if_splits list.splits sum.splits option.splits)
  qed (use at [of None] in \<open>auto split: if_splits\<close>)
qed

lemma stuck_mutex:
  assumes "\<not> (\<exists>s'. system_step s s')" "crashed s = None" "lock_ok s"
  shows "task_mutex s = None"
proof (cases "task_mutex s")
  case (Some th)
  show ?thesis
  proof (cases th)
    case Main_thread
    then show ?thesis using Some assms(3) stuck_main [OF assms(1,2)] by (auto simp: lock_ok_def lock_inv_def)
  next
    case (Worker i)
    then have i: "i < length (workers s)" "holds_mutex (workers s ! i)" using Some assms(3) by (auto simp: lock_ok_def lock_inv_def)
    then show ?thesis using stuck_worker [OF assms(1,2) nth_mem [OF i(1)]] by auto
  qed
qed

lemma stuck_idle:
  assumes "\<not> (\<exists>s'. system_step s s')" "crashed s = None" "system_ok s"
  shows "task_mutex s = None \<and> (\<forall>p\<in>set (workers s). p = W_wait \<or> p = W_done) \<and> task_queue (shared s) = [] \<and>
    (main_thread s = M_finished \<or> (\<exists>k. main_thread s = M_join k \<and> k < length (workers s) \<and> workers s ! k = W_wait)) \<and>
    node_state (shared s) = SHUTDOWN"
proof -
  have m: "task_mutex s = None" using stuck_mutex [OF assms(1,2)] assms(3) by (simp add: system_ok_def)
  then have w: "\<forall>p\<in>set (workers s). p = W_wait \<or> p = W_done" using stuck_worker [OF assms(1,2)] by blast
  have mn: "main_thread s = M_finished \<or> (\<exists>k. main_thread s = M_join k \<and> k < length (workers s) \<and> workers s ! k = W_wait)"
    using stuck_main [OF assms(1,2)] m w assms(3)
    by (cases "main_thread s") (auto simp: system_ok_def phase_ok_def)
  then have "main_thread s \<noteq> M_notify" "node_state (shared s) = SHUTDOWN" using assms(3) by (auto simp: system_ok_def phase_ok_def)
  moreover have "task_queue (shared s) = []"
    using w assms(3) \<open>main_thread s \<noteq> M_notify\<close> by (auto simp: system_ok_def queue_ok_def queue_inv_def active_def)
  ultimately show ?thesis using m w mn by blast
qed

lemma stuck_iff:
  assumes "system_ok s"
  shows "\<not> (\<exists>s'. system_step s s') \<longleftrightarrow> crashed s \<noteq> None \<or> main_thread s = M_finished \<or> lost_wakeup s"
proof
  assume st: "\<not> (\<exists>s'. system_step s s')"
  show "crashed s \<noteq> None \<or> main_thread s = M_finished \<or> lost_wakeup s"
  proof (cases "crashed s = None")
    case True
    then show ?thesis using stuck_idle [OF st True assms] by (auto simp: lost_wakeup_def)
  qed simp
next
  assume fin: "crashed s \<noteq> None \<or> main_thread s = M_finished \<or> lost_wakeup s"
  have w: "workers s ! i = W_wait \<or> workers s ! i = W_done" if "crashed s = None" "i < length (workers s)" for i
    using fin that assms nth_mem [OF that(2)] by (auto simp: lost_wakeup_def system_ok_def phase_ok_def)
  have "worker_step draws i s = None" for draws i using w [of i] by (auto simp: worker_step_def)
  moreover have "main_step w s = None" for w
    using fin by (auto simp: main_step_def lost_wakeup_def split: main_state.splits)
  ultimately show "\<not> (\<exists>s'. system_step s s')" by (auto elim!: system_stepE)
qed

lemma stuck_answered:
  assumes "\<not> (\<exists>s'. system_step s s')" "crashed s = None" "system_ok s"
  shows "mset (map fst (finished s)) = mset (dispatched s)"
proof -
  note idle = stuck_idle [OF assms]
  then have "map running (workers s) = map (\<lambda>_. []) (workers s)" by auto
  then have "concat (map running (workers s)) = []" by (simp add: concat_eq_Nil_conv)
  then show ?thesis using assms(3) idle by (simp add: system_ok_def history_ok_def)
qed

section \<open>Schedules\<close>

datatype event = Main_event "nat option" | Worker_event "u32 \<times> u32" nat

fun perform :: "event \<Rightarrow> system \<Rightarrow> system option" where
  "perform (Main_event w) s = main_step w s"
| "perform (Worker_event draws i) s = worker_step draws i s"

fun run_schedule :: "event list \<Rightarrow> system \<Rightarrow> system option" where
  "run_schedule [] s = Some s"
| "run_schedule (e # es) s = (case perform e s of None \<Rightarrow> None | Some s' \<Rightarrow> run_schedule es s')"

lemma run_schedule_steps: "run_schedule es s = Some s' \<Longrightarrow> system_step\<^sup>*\<^sup>* s s'"
proof (induction es s rule: run_schedule.induct)
  case (2 e es s)
  then obtain t where t: "perform e s = Some t" "system_step\<^sup>*\<^sup>* t s'" by (auto split: option.splits)
  then have "system_step s t" by (cases e) (auto intro: system_step.intros)
  then show ?case using t(2) by (rule converse_rtranclp_into_rtranclp)
qed simp

lemma reachable_steps: "system_step\<^sup>*\<^sup>* s s' \<Longrightarrow> reachable s0 s \<Longrightarrow> reachable s0 s'"
  by (induction rule: rtranclp_induct) (auto intro: step)

definition lost_wakeup_schedule :: "event list" where
  "lost_wakeup_schedule =
     replicate 17 (Main_event None) @ [Worker_event (0, 0) 0, Worker_event (0, 0) 0, Main_event None, Main_event None, Worker_event (0, 0) 0] @
     concat (map (\<lambda>i. replicate 3 (Worker_event (0, 0) i)) [1..<16])"

lemma lost_wakeup_run:
  "case run_schedule lost_wakeup_schedule (system_new main_node []) of None \<Rightarrow> False | Some s \<Rightarrow> lost_wakeup s"
  by code_simp


section \<open>Where tasks come from and what becomes of them\<close>

definition read_messages :: "string list \<Rightarrow> message list" where
  "read_messages lines = List.map_filter (\<lambda>l. case message_parse l of Inr m \<Rightarrow> m | Inl _ \<Rightarrow> None) lines"

fun pending :: "main_state \<Rightarrow> task list" where
  "pending (M_lock t) = [t]"
| "pending (M_push t) = [t]"
| "pending _ = []"

lemma read_messages_append [simp]: "read_messages (xs @ ys) = read_messages xs @ read_messages ys"
  by (simp add: read_messages_def map_filter_def)

lemma read_messages_one:
  "read_messages [l] = (case message_parse l of Inr (Some m) \<Rightarrow> [m] | _ \<Rightarrow> [])"
  by (simp add: read_messages_def map_filter_def split: sum.split option.split)

lemma read_messages_in: "m \<in> set (read_messages lines) \<Longrightarrow> \<exists>raw\<in>set lines. message_parse raw = Inr (Some m)"
  by (auto simp: read_messages_def map_filter_def split: sum.splits)

definition input_ok :: "string list \<Rightarrow> system \<Rightarrow> bool" where
  "input_ok lines s \<longleftrightarrow>
     (\<exists>pre. lines = pre @ stdin s \<and> subseq (map fst (dispatched s @ pending (main_thread s))) (read_messages pre)) \<and>
     handler_map (shared s) = handler_map main_node \<and>
     (\<forall>t\<in>set (dispatched s @ pending (main_thread s)). handler_map main_node (msg_type (fst t)) = Some (snd t))"

lemma dispatch_task_some:
  assumes "dispatch_task raw node = Inr (Some t)"
  shows "message_parse raw = Inr (Some (fst t)) \<and> handler_map node (msg_type (fst t)) = Some (snd t) \<and>
    (self_node_id node \<noteq> '''' \<or> msg_type (fst t) = INIT_REQ)"
proof -
  obtain m where m: "message_parse raw = Inr m"
    using assms by (cases "message_parse raw") (auto simp: dispatch_task_def)
  then obtain msg where msg: "m = Some msg" using assms by (cases m) (auto simp: dispatch_task_def)
  obtain l where "json_text (message_as_json msg) = Inr l"
    using assms m msg by (cases "json_text (message_as_json msg)") (auto simp: dispatch_task_def)
  then show ?thesis
    using assms m msg by (auto simp: dispatch_task_def split: if_splits option.splits)
qed

lemma input_ok_worker:
  assumes "input_ok lines s" "worker_step draws i s = Some s'"
  shows "input_ok lines s'"
  using assms(2)
proof (cases rule: worker_stepE)
  case (run t h q node)
  then show ?thesis using assms(1) handler_step_frame [OF run(3)] by (simp add: input_ok_def same_but_names_def)
qed (use assms(1) in \<open>simp_all add: input_ok_def\<close>)

lemma input_ok_main:
  assumes "input_ok lines s" "main_step w s = Some s'"
  shows "input_ok lines s'"
  using assms(2)
proof (cases rule: main_stepE)
  case (quit rest)
  obtain pre where pre: "lines = pre @ stdin s" "subseq (map fst (dispatched s)) (read_messages pre)"
    using assms(1) quit(1) by (auto simp: input_ok_def)
  have "\<exists>pre. lines = pre @ rest \<and> subseq (map fst (dispatched s)) (read_messages pre)"
  proof (cases "stdin s")
    case (Cons buf rest')
    then show ?thesis using pre quit(3) by (intro exI [of _ "pre @ [buf]"]) (auto intro: subseq_order.order_trans)
  qed (use pre quit(3) in auto)
  then show ?thesis using assms(1) quit by (simp add: input_ok_def)
next
  case (ignore buf rest)
  obtain pre where pre: "lines = pre @ stdin s" "subseq (map fst (dispatched s)) (read_messages pre)"
    using assms(1) ignore(1) by (auto simp: input_ok_def)
  then have "\<exists>pre. lines = pre @ rest \<and> subseq (map fst (dispatched s)) (read_messages pre)"
    using ignore(3) by (intro exI [of _ "pre @ [buf]"]) auto
  then show ?thesis using assms(1) ignore by (simp add: input_ok_def)
next
  case (accept buf rest t)
  obtain pre where pre: "lines = pre @ stdin s" "subseq (map fst (dispatched s)) (read_messages pre)"
    using assms(1) accept(1) by (auto simp: input_ok_def)
  have t: "read_messages [buf] = [fst t]" "handler_map (shared s) (msg_type (fst t)) = Some (snd t)"
    using dispatch_task_some [OF accept(5)] by (simp_all add: read_messages_one)
  have "\<exists>pre. lines = pre @ rest \<and> subseq (map fst (dispatched s @ [t])) (read_messages pre)"
    using pre accept(3) t(1) by (intro exI [of _ "pre @ [buf]"]) (auto simp: list_emb_append_mono)
  then show ?thesis using assms(1) accept t(2) by (auto simp: input_ok_def)
next
  case (crash e rest)
  obtain pre where pre: "lines = pre @ stdin s" "subseq (map fst (dispatched s)) (read_messages pre)"
    using assms(1) crash(1) by (auto simp: input_ok_def)
  obtain pre' where "stdin s = pre' @ rest" using crash(4) by (auto simp: suffix_def)
  then have "\<exists>pre. lines = pre @ rest \<and> subseq (map fst (dispatched s)) (read_messages pre)"
    using pre by (intro exI [of _ "pre @ pre'"]) auto
  moreover have "pending (main_thread s) = []" using crash(1) by auto
  ultimately show ?thesis using assms(1) crash(2) by (simp add: input_ok_def)
qed (use assms(1) in \<open>auto simp: input_ok_def\<close>)

interpretation input_order: thread_invariant "input_ok lines" for lines
  by unfold_locales (blast intro: input_ok_main, blast intro: input_ok_worker, simp add: input_ok_def set_worker_def)

lemma input_ok_reachable: "reachable (system_new main_node lines) s \<Longrightarrow> input_ok lines s"
  by (erule input_order.reachable_inv) (auto simp: input_ok_def system_new_def)

subsection \<open>Answers\<close>

text \<open>What a worker holds or has written was computed by the handler of its task.\<close>

definition responded :: "task \<Rightarrow> message \<Rightarrow> bool" where
  "responded t r \<longleftrightarrow> (\<exists>draws node node'. invoke_task (invoke_callback draws) t node = Inr (r, node'))"

definition answered :: "task \<Rightarrow> string option \<Rightarrow> bool" where
  "answered t out \<longleftrightarrow> (\<exists>draws node node'. run_task (invoke_callback draws) t node = Inr (out, node'))"

text \<open>Inside \<open>Node::init\<close>: the arguments come from the message of the task.\<close>

definition in_init :: "task \<Rightarrow> nat \<Rightarrow> bool" where
  "in_init t idx \<longleftrightarrow> snd t = Handle_init \<and> (\<exists>l. json_text (message_as_json (fst t)) = Inr l) \<and>
     (\<exists>ids. plan_init (fst t) = Inr (Call_init ids idx))"

fun handler_ok :: "task \<Rightarrow> handler_state \<Rightarrow> bool" where
  "handler_ok t H_start = True"
| "handler_ok t (H_test_ids ids idx) = in_init t idx"
| "handler_ok t (H_test_name ids idx) = in_init t idx"
| "handler_ok t (H_set_ids ids idx) = in_init t idx"
| "handler_ok t (H_set_name idx) = in_init t idx"

fun response_ok :: "worker_state \<Rightarrow> bool" where
  "response_ok (W_run t h) = handler_ok t h"
| "response_ok (W_write t r) = responded t r"
| "response_ok _ = True"

definition answers_ok :: "system \<Rightarrow> bool" where
  "answers_ok s \<longleftrightarrow> list_all response_ok (workers s) \<and> (\<forall>d\<in>set (finished s). answered (fst d) (snd d))"

lemma handle_init_plan:
  "handle_init draw msg node =
     ebind (plan_init msg)
      (\<lambda>plan. case plan of
         Reply_only \<Rightarrow> ebind (create_response draw msg) (\<lambda>r. Inr (r, node))
       | No_reply \<Rightarrow> Inr (message_default, node)
       | Call_init ids idx \<Rightarrow>
           ebind (node_init ids idx node) (\<lambda>node. ebind (create_response draw msg) (\<lambda>r. Inr (r, node))))"
  unfolding handle_init_def plan_init_def ebind_assoc
  by (intro ebind_cong refl) (simp add: ebind_assoc Let_def, intro impI ebind_cong refl, simp)

lemma invoke_init:
  "snd t = Handle_init \<Longrightarrow> invoke_task (invoke_callback draws) t node =
     ebind (json_text (message_as_json (fst t))) (\<lambda>_. handle_init (fst draws) (fst t) node)"
  by (cases draws) (simp add: invoke_task_def)

lemma in_init_responded:
  fixes draws :: "u32 \<times> u32"
  assumes "in_init t idx" "create_response (fst draws) (fst t) = Inr r"
  shows "responded t r"
proof -
  obtain l ids where t: "snd t = Handle_init" "json_text (message_as_json (fst t)) = Inr l"
      "plan_init (fst t) = Inr (Call_init ids idx)" using assms(1) unfolding in_init_def by blast
  let ?node = "main_node\<lparr>self_node_id := ''n1''\<rparr>"
  have "invoke_task (invoke_callback draws) t ?node = Inr (r, ?node)"
    using t assms(2) by (simp add: invoke_init handle_init_plan node_init_def)
  then show ?thesis unfolding responded_def by blast
qed

lemma handler_step_ok:
  assumes "handler_ok t h" "handler_step draws t h node = Inr (q, node')"
  shows "response_ok (after_step t q)"
proof (cases h)
  case H_start
  show ?thesis
  proof (cases "snd t = Handle_init")
    case False
    then obtain r where r: "q = Inr r" "invoke_task (invoke_callback draws) t node = Inr (r, node')"
      using assms(2) H_start by (auto simp: result_simps)
    then have "responded t r" unfolding responded_def by blast
    then show ?thesis using r(1) by simp
  next
    case True
    then obtain l plan where p: "json_text (message_as_json (fst t)) = Inr l" "plan_init (fst t) = Inr plan"
      using assms(2) H_start by (auto simp: result_simps)
    show ?thesis
    proof (cases plan)
      case (Call_init ids idx)
      then show ?thesis using assms(2) H_start True p by (auto simp: in_init_def)
    next
      case Reply_only
      then obtain r where r: "q = Inr r" "create_response (fst draws) (fst t) = Inr r"
        using assms(2) H_start True p by (auto simp: result_simps respond_def)
      then have "invoke_task (invoke_callback draws) t main_node = Inr (r, main_node)"
        using True p Reply_only by (simp add: invoke_init handle_init_plan)
      then have "responded t r" unfolding responded_def by blast
      then show ?thesis using r(1) by simp
    next
      case No_reply
      then show ?thesis
        using assms(2) H_start True p by (auto simp: responded_def invoke_init handle_init_plan)
    qed
  qed
qed (use assms in \<open>auto simp: result_simps respond_def split: if_splits intro: in_init_responded\<close>)

lemma answered_write:
  assumes "responded t r" "write_response r = Inr out"
  shows "answered t out"
proof -
  obtain draws node node' where "invoke_task (invoke_callback draws) t node = Inr (r, node')"
    using assms(1) unfolding responded_def by blast
  then have "run_task (invoke_callback draws) t node = Inr (out, node')" using assms(2) by (simp add: run_task_def)
  then show ?thesis unfolding answered_def by blast
qed

lemma list_all_update [simp]: "list_all P ws \<Longrightarrow> P q \<Longrightarrow> list_all P (ws[i := q])"
  using all_update [of ws P q i] by (simp add: list_all_iff)

lemma answers_ok_worker:
  assumes "answers_ok s" "worker_step draws i s = Some s'"
  shows "answers_ok s'"
  using assms(2)
proof (cases rule: worker_stepE)
  case (run t h q node)
  then have "handler_ok t h" using assms(1) nth_mem [of i "workers s"] by (force simp: answers_ok_def list_all_iff)
  then show ?thesis using run assms(1) handler_step_ok by (simp add: answers_ok_def)
next
  case (finish t r out)
  then have "responded t r" using assms(1) nth_mem [of i "workers s"] by (force simp: answers_ok_def list_all_iff)
  then have "answered t out" using finish(3) answered_write by blast
  then show ?thesis using finish assms(1) by (simp add: answers_ok_def)
qed (use assms(1) in \<open>simp_all add: answers_ok_def\<close>)

lemma answers_ok_main:
  assumes "answers_ok s" "main_step w s = Some s'"
  shows "answers_ok s'"
  using assms(2)
proof (cases rule: main_stepE)
  case (notify_one i)
  then show ?thesis using assms(1) by (simp add: answers_ok_def)
next
  case notify_all
  then show ?thesis using assms(1) by (auto simp: answers_ok_def list_all_iff)
qed (use assms(1) in \<open>auto simp: answers_ok_def\<close>)

interpretation answers: thread_invariant answers_ok
  by unfold_locales (blast intro: answers_ok_main, blast intro: answers_ok_worker, simp add: answers_ok_def set_worker_def)

lemma answers_ok_reachable: "reachable (system_new main_node lines) s \<Longrightarrow> answers_ok s"
  by (erule answers.reachable_inv) (auto simp: answers_ok_def system_new_def)

subsection \<open>The identity of the node\<close>

text \<open>
  With at most one init request among the messages no two workers are inside the init handler at the same time.
\<close>

definition is_init :: "task \<Rightarrow> bool" where
  "is_init t \<longleftrightarrow> msg_type (fst t) = INIT_REQ"

definition init_requests :: "message list \<Rightarrow> nat" where
  "init_requests ms = length (filter (\<lambda>m. msg_type m = INIT_REQ) ms)"

lemma handler_init_type: "handler_map main_node type = Some Handle_init \<Longrightarrow> type = INIT_REQ"
  by (cases type) (auto simp: main_node_def node_new_def register_handler_def)

lemma init_requests_mono: "subseq ms ms' \<Longrightarrow> init_requests ms \<le> init_requests ms'"
  unfolding init_requests_def using subseq_filter list_emb_length by blast

lemma running_init_le:
  assumes "history_ok s" "input_ok lines s"
  shows "length (filter is_init (concat (map running (workers s)))) \<le> init_requests (read_messages lines)"
proof -
  obtain pre where pre: "lines = pre @ stdin s" "subseq (map fst (dispatched s @ pending (main_thread s))) (read_messages pre)"
    using assms(2) unfolding input_ok_def by blast
  have "length (filter is_init (concat (map running (workers s)))) \<le> length (filter is_init (taken s))"
  proof -
    have "mset (filter is_init (taken s)) =
        mset (filter is_init (map fst (finished s))) + mset (filter is_init (concat (map running (workers s))))"
      using assms(1) by (simp add: history_ok_def mset_filter)
    then show ?thesis by (metis le_add2 size_mset size_union)
  qed
  also have "\<dots> \<le> length (filter is_init (dispatched s @ pending (main_thread s)))"
    using assms(1) by (simp add: history_ok_def)
  also have "\<dots> = init_requests (map fst (dispatched s @ pending (main_thread s)))"
    unfolding init_requests_def is_init_def filter_map length_map comp_def ..
  also have "\<dots> \<le> init_requests (read_messages pre)" by (rule init_requests_mono [OF pre(2)])
  also have "\<dots> \<le> init_requests (read_messages lines)" unfolding pre(1) by (simp add: init_requests_def)
  finally show ?thesis .
qed

lemma two_of_concat:
  assumes "i < j" "j < length ws" "P x" "x \<in> set (f (ws ! i))" "P y" "y \<in> set (f (ws ! j))"
  shows "2 \<le> length (filter P (concat (map f ws)))"
proof -
  have ws: "ws = take j ws @ ws ! j # drop (Suc j) ws" using assms(2) by (simp add: id_take_nth_drop)
  have "ws ! i \<in> set (take j ws)" using assms(1,2) by (auto simp: in_set_conv_nth intro!: exI [of _ i])
  then have "filter P (concat (map f (take j ws))) \<noteq> []" using assms(3,4) by (auto simp: filter_empty_conv)
  moreover have "filter P (f (ws ! j)) \<noteq> []" using assms(5,6) by (auto simp: filter_empty_conv)
  ultimately have "1 \<le> length (filter P (concat (map f (take j ws))))" "1 \<le> length (filter P (f (ws ! j)))"
    by (simp_all add: Suc_le_eq)
  moreover have "filter P (concat (map f ws)) =
      filter P (concat (map f (take j ws))) @ filter P (f (ws ! j)) @ filter P (concat (map f (drop (Suc j) ws)))"
    by (subst ws) (simp only: map_append list.map concat_append concat.simps filter_append)
  ultimately show ?thesis by simp
qed

lemma one_init:
  assumes "history_ok s" "input_ok lines s" "init_requests (read_messages lines) \<le> 1"
    and "i < length (workers s)" "workers s ! i = W_run t h" "is_init t"
    and "j < length (workers s)" "workers s ! j = W_run t' h'" "is_init t'"
  shows "i = j"
proof -
  have "\<not> 2 \<le> length (filter is_init (concat (map running (workers s))))" using running_init_le [OF assms(1,2)] assms(3) by simp
  then show ?thesis
    using two_of_concat [of i j "workers s" is_init t running t'] two_of_concat [of j i "workers s" is_init t' running t] assms(4-)
    by (cases i j rule: linorder_cases) auto
qed

text \<open>What a worker inside the init handler knows of the names, if it is the only one there.\<close>

fun names_ok :: "callback node \<Rightarrow> worker_state \<Rightarrow> bool" where
  "names_ok node (W_run t H_start) = True"
| "names_ok node (W_run t (H_test_ids ids idx)) = is_init t"
| "names_ok node (W_run t (H_test_name ids idx)) = (is_init t \<and> all_node_ids node = [])"
| "names_ok node (W_run t (H_set_ids ids idx)) = (is_init t \<and> all_node_ids node = [] \<and> self_node_id node = '''')"
| "names_ok node (W_run t (H_set_name idx)) = (is_init t \<and> self_node_id node = '''')"
| "names_ok node _ = True"

definition identity_ok :: "system \<Rightarrow> bool" where
  "identity_ok s \<longleftrightarrow>
     (self_node_id (shared s) \<noteq> '''' \<longrightarrow> self_node_id (shared s) \<in> set (all_node_ids (shared s))) \<and>
     (self_node_id (shared s) = '''' \<longrightarrow> (\<forall>t\<in>set (dispatched s @ pending (main_thread s)). msg_type (fst t) = INIT_REQ)) \<and>
     list_all (names_ok (shared s)) (workers s)"

lemma names_ok_start: "\<not> (\<exists>t h. p = W_run t h \<and> is_init t) \<Longrightarrow> names_ok node p \<Longrightarrow> names_ok node' p"
  by (cases "(node, p)" rule: names_ok.cases) auto

lemma names_ok_after:
  assumes "names_ok node (W_run t h)" "snd t = Handle_init \<Longrightarrow> is_init t" "handler_step draws t h node = Inr (q, node')"
  shows "names_ok node' (after_step t q)"
proof (cases h)
  case H_start
  then show ?thesis
  proof (cases "snd t = Handle_init")
    case True
    then obtain plan where "plan_init (fst t) = Inr plan" using assms(3) H_start by (auto simp: result_simps)
    then show ?thesis using assms(2,3) True H_start by (cases plan) (auto simp: result_simps respond_def)
  qed (use assms(3) in \<open>auto simp: result_simps\<close>)
qed (use assms in \<open>auto simp: result_simps respond_def split: if_splits\<close>)

lemma list_all_nth_update:
  assumes "list_all P ws" "Q p" "\<And>j. j < length ws \<Longrightarrow> j \<noteq> i \<Longrightarrow> P (ws ! j) \<Longrightarrow> Q (ws ! j)"
  shows "list_all Q (ws[i := p])"
  unfolding list_all_length
proof (intro allI impI)
  show "Q (ws[i := p] ! j)" if "j < length (ws[i := p])" for j
    using that assms by (cases "j = i") (auto simp: list_all_length)
qed

lemma task_is_init:
  assumes "history_ok s" "input_ok lines s" "i < length (workers s)" "workers s ! i = W_run t h" "snd t = Handle_init"
  shows "is_init t"
proof -
  have "t \<in> set (concat (map running (workers s)))" using assms(3,4) nth_mem [OF assms(3)] by force
  then have "t \<in># mset (taken s)" using assms(1) by (simp add: history_ok_def)
  then have "t \<in> set (dispatched s)" using assms(1) by (simp add: history_ok_def)
  then have "handler_map main_node (msg_type (fst t)) = Some (snd t)" using assms(2) unfolding input_ok_def by auto
  then show ?thesis using assms(5) handler_init_type by (simp add: is_init_def)
qed

lemma identity_ok_handler:
  assumes "identity_ok s" "history_ok s" "input_ok lines s" "init_requests (read_messages lines) \<le> 1"
    and i: "i < length (workers s)" "workers s ! i = W_run t h" and q: "handler_step draws t h (shared s) = Inr (q, node)"
  shows "identity_ok (s\<lparr>shared := node, workers := (workers s)[i := after_step t q]\<rparr>)"
proof -
  have all: "list_all (names_ok (shared s)) (workers s)" using assms(1) by (simp add: identity_ok_def)
  then have ni: "names_ok (shared s) (W_run t h)" using i by (metis list_all_length)
  have "names_ok node (after_step t q)" using names_ok_after [OF ni task_is_init [OF assms(2,3) i] q] .
  moreover have "names_ok node (workers s ! j)"
    if j: "j < length (workers s)" "j \<noteq> i" "names_ok (shared s) (workers s ! j)" for j
    using q
  proof (cases rule: handler_step_cases)
    case local
    then show ?thesis using j(3) by simp
  next
    case (ids ids idx)
    then have "is_init t" using ni by simp
    then have "\<not> (\<exists>t h. workers s ! j = W_run t h \<and> is_init t)" using one_init [OF assms(2-4) i _ j(1)] j(2) by auto
    then show ?thesis using j(3) names_ok_start by blast
  next
    case (name idx r)
    then have "is_init t" using ni by simp
    then have "\<not> (\<exists>t h. workers s ! j = W_run t h \<and> is_init t)" using one_init [OF assms(2-4) i _ j(1)] j(2) by auto
    then show ?thesis using j(3) names_ok_start by blast
  qed
  ultimately have "list_all (names_ok node) ((workers s)[i := after_step t q])" by (intro list_all_nth_update [OF all])
  moreover have "(self_node_id node \<noteq> '''' \<longrightarrow> self_node_id node \<in> set (all_node_ids node)) \<and>
      (self_node_id node = '''' \<longrightarrow> self_node_id (shared s) = '''')"
    using q by (cases rule: handler_step_cases) (use assms(1) ni in \<open>auto simp: identity_ok_def\<close>)
  ultimately show ?thesis using assms(1) by (auto simp: identity_ok_def)
qed

lemma names_ok_cong: "self_node_id node' = self_node_id node \<Longrightarrow> all_node_ids node' = all_node_ids node \<Longrightarrow>
  list_all (names_ok node') ws = list_all (names_ok node) ws"
proof -
  assume "self_node_id node' = self_node_id node" "all_node_ids node' = all_node_ids node"
  then have "names_ok node' p = names_ok node p" for p by (cases "(node, p)" rule: names_ok.cases) auto
  then show ?thesis by (simp add: list_all_iff)
qed

lemma names_ok_update [simp]:
  "list_all (names_ok (node\<lparr>node_state := st\<rparr>)) ws = list_all (names_ok node) ws"
  "list_all (names_ok (node\<lparr>task_queue := ts\<rparr>)) ws = list_all (names_ok node) ws"
  by (rule names_ok_cong; simp)+

lemma identity_ok_worker:
  assumes "identity_ok s" "history_ok s" "input_ok lines s" "init_requests (read_messages lines) \<le> 1"
    and "worker_step draws i s = Some s'"
  shows "identity_ok s'"
  using assms(5)
proof (cases rule: worker_stepE)
  case (run t h q node)
  then show ?thesis using identity_ok_handler [OF assms(1-4) run(1-3)] by simp
qed (use assms(1) in \<open>simp_all add: identity_ok_def\<close>)

lemma identity_ok_main:
  assumes "identity_ok s" "main_step w s = Some s'"
  shows "identity_ok s'"
  using assms(2)
proof (cases rule: main_stepE)
  case (accept buf rest t)
  then show ?thesis using assms(1) dispatch_task_some [OF accept(5)] by (auto simp: identity_ok_def)
next
  case notify_all
  then show ?thesis using assms(1) by (auto simp: identity_ok_def list_all_iff)
qed (use assms(1) in \<open>auto simp: identity_ok_def\<close>)

interpretation identity: thread_invariant
  "\<lambda>s. system_ok s \<and> input_ok lines s \<and> (init_requests (read_messages lines) \<le> 1 \<longrightarrow> identity_ok s)" for lines
proof
  let ?inv = "\<lambda>s. system_ok s \<and> input_ok lines s \<and> (init_requests (read_messages lines) \<le> 1 \<longrightarrow> identity_ok s)"
  show "?inv s'" if "?inv s" "main_step w s = Some s'" for w s s'
    using that(1) identity_ok_main [OF _ that(2)] ok.main_keeps [OF _ that(2)] input_order.main_keeps [OF _ that(2)] by blast
  show "?inv s'" if "?inv s" "worker_step draws i s = Some s'" for draws i s s'
  proof -
    have "history_ok s" using that(1) by (simp add: system_ok_def)
    then show ?thesis
      using that(1) identity_ok_worker [OF _ _ _ _ that(2)] ok.worker_keeps [OF _ that(2)] input_order.worker_keeps [OF _ that(2)]
      by blast
  qed
  show "?inv (set_worker i W_lock s)" if "?inv s" "i < length (workers s)" "workers s ! i = W_wait" for i s
  proof -
    have "identity_ok s \<Longrightarrow> identity_ok (set_worker i W_lock s)" by (simp add: identity_ok_def set_worker_def)
    then show ?thesis using that(1) ok.wakeup_keeps [OF _ that(2,3)] input_order.wakeup_keeps [OF _ that(2,3)] by blast
  qed
qed

lemma identity_ok_reachable:
  assumes "reachable (system_new main_node lines) s" "init_requests (read_messages lines) \<le> 1"
  shows "identity_ok s"
proof -
  have "system_ok (system_new main_node lines)" by (rule reachable_ok [OF start])
  moreover have "input_ok lines (system_new main_node lines)" by (rule input_ok_reachable [OF start])
  moreover have "identity_ok (system_new main_node lines)" by (simp add: identity_ok_def system_new_def)
  ultimately show ?thesis using identity.reachable_inv [OF assms(1)] assms(2) by blast
qed

text \<open>Once the node has a name it keeps it, and with it the list of names.\<close>

lemma identity_stable:
  assumes "system_step s s'" "identity_ok s" "self_node_id (shared s) \<noteq> ''''"
  shows "self_node_id (shared s') = self_node_id (shared s) \<and> all_node_ids (shared s') = all_node_ids (shared s)"
  using assms(1)
proof cases
  case (main w)
  then show ?thesis by (cases rule: main_stepE) auto
next
  case (worker draws i)
  then show ?thesis
  proof (cases rule: worker_stepE)
    case (run t h q node)
    then have "names_ok (shared s) (W_run t h)" using assms(2) by (metis identity_ok_def list_all_length)
    with run(3) show ?thesis by (cases rule: handler_step_cases) (use run(4) assms(3) in auto)
  qed auto
qed

section \<open>Complete runs\<close>

text \<open>The pieces of a run in which worker 0 serves the requests one after the other.\<close>

lemma run_schedule_append:
  "run_schedule (es @ fs) s = (case run_schedule es s of None \<Rightarrow> None | Some s' \<Rightarrow> run_schedule fs s')"
  by (induction es s rule: run_schedule.induct) (auto split: option.splits)

lemma reachable_schedule: "run_schedule es s0 = Some s \<Longrightarrow> reachable s0 s"
  using reachable_steps [OF run_schedule_steps start] .

lemma schedule_reaches:
  "(case run_schedule es s0 of None \<Rightarrow> False | Some s \<Rightarrow> P s) \<Longrightarrow> \<exists>s. reachable s0 s \<and> P s"
  by (cases "run_schedule es s0") (auto intro: reachable_schedule)

definition ready_system :: "callback node \<Rightarrow> string list \<Rightarrow> string list \<Rightarrow> (task \<times> string option) list \<Rightarrow> system" where
  "ready_system node lines out done =
     \<lparr>shared = node, task_mutex = None, main_thread = M_read, workers = replicate 16 W_lock, stdin = lines, stdout = out,
      crashed = None, dispatched = map fst done, taken = map fst done, finished = done\<rparr>"

lemma start_run:
  "run_schedule (replicate 17 (Main_event None)) (system_new main_node lines) =
   Some (ready_system (main_node\<lparr>node_state := RUNNING\<rparr>) lines [] [])"
  by (simp add: system_new_def ready_system_def thread_defs eval_nat_numeral)

text \<open>A handler that is not interrupted computes what the whole handler does.\<close>

fun run_handler :: "nat \<Rightarrow> u32 \<times> u32 \<Rightarrow> task \<Rightarrow> handler_state \<Rightarrow> callback node \<Rightarrow> (failure + message \<times> callback node) option" where
  "run_handler 0 draws t h node = None"
| "run_handler (Suc n) draws t h node =
     (case handler_step draws t h node of
        Inl e \<Rightarrow> Some (Inl e)
      | Inr (Inr r, node') \<Rightarrow> Some (Inr (r, node'))
      | Inr (Inl h', node') \<Rightarrow> run_handler n draws t h' node')"

lemma plan_init_bound: "plan_init msg = Inr (Call_init ids idx) \<Longrightarrow> idx < length ids"
  using node_index_found node_index_nth by (auto simp: plan_init_def result_simps Let_def split: if_splits)

lemma handler_alone: "run_handler 5 draws t H_start node = Some (invoke_task (invoke_callback draws) t node)"
proof (cases "snd t = Handle_init")
  case False
  then show ?thesis by (cases "invoke_task (invoke_callback draws) t node") (auto simp: numeral_eq_Suc)
next
  case True
  show ?thesis
  proof (cases "json_text (message_as_json (fst t))"; cases "plan_init (fst t)")
    fix l plan
    assume p: "json_text (message_as_json (fst t)) = Inr l" "plan_init (fst t) = Inr plan"
    show ?thesis
      using p True plan_init_bound [of "fst t"]
      by (cases plan; cases "create_response (fst draws) (fst t)")
        (auto simp: numeral_eq_Suc respond_def invoke_init handle_init_plan node_init_def Let_def)
  qed (use True in \<open>auto simp: numeral_eq_Suc invoke_init handle_init_plan\<close>)
qed

lemma handler_schedule:
  assumes "run_handler n draws t h (shared s) = Some (Inr (r, node))" "crashed s = None"
    "i < length (workers s)" "workers s ! i = W_run t h"
  shows "\<exists>es. run_schedule es s = Some (s\<lparr>shared := node, workers := (workers s)[i := W_write t r]\<rparr>)"
  using assms
proof (induction n arbitrary: h s)
  case (Suc n)
  show ?case
  proof (cases "handler_step draws t h (shared s)")
    case (Inr qn)
    obtain q node' where qn: "qn = (q, node')" by (cases qn)
    let ?s = "s\<lparr>shared := node', workers := (workers s)[i := after_step t q]\<rparr>"
    have e: "perform (Worker_event draws i) s = Some ?s" using Suc.prems Inr qn by (simp add: thread_defs)
    show ?thesis
    proof (cases q)
      case Inl: (Inl h')
      have "\<exists>es. run_schedule es ?s = Some (?s\<lparr>shared := node, workers := (workers ?s)[i := W_write t r]\<rparr>)"
        using Suc.prems Inr qn Inl by (intro Suc.IH [of h']) auto
      then obtain es where "run_schedule es ?s = Some (s\<lparr>shared := node, workers := (workers s)[i := W_write t r]\<rparr>)" by auto
      then show ?thesis using e by (intro exI [of _ "Worker_event draws i # es"]) (simp del: perform.simps)
    next
      case q: (Inr r')
      then have "?s = s\<lparr>shared := node, workers := (workers s)[i := W_write t r]\<rparr>" using Suc.prems Inr qn by simp
      then show ?thesis using e by (intro exI [of _ "[Worker_event draws i]"]) (simp del: perform.simps)
    qed
  qed (use Suc.prems in simp)
qed simp

lemma serve_run:
  assumes "node_state node = RUNNING" "task_queue node = []" "buf \<noteq> ''''" "dispatch_task buf node = Inr (Some t)"
    "invoke_task (invoke_callback draws) t node = Inr (r, node')" "write_response r = Inr (Some l)"
  shows "\<exists>es. run_schedule es (ready_system node (buf # rest) out done) = Some (ready_system node' rest (out @ [l]) (done @ [(t, Some l)]))"
proof -
  let ?taken = "(ready_system node rest out done)\<lparr>dispatched := map fst done @ [t], taken := map fst done @ [t]\<rparr>"
  let ?run = "?taken\<lparr>workers := (replicate 16 W_lock)[0 := W_run t H_start]\<rparr>"
  let ?answer = "?taken\<lparr>shared := node', workers := (replicate 16 W_lock)[0 := W_write t r]\<rparr>"
  have n: "node\<lparr>task_queue := []\<rparr> = node" using assms(2) by (cases node) simp
  have a: "run_schedule (replicate 4 (Main_event None) @ replicate 3 (Worker_event draws 0)) (ready_system node (buf # rest) out done) =
      Some ?run"
    using assms n by (simp add: ready_system_def thread_defs eval_nat_numeral)
  have "run_handler 5 draws t H_start (shared ?run) = Some (Inr (r, node'))"
    using handler_alone [of draws t node] assms(5) by (simp add: ready_system_def del: run_handler.simps)
  then obtain es where "run_schedule es ?run = Some (?run\<lparr>shared := node', workers := (workers ?run)[0 := W_write t r]\<rparr>)"
    using handler_schedule [of 5 draws t H_start ?run r node' 0] by (auto simp: ready_system_def eval_nat_numeral)
  then have b: "run_schedule es ?run = Some ?answer" by simp
  have c: "run_schedule [Worker_event draws 0] ?answer = Some (ready_system node' rest (out @ [l]) (done @ [(t, Some l)]))"
    using assms(6) by (simp add: ready_system_def thread_defs eval_nat_numeral)
  have "run_schedule ((replicate 4 (Main_event None) @ replicate 3 (Worker_event draws 0)) @ es @ [Worker_event draws 0])
      (ready_system node (buf # rest) out done) = Some (ready_system node' rest (out @ [l]) (done @ [(t, Some l)]))"
    unfolding run_schedule_append [of "replicate 4 (Main_event None) @ replicate 3 (Worker_event draws 0)"] a option.case
      run_schedule_append [of es] b c ..
  then show ?thesis by blast
qed

definition stop_schedule :: "event list" where
  "stop_schedule = [Main_event None, Main_event None] @ concat (map (\<lambda>i. replicate 3 (Worker_event (0, 0) i)) [0..<16]) @
     replicate 17 (Main_event None)"

lemma stop_run:
  assumes "node_state node = RUNNING" "task_queue node = []"
  shows "\<exists>s. run_schedule stop_schedule (ready_system node [] out done) = Some s \<and> main_thread s = M_finished \<and>
    crashed s = None \<and> dispatched s = map fst done \<and> stdout s = out"
  using assms by (simp add: stop_schedule_def ready_system_def thread_defs eval_nat_numeral)

text \<open>The run on an init request followed by an echo request.\<close>

lemma handlers [simp]:
  "handler_map main_node INIT_REQ = Some Handle_init" "handler_map main_node ECHO_REQ = Some Echo_handler"
  by (simp_all add: main_node_def node_new_def register_handler_def)

lemma init_line_dispatch:
  "handler_map node = handler_map main_node \<Longrightarrow> dispatch_task init_line node = Inr (Some (init_message, Handle_init))"
proof -
  have "msg_type init_message = INIT_REQ" by code_simp+
  then show "handler_map node = handler_map main_node \<Longrightarrow> ?thesis"
    using dispatch_task_parse [of init_line node] init_line_parse by simp
qed

lemma echo_line_dispatch:
  "handler_map node = handler_map main_node \<Longrightarrow> self_node_id node \<noteq> '''' \<Longrightarrow>
   dispatch_task echo_line node = Inr (Some (echo_message, Echo_handler))"
proof -
  have "msg_type echo_message = ECHO_REQ" by code_simp+
  then show "handler_map node = handler_map main_node \<Longrightarrow> self_node_id node \<noteq> '''' \<Longrightarrow> ?thesis"
    using dispatch_task_parse [of echo_line node] echo_line_parse by simp
qed

lemma run_task_parts:
  assumes "run_task invoke t node = Inr (out, node')"
  shows "\<exists>r. invoke_task invoke t node = Inr (r, node') \<and> write_response r = Inr out"
  using assms by (auto simp: run_task_def result_simps split: prod.splits)

lemma line_nonempty: "init_line \<noteq> ''''" "echo_line \<noteq> ''''"
  by (simp_all add: init_line_def echo_line_def)

abbreviation init_node :: "callback node" where
  "init_node \<equiv> main_node\<lparr>node_state := RUNNING, all_node_ids := [''n1'', ''n2''], self_node_id := ''n1''\<rparr>"

lemma init_run:
  "\<exists>es l. run_schedule es (system_new main_node (init_line # rest)) =
     Some (ready_system init_node rest [l] [((init_message, Handle_init), Some l)])"
proof -
  let ?n = "main_node\<lparr>node_state := RUNNING\<rparr>"
  have "msg_type init_message = INIT_REQ"
    "json_index (body init_message) ''node_id'' = Inr (JString ''n1'')"
    "json_index (body init_message) ''node_ids'' = Inr (JArray (map JString [''n1'', ''n2'']))" by code_simp+
  then obtain l where "run_task (invoke_callback (1, 2)) (init_message, Handle_init) ?n = Inr (Some l, init_node)"
    using init_task [OF init_line_parse, of "''n1''" "[''n1'', ''n2'']" 1 2 ?n] by auto
  then obtain r where "invoke_task (invoke_callback (1, 2)) (init_message, Handle_init) ?n = Inr (r, init_node)"
      "write_response r = Inr (Some l)" using run_task_parts by blast
  then obtain es where es: "run_schedule es (ready_system ?n (init_line # rest) [] []) =
      Some (ready_system init_node rest [l] [((init_message, Handle_init), Some l)])"
    using serve_run [of ?n init_line "(init_message, Handle_init)" "(1, 2)" r init_node l rest "[]" "[]"] line_nonempty
      init_line_dispatch [of ?n] by auto
  have "run_schedule (replicate 17 (Main_event None) @ es) (system_new main_node (init_line # rest)) =
      Some (ready_system init_node rest [l] [((init_message, Handle_init), Some l)])"
    by (simp only: run_schedule_append start_run option.case es)
  then show ?thesis by blast
qed

lemma echo_run:
  "\<exists>s. system_step\<^sup>*\<^sup>* (system_new main_node [init_line, echo_line]) s \<and> main_thread s = M_finished \<and> crashed s = None \<and>
     dispatched s = [(init_message, Handle_init), (echo_message, Echo_handler)]"
proof -
  obtain es l where es: "run_schedule es (system_new main_node [init_line, echo_line]) =
      Some (ready_system init_node [echo_line] [l] [((init_message, Handle_init), Some l)])" using init_run by blast
  have "msg_type echo_message = ECHO_REQ"
    "json_index (body echo_message) ''echo'' = Inr (JArray [JFloat 0x3FB999999999999A, JString ''x''])" by code_simp+
  then obtain l' where "run_task (invoke_callback (1, 2)) (echo_message, Echo_handler) init_node = Inr (Some l', init_node)"
    using echo_task [OF echo_line_parse, of 1 2 init_node] by auto
  then obtain r where "invoke_task (invoke_callback (1, 2)) (echo_message, Echo_handler) init_node = Inr (r, init_node)"
      "write_response r = Inr (Some l')" using run_task_parts by blast
  then obtain fs where fs: "run_schedule fs (ready_system init_node [echo_line] [l] [((init_message, Handle_init), Some l)]) =
      Some (ready_system init_node [] [l, l'] [((init_message, Handle_init), Some l), ((echo_message, Echo_handler), Some l')])"
    using serve_run [of init_node echo_line "(echo_message, Echo_handler)" "(1, 2)" r init_node l' "[]" "[l]"
        "[((init_message, Handle_init), Some l)]"] line_nonempty echo_line_dispatch [of init_node]
    by auto
  obtain s where s: "run_schedule stop_schedule (ready_system init_node [] [l, l']
        [((init_message, Handle_init), Some l), ((echo_message, Echo_handler), Some l')]) = Some s"
      "main_thread s = M_finished" "crashed s = None" "dispatched s = [(init_message, Handle_init), (echo_message, Echo_handler)]"
    using stop_run [of init_node "[l, l']" "[((init_message, Handle_init), Some l), ((echo_message, Echo_handler), Some l')]"] by auto
  have "run_schedule (es @ fs @ stop_schedule) (system_new main_node [init_line, echo_line]) = Some s"
    unfolding run_schedule_append [of es] es option.case run_schedule_append [of fs] fs s(1) ..
  then show ?thesis using s run_schedule_steps by blast
qed

subsection \<open>Overlapping init requests\<close>

text \<open>Two init requests that disagree on the members of the cluster and on the name of the node.\<close>

definition init_json :: "string \<Rightarrow> string list \<Rightarrow> json" where
  "init_json name ids = JObject [(''body'', JObject [(''msg_id'', JUnsigned 1), (''node_id'', JString name),
     (''node_ids'', JArray (map JString ids)), (''type'', JString ''init'')]), (''dest'', JString ''n1''), (''src'', JString ''c0'')]"

definition init_request_message :: "string \<Rightarrow> string list \<Rightarrow> message" where
  "init_request_message name ids = \<lparr>msg_type = INIT_REQ, msg_id = \<lparr>m_most_sig = 1, m_least_sig = 0\<rparr>, reply_id = invalid_snowflake,
     msg_from = ''c0'', msg_to = ''n1'', body = JObject [(''msg_id'', JUnsigned 1), (''node_id'', JString name),
     (''node_ids'', JArray (map JString ids)), (''type'', JString ''init'')]\<rparr>"

definition wide_line :: string where
  "wide_line = json_print (init_json ''n2'' [''n1'', ''n2''])"

definition narrow_line :: string where
  "narrow_line = json_print (init_json ''n1'' [''n1''])"

abbreviation wide_task :: task where
  "wide_task \<equiv> (init_request_message ''n2'' [''n1'', ''n2''], Handle_init)"

abbreviation narrow_task :: task where
  "narrow_task \<equiv> (init_request_message ''n1'' [''n1''], Handle_init)"

lemma wide_line_parse: "message_parse wide_line = Inr (Some (fst wide_task))"
  unfolding wide_line_def fst_conv by (rule message_parse_print) code_simp+

lemma narrow_line_parse: "message_parse narrow_line = Inr (Some (fst narrow_task))"
  unfolding narrow_line_def fst_conv by (rule message_parse_print) code_simp+

lemma race_dispatch:
  assumes "handler_map node = handler_map main_node"
  shows "dispatch_task wide_line node = Inr (Some wide_task)" "dispatch_task narrow_line node = Inr (Some narrow_task)"
  using assms dispatch_task_parse [of wide_line node] dispatch_task_parse [of narrow_line node]
  by (simp_all add: wide_line_parse narrow_line_parse init_request_message_def)

lemma race_plan:
  "plan_init (fst wide_task) = Inr (Call_init [''n1'', ''n2''] 1)" "plan_init (fst narrow_task) = Inr (Call_init [''n1''] 0)"
  by code_simp+

lemma race_response:
  "\<exists>r l. create_response 1 (fst wide_task) = Inr r \<and> write_response r = Inr (Some l)"
proof -
  have "msg_type (fst wide_task) = INIT_REQ" "json_index (body (fst wide_task)) ''node_id'' = Inr (JString ''n2'')"
    "json_index (body (fst wide_task)) ''node_ids'' = Inr (JArray (map JString [''n1'', ''n2'']))" by code_simp+
  then obtain l node' where "run_task (invoke_callback (1, 2)) wide_task main_node = Inr (Some l, node')"
    using init_task [OF wide_line_parse, of "''n2''" "[''n1'', ''n2'']" 1 2 main_node] by auto
  then obtain r where r: "invoke_task (invoke_callback (1, 2)) wide_task main_node = Inr (r, node')" "write_response r = Inr (Some l)"
    using run_task_parts by blast
  then have "create_response 1 (fst wide_task) = Inr r"
    using race_plan by (auto simp: invoke_init handle_init_plan result_simps)
  then show ?thesis using r(2) by blast
qed

text \<open>Both workers have found the names empty.\<close>

lemma overlap_run:
  "\<exists>es s. run_schedule es (system_new main_node [wide_line, narrow_line]) = Some s \<and> crashed s = None \<and> length (workers s) = 16 \<and>
     workers s ! 0 = W_run wide_task (H_set_ids [''n1'', ''n2''] 1) \<and>
     workers s ! 1 = W_run narrow_task (H_set_ids [''n1''] 0) \<and> stdout s = []"
proof -
  let ?n = "main_node\<lparr>node_state := RUNNING\<rparr>"
  let ?es = "replicate 8 (Main_event None) @ replicate 3 (Worker_event (1, 2) 0) @ replicate 3 (Worker_event (1, 2) 1) @
    replicate 3 (Worker_event (1, 2) 0) @ replicate 3 (Worker_event (1, 2) 1)"
  have ne: "wide_line \<noteq> ''''" "narrow_line \<noteq> ''''" by (simp_all add: wide_line_def narrow_line_def init_json_def)
  note logs = message_log [OF wide_line_parse] message_log [OF narrow_line_parse]
  have "\<exists>s. run_schedule ?es (ready_system ?n [wide_line, narrow_line] [] []) = Some s \<and> crashed s = None \<and> length (workers s) = 16 \<and>
      workers s ! 0 = W_run wide_task (H_set_ids [''n1'', ''n2''] 1) \<and>
      workers s ! 1 = W_run narrow_task (H_set_ids [''n1''] 0) \<and> stdout s = []"
    using race_plan logs by (simp add: ready_system_def thread_defs eval_nat_numeral ne race_dispatch)
  then obtain s where s: "run_schedule ?es (ready_system ?n [wide_line, narrow_line] [] []) = Some s" "crashed s = None"
      "length (workers s) = 16" "workers s ! 0 = W_run wide_task (H_set_ids [''n1'', ''n2''] 1)"
      "workers s ! 1 = W_run narrow_task (H_set_ids [''n1''] 0)" "stdout s = []" by blast
  have "run_schedule (replicate 17 (Main_event None) @ ?es) (system_new main_node [wide_line, narrow_line]) = Some s"
    unfolding run_schedule_append [of "replicate 17 (Main_event None)"] start_run option.case s(1) ..
  then show ?thesis using s(2-) by blast
qed

section \<open>Properties\<close>

text \<open>C9. Mutual exclusion on the task queue: in every state the program can reach, for every input and with
  spurious wake-ups, no two threads are inside the section guarded by \<open>mutex_thread_tasks\<close>, and a worker that is about to take
  a task finds one unless the node is shut down, so \<open>front\<close> is never called on an empty queue.\<close>
theorem queue_guarded:
  assumes "reachable (system_new main_node lines) s"
  shows "(\<forall>i j. i < length (workers s) \<longrightarrow> j < length (workers s) \<longrightarrow> holds_mutex (workers s ! i) \<longrightarrow>
      holds_mutex (workers s ! j) \<longrightarrow> i = j) \<and>
    (\<forall>t i. main_thread s = M_push t \<longrightarrow> i < length (workers s) \<longrightarrow> \<not> holds_mutex (workers s ! i)) \<and>
    (\<forall>i<length (workers s). workers s ! i = W_take \<longrightarrow> node_state (shared s) = SHUTDOWN \<or> task_queue (shared s) \<noteq> [])"
proof (intro conjI allI impI)
  have ok: "lock_ok s" "queue_ok s" using reachable_ok [OF assms] by (auto simp: system_ok_def)
  show "i = j" if "i < length (workers s)" "j < length (workers s)" "holds_mutex (workers s ! i)" "holds_mutex (workers s ! j)" for i j
    using holder_unique [OF ok(1) that(2,4,1,3)] .
  show "\<not> holds_mutex (workers s ! i)" if "main_thread s = M_push t" "i < length (workers s)" for t i
    using ok(1) that unfolding lock_ok_def lock_inv_def by (metis option.inject thread.distinct(1))
  show "node_state (shared s) = SHUTDOWN \<or> task_queue (shared s) \<noteq> []" if "i < length (workers s)" "workers s ! i = W_take" for i
    using ok(2) that nth_mem [of i "workers s"] by (force simp: queue_ok_def queue_inv_def)
qed

text \<open>A state in which worker 0 holds the mutex.\<close>

lemma locked_run:
  "case run_schedule (replicate 17 (Main_event None) @ [Worker_event (0, 0) 0]) (system_new main_node []) of
     None \<Rightarrow> False | Some s \<Rightarrow> length (workers s) = 16 \<and> holds_mutex (workers s ! 0)"
  by code_simp

theorem queue_guarded_witness:
  "\<exists>s. reachable (system_new main_node []) s \<and> length (workers s) = 16 \<and> holds_mutex (workers s ! 0) \<and> \<not> holds_mutex (workers s ! 1)"
proof -
  obtain s where s: "reachable (system_new main_node []) s" "length (workers s) = 16" "holds_mutex (workers s ! 0)"
    using schedule_reaches [OF locked_run] by blast
  have "\<not> holds_mutex (workers s ! 1)"
    using queue_guarded [OF s(1), THEN conjunct1, rule_format, of 0 1] s(2,3) by auto
  with s show ?thesis by blast
qed

text \<open>C6. Tasks are taken in the order of the input and each is run once: the messages taken by workers, followed by
  those in the queue, are exactly the dispatched ones in order; they form a subsequence of the messages read from the
  lines consumed so far; every task carries the handler registered for its type; and a taken task is
  either with one worker or finished.\<close>
theorem tasks_in_order:
  assumes "reachable (system_new main_node lines) s"
  shows "dispatched s = taken s @ task_queue (shared s) \<and>
    (\<exists>pre. lines = pre @ stdin s \<and> subseq (map fst (dispatched s)) (read_messages pre)) \<and>
    (\<forall>t\<in>set (dispatched s). handler_map main_node (msg_type (fst t)) = Some (snd t)) \<and>
    mset (taken s) = mset (map fst (finished s)) + mset (concat (map running (workers s)))"
proof -
  have "history_ok s" using reachable_ok [OF assms] by (simp add: system_ok_def)
  moreover have i: "input_ok lines s" by (rule input_ok_reachable [OF assms])
  then obtain pre where pre: "lines = pre @ stdin s" "subseq (map fst (dispatched s @ pending (main_thread s))) (read_messages pre)"
    unfolding input_ok_def by blast
  have "subseq (map fst (dispatched s)) (map fst (dispatched s @ pending (main_thread s)))" by (simp add: list_emb_prefix)
  then have "subseq (map fst (dispatched s)) (read_messages pre)" using pre(2) by (rule subseq_order.order_trans)
  ultimately show ?thesis using i pre(1) by (auto simp: history_ok_def input_ok_def)
qed


text \<open>C7. Where the program can come to rest: in a reachable state no thread can take a step exactly if the process has been
  ended by a failure, or \<open>run\<close> has returned, or a wake-up was lost: the main thread joins a worker that is blocked on
  the condition variable although the node is shut down, all other workers being blocked or done and the
  queue empty.\<close>
theorem stuck_states:
  assumes "reachable (system_new main_node lines) s"
  shows "\<not> (\<exists>s'. system_step s s') \<longleftrightarrow> crashed s \<noteq> None \<or> main_thread s = M_finished \<or> lost_wakeup s"
  by (rule stuck_iff [OF reachable_ok [OF assms]])

text \<open>C8. The wake-up can be lost: \<open>run\<close> sets the state without holding the mutex, so a worker may have
  found the predicate of \<open>wait\<close> false and block after \<open>notify_all\<close>; then \<open>run\<close> never returns, even with no input at
  all.\<close>
theorem lost_wakeup_reachable:
  "\<exists>s. system_step\<^sup>*\<^sup>* (system_new main_node []) s \<and> lost_wakeup s \<and> \<not> (\<exists>s'. system_step s s')"
proof -
  obtain s where s: "run_schedule lost_wakeup_schedule (system_new main_node []) = Some s" "lost_wakeup s"
    using lost_wakeup_run by (auto split: option.splits)
  then show ?thesis using stuck_iff [OF reachable_ok [OF reachable_schedule [OF s(1)]]] run_schedule_steps [OF s(1)] by blast
qed

theorem stuck_states_witness: "\<exists>s. reachable (system_new main_node []) s \<and> lost_wakeup s \<and> \<not> (\<exists>s'. system_step s s')"
proof -
  obtain s where s: "run_schedule lost_wakeup_schedule (system_new main_node []) = Some s" "lost_wakeup s"
    using lost_wakeup_run by (auto split: option.splits)
  then show ?thesis using stuck_states [OF reachable_schedule [OF s(1)]] reachable_schedule [OF s(1)] by blast
qed

text \<open>C10. Without spurious wake-ups every run is finite: a run of the program on \<open>n\<close> lines of input has at most
  \<open>16 n + 133\<close> steps.\<close>
theorem run_finite:
  assumes "(system_step ^^ n) (system_new main_node lines) s"
  shows "n \<le> 16 * length lines + 133"
proof -
  have "system_ok (system_new main_node lines)" using reachable_ok [OF start] .
  then have "n + system_weight s \<le> system_weight (system_new main_node lines)" using threads.run_length [OF assms] by blast
  moreover have "system_weight (system_new main_node lines) = 16 * length lines + 133"
    by (simp add: system_weight_def system_new_def)
  ultimately show ?thesis by simp
qed

text \<open>C2. Every dispatched request is handled, whatever the schedule: from no reachable state is there an infinite run
  without spurious wake-ups, and in every state in which such a run ends without a failure each dispatched task has been
  run exactly once and the lines written are the responses of the finished tasks.  This holds after a lost wake-up too.\<close>
theorem dispatched_handled:
  assumes "reachable (system_new main_node lines) s"
  shows "\<not> (\<exists>f. f 0 = s \<and> (\<forall>k. system_step (f k) (f (Suc k)))) \<and>
    (\<forall>s'. system_step\<^sup>*\<^sup>* s s' \<longrightarrow> \<not> (\<exists>t. system_step s' t) \<longrightarrow> crashed s' = None \<longrightarrow>
       mset (map fst (finished s')) = mset (dispatched s') \<and> stdout s' = out_lines (finished s') \<and>
       (\<forall>d\<in>set (finished s'). answered (fst d) (snd d)))"
proof (intro conjI allI impI)
  show "\<not> (\<exists>f. f 0 = s \<and> (\<forall>k. system_step (f k) (f (Suc k))))" using threads.no_infinite_run reachable_ok [OF assms] by blast
  fix s' assume s': "system_step\<^sup>*\<^sup>* s s'" "\<not> (\<exists>t. system_step s' t)" "crashed s' = None"
  then have r: "reachable (system_new main_node lines) s'" using reachable_steps assms by blast
  note ok = reachable_ok [OF r]
  show "mset (map fst (finished s')) = mset (dispatched s')" using stuck_answered [OF s'(2,3) ok] .
  show "stdout s' = out_lines (finished s')" using ok by (simp add: system_ok_def history_ok_def)
  show "\<forall>d\<in>set (finished s'). answered (fst d) (snd d)" using answers_ok_reachable [OF r] unfolding answers_ok_def by blast
qed

theorem run_finite_witness: "\<exists>n s. (system_step ^^ n) (system_new main_node []) s \<and> lost_wakeup s \<and> n \<le> 133"
proof -
  obtain s where s: "run_schedule lost_wakeup_schedule (system_new main_node []) = Some s" "lost_wakeup s"
    using lost_wakeup_run by (auto split: option.splits)
  then obtain n where n: "(system_step ^^ n) (system_new main_node []) s" using run_schedule_steps rtranclp_imp_relpowp by metis
  then show ?thesis using run_finite [OF n] s(2) by auto
qed

text \<open>C11. The identity of the node, if at most one of the messages in the input is an init request: in every reachable state the node's own
  name is empty or one of the names of the cluster, requests other than init are dispatched only when it is set, and
  no step changes the name or the names once it is set, however the steps of the init handler interleave with
  the other threads.\<close>
theorem node_identity:
  assumes "reachable (system_new main_node lines) s"
    and "length (filter (\<lambda>m. msg_type m = INIT_REQ) (read_messages lines)) \<le> 1"
  shows "(self_node_id (shared s) \<noteq> '''' \<longrightarrow> self_node_id (shared s) \<in> set (all_node_ids (shared s))) \<and>
    (self_node_id (shared s) = '''' \<longrightarrow> (\<forall>t\<in>set (dispatched s). msg_type (fst t) = INIT_REQ)) \<and>
    (\<forall>s'. self_node_id (shared s) \<noteq> '''' \<longrightarrow> system_step s s' \<longrightarrow>
       self_node_id (shared s') = self_node_id (shared s) \<and> all_node_ids (shared s') = all_node_ids (shared s))"
proof -
  have id: "identity_ok s" using identity_ok_reachable [OF assms(1)] assms(2) by (simp add: init_requests_def)
  then show ?thesis using identity_stable [OF _ id] by (auto simp: identity_ok_def)
qed


theorem tasks_in_order_witness:
  "\<exists>s. reachable (system_new main_node [init_line, echo_line]) s \<and>
     dispatched s = [(init_message, Handle_init), (echo_message, Echo_handler)] \<and>
     taken s @ task_queue (shared s) = [(init_message, Handle_init), (echo_message, Echo_handler)]"
proof -
  obtain s where s: "reachable (system_new main_node [init_line, echo_line]) s"
      "dispatched s = [(init_message, Handle_init), (echo_message, Echo_handler)]"
    using echo_run reachable_steps [OF _ start] by blast
  then show ?thesis using tasks_in_order [OF s(1)] by auto
qed

theorem dispatched_handled_witness:
  "\<exists>s. system_step\<^sup>*\<^sup>* (system_new main_node [init_line, echo_line]) s \<and> \<not> (\<exists>t. system_step s t) \<and> crashed s = None \<and>
     mset (map fst (finished s)) = {#(init_message, Handle_init), (echo_message, Echo_handler)#} \<and> stdout s = out_lines (finished s)"
proof -
  obtain s where s: "system_step\<^sup>*\<^sup>* (system_new main_node [init_line, echo_line]) s" "main_thread s = M_finished" "crashed s = None"
      "dispatched s = [(init_message, Handle_init), (echo_message, Echo_handler)]" using echo_run by blast
  have st: "\<not> (\<exists>t. system_step s t)" using stuck_iff [OF reachable_ok [OF reachable_steps [OF s(1) start]]] s(2) by blast
  show ?thesis
    using dispatched_handled [OF start, THEN conjunct2, rule_format, OF s(1) st s(3)] s st by (intro exI [of _ s]) auto
qed

theorem node_identity_witness:
  "\<exists>s. reachable (system_new main_node [init_line]) s \<and> self_node_id (shared s) = ''n1'' \<and> ''n1'' \<in> set (all_node_ids (shared s))"
proof -
  obtain es l where "run_schedule es (system_new main_node [init_line]) =
      Some (ready_system init_node [] [l] [((init_message, Handle_init), Some l)])" using init_run by blast
  then have s: "reachable (system_new main_node [init_line]) (ready_system init_node [] [l] [((init_message, Handle_init), Some l)])"
    by (rule reachable_schedule)
  have n: "self_node_id (shared (ready_system init_node [] [l] [((init_message, Handle_init), Some l)])) = ''n1''"
    by (simp add: ready_system_def)
  have one: "length (filter (\<lambda>m. msg_type m = INIT_REQ) (read_messages [init_line])) \<le> 1"
    by (simp add: read_messages_one init_line_parse)
  show ?thesis using s n node_identity [OF s one, THEN conjunct1] by (intro exI conjI) (assumption, assumption, simp)
qed

text \<open>C1. From input to output: when the threads have come to rest without a failure, every dispatched echo request
  has been answered on the standard output by an \<open>echo_ok\<close> line to its
  sender with the request's identifier and its \<open>echo\<close> value, and the request was one of the lines of the input.\<close>
theorem echo_answered:
  assumes "reachable (system_new main_node lines) s" and "\<not> (\<exists>s'. system_step s s')" and "crashed s = None"
    and "(msg, h) \<in> set (dispatched s)" and "msg_type msg = ECHO_REQ"
  shows "(\<exists>raw\<in>set lines. message_parse raw = Inr (Some msg)) \<and>
    (\<exists>line q v. line @ [CHR 0x0A] \<in> set (stdout s) \<and> message_parse line = Inr (Some q) \<and> msg_type q = ECHO_RES \<and>
       msg_from q = msg_to msg \<and> msg_to q = msg_from msg \<and>
       json_index (body msg) ''echo'' = Inr v \<and> json_index (body q) ''echo'' = Inr (json_norm v) \<and>
       json_index (body q) ''in_reply_to'' =
         (if is_valid (msg_id msg) then snowflake_as_json (msg_id msg) else Inl Assertion_failed))"
proof -
  note ok = reachable_ok [OF assms(1)] and ans = answers_ok_reachable [OF assms(1)] and inp = input_ok_reachable [OF assms(1)]
  obtain pre where pre: "lines = pre @ stdin s" "subseq (map fst (dispatched s @ pending (main_thread s))) (read_messages pre)"
    using inp unfolding input_ok_def by blast
  have "msg \<in> set (read_messages pre)" using assms(4) list_emb_set [OF pre(2), of msg] by force
  then obtain raw where raw: "raw \<in> set lines" "message_parse raw = Inr (Some msg)" using read_messages_in pre(1) by fastforce
  have "handler_map main_node (msg_type (fst (msg, h))) = Some (snd (msg, h))"
    using inp assms(4) unfolding input_ok_def by (intro bspec [of _ "\<lambda>t. handler_map main_node (msg_type (fst t)) = Some (snd t)"]) auto
  then have h: "h = Echo_handler" using assms(5) by simp
  have "set (map fst (finished s)) = set (dispatched s)" using stuck_answered [OF assms(2,3) ok] by (metis set_mset_mset)
  then have "(msg, h) \<in> fst ` set (finished s)" using assms(4) by simp
  then obtain out where out: "((msg, h), out) \<in> set (finished s)" by force
  then have "answered (msg, h) out" using ans unfolding answers_ok_def by force
  then obtain draw draw' node node' where rt: "run_task (invoke_callback (draw, draw')) (msg, Echo_handler) node = Inr (out, node')"
    unfolding answered_def h by auto
  obtain v where v: "json_index (body msg) ''echo'' = Inr v"
    using rt echo_task [OF raw(2) assms(5), of draw draw' node] by (cases "json_index (body msg) ''echo''") auto
  then obtain line q where line: "out = Some (line @ [CHR 0x0A])" "message_parse line = Inr (Some q)" "msg_type q = ECHO_RES"
      "msg_from q = msg_to msg" "msg_to q = msg_from msg" "json_index (body q) ''echo'' = Inr (json_norm v)"
      "json_index (body q) ''in_reply_to'' = (if is_valid (msg_id msg) then snowflake_as_json (msg_id msg) else Inl Assertion_failed)"
    using rt echo_task [OF raw(2) assms(5), of draw draw' node] by auto
  have "stdout s = out_lines (finished s)" using ok by (simp add: system_ok_def history_ok_def)
  then have "line @ [CHR 0x0A] \<in> set (stdout s)" using out line(1) by (force simp: out_lines_def)
  then show ?thesis using raw v line by blast
qed

theorem echo_answered_witness:
  "\<exists>s line q. reachable (system_new main_node [init_line, echo_line]) s \<and> main_thread s = M_finished \<and>
     line @ [CHR 0x0A] \<in> set (stdout s) \<and> message_parse line = Inr (Some q) \<and> msg_type q = ECHO_RES \<and> msg_to q = ''c1''"
proof -
  obtain s where s: "reachable (system_new main_node [init_line, echo_line]) s" "main_thread s = M_finished" "crashed s = None"
      "(echo_message, Echo_handler) \<in> set (dispatched s)" using echo_run reachable_steps [OF _ start] by force
  have e: "msg_type echo_message = ECHO_REQ" "msg_from echo_message = ''c1''" by code_simp+
  have "\<not> (\<exists>s'. system_step s s')" using stuck_iff [OF reachable_ok [OF s(1)]] s(2) by blast
  then show ?thesis using echo_answered [OF s(1) _ s(3,4) e(1)] s(1,2) e(2) by auto
qed

text \<open>C19. The init handler is not protected: two init requests that overlap, so that both find the names empty, break
  it.  The second can replace the list between the two assignments of the first, whose index then is out of
  range: the process ends with \<open>std::out_of_range\<close>, which the handler alone never raises.  Or the second overwrites the name after the first has been
  answered on the standard output.\<close>
theorem init_race_reachable:
  "(\<exists>s. reachable (system_new main_node [wide_line, narrow_line]) s \<and> crashed s = Some Std_out_of_range) \<and>
   (\<exists>s s'. reachable (system_new main_node [wide_line, narrow_line]) s \<and> stdout s \<noteq> [] \<and> self_node_id (shared s) = ''n2'' \<and>
      system_step\<^sup>*\<^sup>* s s' \<and> self_node_id (shared s') = ''n1'' \<and> all_node_ids (shared s') = [''n1''])"
proof -
  obtain es s where s: "run_schedule es (system_new main_node [wide_line, narrow_line]) = Some s" "crashed s = None"
      "length (workers s) = 16" "workers s ! 0 = W_run wide_task (H_set_ids [''n1'', ''n2''] 1)"
      "workers s ! 1 = W_run narrow_task (H_set_ids [''n1''] 0)" "stdout s = []" using overlap_run by blast
  note r = reachable_schedule [OF s(1)]
  let ?w = "Worker_event (1, 2)"
  have "case run_schedule [?w 0, ?w 1, ?w 0] s of None \<Rightarrow> False | Some s' \<Rightarrow> crashed s' = Some Std_out_of_range"
    using s(2-5) by (simp add: thread_defs)
  then obtain s1 where s1: "run_schedule [?w 0, ?w 1, ?w 0] s = Some s1" "crashed s1 = Some Std_out_of_range"
    by (auto split: option.splits)
  obtain a l where al: "create_response 1 (fst wide_task) = Inr a" "write_response a = Inr (Some l)" using race_response by blast
  have "case run_schedule [?w 0, ?w 0, ?w 0] s of None \<Rightarrow> False
    | Some s' \<Rightarrow> stdout s' = [l] \<and> self_node_id (shared s') = ''n2'' \<and> crashed s' = None \<and> 1 < length (workers s') \<and>
        workers s' ! 1 = W_run narrow_task (H_set_ids [''n1''] 0)"
    using s(2-6) al by (simp add: thread_defs respond_def)
  then obtain s2 where s2: "run_schedule [?w 0, ?w 0, ?w 0] s = Some s2" "stdout s2 = [l]" "self_node_id (shared s2) = ''n2''"
      "crashed s2 = None" "1 < length (workers s2)" "workers s2 ! 1 = W_run narrow_task (H_set_ids [''n1''] 0)"
    by (auto split: option.splits)
  have "\<exists>b. create_response 1 (fst narrow_task) = Inr b"
    using create_response_request [of "fst narrow_task" INIT_RES 1] by (simp add: init_request_message_def)
  then have "case run_schedule [?w 1, ?w 1] s2 of None \<Rightarrow> False
    | Some s' \<Rightarrow> self_node_id (shared s') = ''n1'' \<and> all_node_ids (shared s') = [''n1'']"
    using s2(4-6) by (auto simp: thread_defs respond_def)
  then obtain s3 where s3: "run_schedule [?w 1, ?w 1] s2 = Some s3" "self_node_id (shared s3) = ''n1''"
      "all_node_ids (shared s3) = [''n1'']" by (auto split: option.splits)
  have "reachable (system_new main_node [wide_line, narrow_line]) s1" "reachable (system_new main_node [wide_line, narrow_line]) s2"
    using reachable_steps [OF run_schedule_steps r] s1(1) s2(1) by blast+
  moreover have "stdout s2 \<noteq> []" using s2(2) by simp
  ultimately show ?thesis using s1(2) s2(3) run_schedule_steps [OF s3(1)] s3(2,3) by blast
qed

end
