(* ===== verification/Result_Monad.thy ===== *)
theory Result_Monad
  imports C_Numbers
begin

text \<open>
  The result type of \<^verbatim>\<open>src/src/common/monad/result.h\<close>: an error with the places it passed through, and a
  tagged union of a value and an error.  The union is modelled by its active member, so that destroying or reading
  the wrong member is undefined behaviour.  The move constructor is left out: it swaps two unions that have no
  move operations and cannot be instantiated.
\<close>

section \<open>Errors\<close>

record source_location =
  function_name :: string
  file_name :: string
  loc_line :: u32
  loc_column :: u32

record Error =
  what :: string
  whereabouts :: "source_location list"     \<comment> \<open>\<open>where\<close>\<close>

definition Error_default :: Error where
  "Error_default = \<lparr>what = [], whereabouts = []\<rparr>"

definition Error_new :: "string \<Rightarrow> source_location \<Rightarrow> Error" where
  "Error_new msg location = \<lparr>what = msg, whereabouts = [location]\<rparr>"

definition expand :: "source_location \<Rightarrow> Error \<Rightarrow> Error" where
  "expand location err = err\<lparr>whereabouts := whereabouts err @ [location]\<rparr>"

section \<open>Results\<close>

datatype 't internal_value = No_member | Err_value Error | Valid_value 't

record 't Result =
  r_is_valid :: bool
  m_internal :: "'t internal_value"

definition Result_ok :: "'t \<Rightarrow> 't Result" where
  "Result_ok v = \<lparr>r_is_valid = True, m_internal = Valid_value v\<rparr>"

definition Result_error :: "Error \<Rightarrow> 't Result" where
  "Result_error e = \<lparr>r_is_valid = False, m_internal = Err_value e\<rparr>"

definition is_ok :: "'t Result \<Rightarrow> bool" where
  "is_ok r = r_is_valid r"

text \<open>The destructor: the member that \<open>is_valid\<close> names is destroyed, whichever is active.\<close>

definition destroy :: "'t Result \<Rightarrow> failure + 't internal_value" where
  "destroy r =
     (if is_ok r then (case m_internal r of Valid_value _ \<Rightarrow> Inr No_member | _ \<Rightarrow> Inl Undefined_behaviour)
      else (case m_internal r of Err_value _ \<Rightarrow> Inr No_member | _ \<Rightarrow> Inl Undefined_behaviour))"

text \<open>The member that \<open>is_valid\<close> names, as read from another result.\<close>

definition read_member :: "'t Result \<Rightarrow> failure + 't internal_value" where
  "read_member r =
     (case m_internal r of
        Valid_value v \<Rightarrow> if is_ok r then Inr (Valid_value v) else Inl Undefined_behaviour
      | Err_value e \<Rightarrow> if is_ok r then Inl Undefined_behaviour else Inr (Err_value e)
      | No_member \<Rightarrow> Inl Undefined_behaviour)"

text \<open>\<open>same\<close> is \<open>this == &other\<close>.\<close>

definition copy_assign :: "bool \<Rightarrow> 't Result \<Rightarrow> 't Result \<Rightarrow> failure + 't Result" where
  "copy_assign same r other =
     (if same then Inr r
      else ebind (destroy r)
            (\<lambda>_. ebind (read_member other) (\<lambda>m. Inr \<lparr>r_is_valid = r_is_valid other, m_internal = m\<rparr>)))"

text \<open>
  The move leaves in \<open>other\<close> what the move constructors of the value and of the error leave behind
  (\<open>moved\<close> and \<open>moved_error\<close>).
\<close>

definition move_assign ::
  "('t \<Rightarrow> 't) \<Rightarrow> (Error \<Rightarrow> Error) \<Rightarrow> bool \<Rightarrow> 't Result \<Rightarrow> 't Result \<Rightarrow> failure + 't Result \<times> 't Result" where
  "move_assign moved moved_error same r other =
     (if same then Inr (r, other)
      else ebind (destroy r)
            (\<lambda>_. ebind (read_member other)
              (\<lambda>m. Inr (\<lparr>r_is_valid = r_is_valid other, m_internal = m\<rparr>,
                         other\<lparr>m_internal := (case m of Valid_value v \<Rightarrow> Valid_value (moved v)
                                              | Err_value e \<Rightarrow> Err_value (moved_error e) | No_member \<Rightarrow> No_member)\<rparr>))))"

datatype 't outcome = Returned 't | Exited string

definition print_location :: "source_location \<Rightarrow> string" where
  "print_location l =
     ''['' @ takeWhile (\<lambda>c. c \<noteq> CHR 0x00) (function_name l) @ '' @ '' @ takeWhile (\<lambda>c. c \<noteq> CHR 0x00) (file_name l) @ '' @ '' @
     decimal (unat (loc_line l)) @ '':'' @ decimal (unat (loc_column l)) @ '']''"

text \<open>\<open>printf\<close> writes a string up to its first null character.\<close>

definition expect :: "'t Result \<Rightarrow> failure + 't outcome" where
  "expect r =
     (if is_ok r then (case m_internal r of Valid_value v \<Rightarrow> Inr (Returned v) | _ \<Rightarrow> Inl Undefined_behaviour)
      else
        (case m_internal r of
           Err_value e \<Rightarrow>
             (case whereabouts e of
                [] \<Rightarrow> Inl Undefined_behaviour
              | l # ls \<Rightarrow>
                  Inr (Exited (''[expect() on error type]'' @ [CHR 0x0A] @ print_location l @ [CHR 0x0A] @
                    [CHR 0x09] @ ''Error: '' @ takeWhile (\<lambda>c. c \<noteq> CHR 0x00) (what e) @ [CHR 0x0A, CHR 0x0A] @
                    (if ls \<noteq> [] then ''propagated through:'' else []) @
                    concat (map (\<lambda>l. [CHR 0x0A, CHR 0x09, CHR 0x09] @ print_location l) ls))))
         | _ \<Rightarrow> Inl Undefined_behaviour))"

text \<open>\<open>as_err\<close> does not look at \<open>is_valid\<close>.\<close>

definition as_err :: "'t Result \<Rightarrow> failure + Error" where
  "as_err r = (case m_internal r of Err_value e \<Rightarrow> Inr e | _ \<Rightarrow> Inl Undefined_behaviour)"

definition ERROR_PROPAGATE :: "source_location \<Rightarrow> 't Result \<Rightarrow> failure + Error" where
  "ERROR_PROPAGATE here r = ebind (as_err r) (\<lambda>e. Inr (expand here e))"

section \<open>Well-formed results\<close>

definition result_wf :: "'t Result \<Rightarrow> bool" where
  "result_wf r \<longleftrightarrow>
     (case m_internal r of Valid_value _ \<Rightarrow> r_is_valid r | Err_value e \<Rightarrow> \<not> r_is_valid r | No_member \<Rightarrow> False)"

lemmas result_defs = result_wf_def destroy_def read_member_def copy_assign_def move_assign_def is_ok_def
  Result_ok_def Result_error_def

lemma result_cases:
  assumes "result_wf r"
  obtains (holds) v where "r = Result_ok v" | (fails) e where "r = Result_error e"
  using assms by (cases r; cases "m_internal r") (auto simp: result_defs)

lemma destroy_wf: "result_wf r \<Longrightarrow> destroy r = Inr No_member"
  by (erule result_cases) (auto simp: result_defs)

lemma read_member_wf: "result_wf r \<Longrightarrow> read_member r = Inr (m_internal r)"
  by (erule result_cases) (auto simp: result_defs)

text \<open>C39. Results stay well-formed: the constructors give a result whose flag names the active member; on well-formed
  results the destructor, both assignments (to itself too) and \<open>is_ok\<close> never touch the wrong member, a copy equals
  its source, a move hands over the source's member, and source and target are well-formed afterwards.\<close>
theorem result_well_formed:
  assumes "result_wf r" and "result_wf other"
  shows "destroy r = Inr No_member \<and>
    copy_assign same r other = Inr (if same then r else other) \<and>
    (\<exists>other'. move_assign moved moved_error same r other = Inr (if same then r else other, other') \<and> result_wf other' \<and>
       is_ok other' = is_ok other)"
  using assms by (auto simp: destroy_wf read_member_wf copy_assign_def move_assign_def is_ok_def result_wf_def
      split: internal_value.splits)

theorem result_well_formed_witness:
  "copy_assign False (Result_ok (1 :: nat)) (Result_error Error_default) = Inr (Result_error Error_default)"
  using result_well_formed [of "Result_ok (1 :: nat)" "Result_error Error_default" False "\<lambda>x. x" "\<lambda>x. x"]
  by (simp add: result_defs)

text \<open>The error after it has been propagated through the places \<open>ls\<close>.\<close>

fun propagate :: "source_location list \<Rightarrow> 't Result \<Rightarrow> failure + 't Result" where
  "propagate [] r = Inr r"
| "propagate (l # ls) r = ebind (ERROR_PROPAGATE l r) (\<lambda>e. propagate ls (Result_error e))"

lemma propagate_error:
  "propagate ls (Result_error e) = Inr (Result_error (e\<lparr>whereabouts := whereabouts e @ ls\<rparr>))"
proof (induction ls arbitrary: e)
  case (Cons l ls)
  show ?case by (simp add: ERROR_PROPAGATE_def as_err_def Result_error_def expand_def) (simp add: Cons [unfolded Result_error_def])
qed (simp add: Result_error_def)

text \<open>C40. What \<open>expect\<close> does: it returns the value of a result that holds one; for an error raised at \<open>l\<close> and
  propagated through the places \<open>ls\<close> it ends the program after printing the place of origin, the message and the
  places in the order in which the error passed them; an error without a place (the default one) is undefined
  behaviour.\<close>
theorem expect_reports:
  "expect (Result_ok v) = Inr (Returned v) \<and>
   ebind (propagate ls (Result_error (Error_new msg l))) expect =
     Inr (Exited (''[expect() on error type]'' @ [CHR 0x0A] @ print_location l @ [CHR 0x0A, CHR 0x09] @ ''Error: '' @
       takeWhile (\<lambda>c. c \<noteq> CHR 0x00) msg @ [CHR 0x0A, CHR 0x0A] @ (if ls = [] then [] else ''propagated through:'') @
       concat (map (\<lambda>l. [CHR 0x0A, CHR 0x09, CHR 0x09] @ print_location l) ls))) \<and>
   expect (Result_error Error_default :: 't Result) = Inl Undefined_behaviour"
  unfolding propagate_error ebind_Inr by (simp add: expect_def Error_new_def Error_default_def result_defs)

end
