(* ===== verification/Demo_Maelstrom.thy ===== *)
theory Demo_Maelstrom
  imports Json_Print
begin

text \<open>
  The demonstration program of \<^verbatim>\<open>src/demo/c++\<close> (\<^verbatim>\<open>maelstrom.h\<close>, \<^verbatim>\<open>maelstrom.cpp\<close>, \<^verbatim>\<open>echo.cpp\<close>): messages, a
  single-threaded node and the echo handler.  It rests on \<open>boost::json\<close>, which is not part of the repository: the
  library's values and objects and the functions the demo calls are a parameter, a record of functions that the
  definitions take as their first argument.  What the demo relies on is stated in the locale \<open>boost_laws\<close>.
  Exceptions are enabled in this program; one that is not caught ends it.
\<close>

section \<open>The JSON library\<close>

record ('v, 'o) boost_json =
  bj_parse :: "string \<Rightarrow> failure + 'v"
  bj_is_object :: "'v \<Rightarrow> bool"
  bj_as_object :: "'v \<Rightarrow> failure + 'o"
  bj_as_string :: "'v \<Rightarrow> failure + string"
  bj_as_int64 :: "'v \<Rightarrow> failure + int"
  bj_as_array :: "'v \<Rightarrow> failure + 'v list"
  bj_at :: "'o \<Rightarrow> string \<Rightarrow> failure + 'v"
  bj_contains :: "'o \<Rightarrow> string \<Rightarrow> bool"
  bj_put :: "'o \<Rightarrow> string \<Rightarrow> 'v \<Rightarrow> 'o"              \<comment> \<open>\<open>object[key] = value\<close>\<close>
  bj_erase :: "'o \<Rightarrow> string \<Rightarrow> 'o"
  bj_empty :: 'o
  bj_string :: "string \<Rightarrow> 'v"
  bj_int :: "int \<Rightarrow> 'v"
  bj_object :: "'o \<Rightarrow> 'v"
  bj_print :: "'o \<Rightarrow> string"

section \<open>Messages\<close>

record 'o demo_message =
  sender :: string
  recipient :: string
  mtype :: string
  mbody :: 'o
  msgId :: "int option"
  inReplyTo :: "int option"

text \<open>\<open>raiseRuntimeError\<close>.\<close>

definition raiseRuntimeError :: "failure + 'a" where
  "raiseRuntimeError = Inl Runtime_error"

text \<open>A string assigned from \<open>c_str()\<close> ends at the first null character.\<close>

definition c_str :: "string \<Rightarrow> string" where
  "c_str s = takeWhile (\<lambda>c. c \<noteq> CHR 0x00) s"

text \<open>A 64-bit integer stored in an \<open>int\<close>.\<close>

definition to_int :: "int \<Rightarrow> int" where
  "to_int i = sint (of_int i :: 32 word)"

definition string_at :: "('v, 'o) boost_json \<Rightarrow> 'o \<Rightarrow> string \<Rightarrow> failure + string" where
  "string_at bj obj key = ebind (bj_at bj obj key) (\<lambda>v. ebind (bj_as_string bj v) (\<lambda>s. Inr (c_str s)))"

definition id_at :: "('v, 'o) boost_json \<Rightarrow> 'o \<Rightarrow> string \<Rightarrow> failure + int option" where
  "id_at bj obj key =
     (if bj_contains bj obj key
      then ebind (bj_at bj obj key) (\<lambda>v. ebind (bj_as_int64 bj v) (\<lambda>i. Inr (Some (to_int i))))
      else Inr None)"

definition message_of_text :: "('v, 'o) boost_json \<Rightarrow> string \<Rightarrow> failure + 'o demo_message" where
  "message_of_text bj strMessage =
     ebind (bj_parse bj strMessage)
      (\<lambda>v. if \<not> bj_is_object bj v then raiseRuntimeError
           else
             ebind (bj_as_object bj v)
              (\<lambda>obj. ebind (string_at bj obj ''src'')
               (\<lambda>src. ebind (string_at bj obj ''dest'')
                (\<lambda>dest. ebind (ebind (bj_at bj obj ''body'') (bj_as_object bj))
                 (\<lambda>b. ebind (string_at bj b ''type'')
                  (\<lambda>t. ebind (id_at bj b ''msg_id'')
                   (\<lambda>mid. ebind (id_at bj b ''in_reply_to'')
                    (\<lambda>rid. Inr \<lparr>sender = src, recipient = dest, mtype = t, mbody = b, msgId = mid, inReplyTo = rid\<rparr>))))))))"

definition set_id :: "('v, 'o) boost_json \<Rightarrow> int option \<Rightarrow> string \<Rightarrow> string \<Rightarrow> 'o \<Rightarrow> 'o" where
  "set_id bj mid key other obj =
     (case mid of
        None \<Rightarrow> obj
      | Some i \<Rightarrow>
          let obj = bj_put bj obj key (bj_int bj i)
          in if bj_contains bj obj other then bj_erase bj obj other else obj)"

definition message_make ::
  "('v, 'o) boost_json \<Rightarrow> string \<Rightarrow> string \<Rightarrow> string \<Rightarrow> 'o \<Rightarrow> int option \<Rightarrow> int option \<Rightarrow> failure + 'o demo_message" where
  "message_make bj from to type b mid rid =
     (let b = bj_put bj b ''type'' (bj_string bj type) in
      if mid \<noteq> None \<and> rid \<noteq> None then raiseRuntimeError
      else
        let b = set_id bj mid ''msg_id'' ''in_reply_to'' b; b = set_id bj rid ''in_reply_to'' ''msg_id'' b
        in Inr \<lparr>sender = from, recipient = to, mtype = type, mbody = b, msgId = mid, inReplyTo = rid\<rparr>)"

definition message_object :: "('v, 'o) boost_json \<Rightarrow> 'o demo_message \<Rightarrow> 'o" where
  "message_object bj m =
     bj_put bj
       (bj_put bj (bj_put bj (bj_empty bj) ''src'' (bj_string bj (sender m))) ''dest'' (bj_string bj (recipient m)))
       ''body'' (bj_object bj (mbody m))"

text \<open>What \<open>send\<close> writes.\<close>

definition send_message :: "('v, 'o) boost_json \<Rightarrow> 'o demo_message \<Rightarrow> string" where
  "send_message bj m = bj_print bj (message_object bj m) @ [CHR 0x0A]"

section \<open>The node\<close>

text \<open>A handler yields the text it writes; if it throws, what it wrote before is nothing, since it writes last.\<close>

type_synonym 'o handler = "'o demo_message \<Rightarrow> failure + string"

record 'o demo_node =
  messageHandlers :: "string \<rightharpoonup> 'o handler"
  nodeId :: "string option"
  peerIds :: "string list"

definition registerMessageHandler :: "string \<Rightarrow> 'o handler \<Rightarrow> 'o demo_node \<Rightarrow> 'o demo_node" where
  "registerMessageHandler name h node = node\<lparr>messageHandlers := (messageHandlers node)(name \<mapsto> h)\<rparr>"

fun strings_of :: "('v, 'o) boost_json \<Rightarrow> 'v list \<Rightarrow> failure + string list" where
  "strings_of bj [] = Inr []"
| "strings_of bj (v # vs) =
     ebind (bj_as_string bj v) (\<lambda>s. ebind (strings_of bj vs) (\<lambda>ss. Inr (c_str s # ss)))"

definition init_request :: "('v, 'o) boost_json \<Rightarrow> 'o demo_message \<Rightarrow> 'o demo_node \<Rightarrow> failure + string \<times> 'o demo_node" where
  "init_request bj request node =
     (if nodeId node \<noteq> None then raiseRuntimeError
      else
        ebind (string_at bj (mbody request) ''node_id'')
         (\<lambda>self. ebind (ebind (bj_at bj (mbody request) ''node_ids'') (bj_as_array bj))
          (\<lambda>vs. ebind (strings_of bj vs)
           (\<lambda>peers. ebind (message_make bj (recipient request) (sender request) ''init_ok'' (bj_empty bj) None (msgId request))
            (\<lambda>response. Inr (send_message bj response, node\<lparr>nodeId := Some self, peerIds := peers\<rparr>))))))"

text \<open>
  The handler runs in a thread whose future is destroyed at once: the destructor waits for it, and an exception
  is lost with the future.
\<close>

definition handleMessage :: "('v, 'o) boost_json \<Rightarrow> 'o demo_message \<Rightarrow> 'o demo_node \<Rightarrow> failure + string \<times> 'o demo_node" where
  "handleMessage bj request node =
     (if mtype request = ''init'' then init_request bj request node
      else
        (case messageHandlers node (mtype request) of
           Some h \<Rightarrow> (case h request of Inl _ \<Rightarrow> Inr ([], node) | Inr out \<Rightarrow> Inr (out, node))
         | None \<Rightarrow> raiseRuntimeError))"

text \<open>\<open>Node::run\<close>: what it writes, and the exception that ends it or the node when it returns.\<close>

fun demo_run :: "('v, 'o) boost_json \<Rightarrow> string list \<Rightarrow> 'o demo_node \<Rightarrow> string \<times> (failure + 'o demo_node)" where
  "demo_run bj [] node = ([], Inr node)"
| "demo_run bj (inputLine # lines) node =
     (if inputLine = '''' then ([], Inr node)
      else
        (case ebind (message_of_text bj inputLine) (\<lambda>request. handleMessage bj request node) of
           Inl e \<Rightarrow> ([], Inl e)
         | Inr (out, node) \<Rightarrow> (case demo_run bj lines node of (rest, r) \<Rightarrow> (out @ rest, r))))"

section \<open>The echo program\<close>

definition echo_handle :: "('v, 'o) boost_json \<Rightarrow> 'o handler" where
  "echo_handle bj request =
     ebind (message_make bj (recipient request) (sender request) ''echo_ok'' (mbody request) None (msgId request))
       (\<lambda>response. Inr (send_message bj response))"

definition echo_node :: "('v, 'o) boost_json \<Rightarrow> 'o demo_node" where
  "echo_node bj =
     registerMessageHandler ''echo'' (echo_handle bj) \<lparr>messageHandlers = Map.empty, nodeId = None, peerIds = []\<rparr>"

section \<open>What the demo relies on\<close>

locale boost_laws =
  fixes bj :: "('v, 'o) boost_json"
  assumes at_put: "bj_at bj (bj_put bj obj k v) k' = (if k' = k then Inr v else bj_at bj obj k')"
    and contains_at: "bj_contains bj obj k \<longleftrightarrow> (\<exists>v. bj_at bj obj k = Inr v)"
    and at_erase: "k' \<noteq> k \<Longrightarrow> bj_at bj (bj_erase bj obj k) k' = bj_at bj obj k'"
    and erased: "\<not> bj_contains bj (bj_erase bj obj k) k"
begin

text \<open>The body of a reply: the request's, with the type and the identifier of the request.\<close>

lemma reply_body:
  assumes "message_make bj from to type b None rid = Inr m"
  shows "bj_at bj (mbody m) ''type'' = Inr (bj_string bj type) \<and>
    (\<forall>i. rid = Some i \<longrightarrow> bj_at bj (mbody m) ''in_reply_to'' = Inr (bj_int bj i) \<and> \<not> bj_contains bj (mbody m) ''msg_id'') \<and>
    (\<forall>k. k \<notin> {''type'', ''in_reply_to'', ''msg_id''} \<longrightarrow> bj_at bj (mbody m) k = bj_at bj b k)"
proof (cases rid)
  case None
  then show ?thesis using assms by (auto simp: message_make_def set_id_def Let_def at_put)
next
  case (Some i)
  let ?b = "bj_put bj (bj_put bj b ''type'' (bj_string bj type)) ''in_reply_to'' (bj_int bj i)"
  have m: "mbody m = (if bj_contains bj ?b ''msg_id'' then bj_erase bj ?b ''msg_id'' else ?b)"
    using assms Some by (auto simp: message_make_def set_id_def Let_def)
  show ?thesis using Some erased by (auto simp: m at_put at_erase)
qed

lemma reply_object:
  "bj_at bj (message_object bj m) ''src'' = Inr (bj_string bj (sender m)) \<and>
   bj_at bj (message_object bj m) ''dest'' = Inr (bj_string bj (recipient m)) \<and>
   bj_at bj (message_object bj m) ''body'' = Inr (bj_object bj (mbody m))"
  by (simp add: message_object_def at_put)

end

section \<open>The library instantiated\<close>

text \<open>
  The laws hold for the JSON library that the repository does contain, taken in the place of \<open>boost::json\<close>: its values, its
  ordered maps, its parser and its compact output.
\<close>

definition nlohmann_json :: "(json, (string \<times> json) list) boost_json" where
  "nlohmann_json =
     \<lparr>bj_parse = (\<lambda>s. ebind (json_parse s False) (\<lambda>j. if is_discarded j then Inl Runtime_error else Inr j)),
      bj_is_object = is_object,
      bj_as_object = (\<lambda>j. case j of JObject m \<Rightarrow> Inr m | _ \<Rightarrow> Inl Runtime_error),
      bj_as_string = get_string,
      bj_as_int64 = (\<lambda>j. case j of JInteger w \<Rightarrow> Inr (sint w)
                         | JUnsigned w \<Rightarrow> if uint w < 2 ^ 63 then Inr (uint w) else Inl Runtime_error | _ \<Rightarrow> Inl Runtime_error),
      bj_as_array = get_array,
      bj_at = (\<lambda>m k. case map_find m k of Some v \<Rightarrow> Inr v | None \<Rightarrow> Inl Std_out_of_range),
      bj_contains = (\<lambda>m k. map_find m k \<noteq> None),
      bj_put = map_put, bj_erase = (\<lambda>m k. filter (\<lambda>kv. fst kv \<noteq> k) m), bj_empty = [],
      bj_string = JString, bj_int = (\<lambda>i. JInteger (of_int i)), bj_object = JObject, bj_print = (\<lambda>m. json_print (JObject m))\<rparr>"

lemma map_find_erase: "map_find (filter (\<lambda>kv. fst kv \<noteq> k) m) k' = (if k' = k then None else map_find m k')"
  by (induction m) auto

interpretation nlohmann: boost_laws nlohmann_json
  by unfold_locales (auto simp: nlohmann_json_def map_find_put map_find_erase split: option.splits)

section \<open>Properties\<close>

lemma to_int_eq: "to_int i = i \<longleftrightarrow> - (2 ^ 31) \<le> i \<and> i < 2 ^ 31"
proof
  assume "to_int i = i"
  then show "- (2 ^ 31) \<le> i \<and> i < 2 ^ 31"
    using sint_ge [of "of_int i :: 32 word"] sint_lt [of "of_int i :: 32 word"] by (simp add: to_int_def)
qed (simp add: to_int_def sint_sbintrunc' signed_take_bit_int_eq_self)

text \<open>C37. The demo's echo program answers an echo request with one line, an object with sender and recipient exchanged and
  the request's body in which the type is \<open>echo_ok\<close>; if the request has a \<open>msg_id\<close>, the body has it as
  \<open>in_reply_to\<close> and no \<open>msg_id\<close>, but reduced to 32 bits, so that it is the same number only if it fits an
  \<open>int\<close>; all other fields are unchanged.\<close>
theorem demo_echo:
  assumes "boost_laws bj" and "message_of_text bj raw = Inr req" and "mtype req = ''echo''" and "raw \<noteq> ''''"
  shows "\<exists>obj b. demo_run bj [raw] (echo_node bj) = (bj_print bj obj @ [CHR 0x0A], Inr (echo_node bj)) \<and>
    bj_at bj obj ''src'' = Inr (bj_string bj (recipient req)) \<and> bj_at bj obj ''dest'' = Inr (bj_string bj (sender req)) \<and>
    bj_at bj obj ''body'' = Inr (bj_object bj b) \<and> bj_at bj b ''type'' = Inr (bj_string bj ''echo_ok'') \<and>
    (\<forall>v i. bj_at bj (mbody req) ''msg_id'' = Inr v \<longrightarrow> bj_as_int64 bj v = Inr i \<longrightarrow>
       bj_at bj b ''in_reply_to'' = Inr (bj_int bj (to_int i)) \<and> \<not> bj_contains bj b ''msg_id'' \<and>
       (to_int i = i \<longleftrightarrow> - (2 ^ 31) \<le> i \<and> i < 2 ^ 31)) \<and>
    (\<forall>k. k \<notin> {''type'', ''in_reply_to'', ''msg_id''} \<longrightarrow> bj_at bj b k = bj_at bj (mbody req) k)"
proof -
  obtain m where m: "message_make bj (recipient req) (sender req) ''echo_ok'' (mbody req) None (msgId req) = Inr m"
      "sender m = recipient req" "recipient m = sender req"
    by (auto simp: message_make_def Let_def)
  note body = boost_laws.reply_body [OF assms(1) m(1)] and obj = boost_laws.reply_object [OF assms(1), of m]
  have "demo_run bj [raw] (echo_node bj) = (bj_print bj (message_object bj m) @ [CHR 0x0A], Inr (echo_node bj))"
    using assms(2-4) m(1)
    by (simp add: handleMessage_def echo_node_def registerMessageHandler_def echo_handle_def send_message_def)
  moreover have "msgId req = Some (to_int i)"
    if "bj_at bj (mbody req) ''msg_id'' = Inr v" "bj_as_int64 bj v = Inr i" for v i
    using assms(2) that boost_laws.contains_at [OF assms(1), of "mbody req" "''msg_id''"]
    by (auto simp: message_of_text_def raiseRuntimeError_def id_at_def result_simps split: if_splits)
  ultimately show ?thesis using body obj m to_int_eq by (intro exI [of _ "message_object bj m"] exI [of _ "mbody m"]) auto
qed

text \<open>C38. What ends the demo program: an init request when the node already has a name, and a request of a type without
  handler; the output of the lines before it is kept, the lines after it are not read.\<close>
theorem demo_run_stops:
  assumes "message_of_text bj raw = Inr req" and "raw \<noteq> ''''"
    and "mtype req = ''init'' \<and> nodeId node' \<noteq> None \<or> mtype req \<noteq> ''init'' \<and> messageHandlers node' (mtype req) = None"
    and "demo_run bj lines node = (out, Inr node')" and "'''' \<notin> set lines"
  shows "demo_run bj (lines @ raw # rest) node = (out, Inl Runtime_error)"
  using assms(4,5)
proof (induction lines arbitrary: node out)
  case Nil
  then show ?case using assms(1-3) by (auto simp: handleMessage_def init_request_def raiseRuntimeError_def)
next
  case (Cons l lines)
  then show ?case by (auto split: sum.splits prod.splits)
qed


text \<open>Both hypotheses hold for the library instance and the lines of a small run.\<close>

definition demo_line :: string where
  "demo_line = json_print (JObject [(''body'', JObject [(''msg_id'', JUnsigned 7), (''type'', JString ''echo'')]),
     (''dest'', JString ''n1''), (''src'', JString ''c1'')])"

definition demo_request :: "(string \<times> json) list demo_message" where
  "demo_request = \<lparr>sender = ''c1'', recipient = ''n1'', mtype = ''echo'',
     mbody = [(''msg_id'', JUnsigned 7), (''type'', JString ''echo'')], msgId = Some 7, inReplyTo = None\<rparr>"

lemma demo_line_message: "message_of_text nlohmann_json demo_line = Inr demo_request"
proof -
  let ?j = "JObject [(''body'', JObject [(''msg_id'', JUnsigned 7), (''type'', JString ''echo'')]),
     (''dest'', JString ''n1''), (''src'', JString ''c1'')]"
  have "printable ?j" "json_norm ?j = ?j" "\<not> is_discarded ?j" by code_simp+
  then have parse: "bj_parse nlohmann_json demo_line = Inr ?j"
    using json_parse_print [of ?j] by (simp add: nlohmann_json_def demo_line_def)
  show ?thesis
    unfolding message_of_text_def parse ebind_Inr
    by (simp add: string_at_def id_at_def nlohmann_json_def demo_request_def is_object_def get_string_def c_str_def to_int_def)
qed

theorem demo_echo_witness:
  "\<exists>obj b. demo_run nlohmann_json [demo_line] (echo_node nlohmann_json) =
      (bj_print nlohmann_json obj @ [CHR 0x0A], Inr (echo_node nlohmann_json)) \<and>
     bj_at nlohmann_json obj ''dest'' = Inr (JString ''c1'') \<and> bj_at nlohmann_json obj ''body'' = Inr (JObject b) \<and>
     bj_at nlohmann_json b ''type'' = Inr (JString ''echo_ok'')"
proof -
  have r: "mtype demo_request = ''echo''" "demo_line \<noteq> ''''" "sender demo_request = ''c1''"
    by (simp_all add: demo_request_def demo_line_def)
  have l: "bj_string nlohmann_json = JString" "bj_object nlohmann_json = JObject" by (simp_all add: nlohmann_json_def)
  show ?thesis
    using demo_echo [OF nlohmann.boost_laws_axioms demo_line_message r(1,2)] unfolding l r(3) by blast
qed

theorem demo_run_stops_witness:
  "demo_run nlohmann_json ([] @ demo_line # [[]]) \<lparr>messageHandlers = Map.empty, nodeId = None, peerIds = []\<rparr> = ([], Inl Runtime_error)"
  by (rule demo_run_stops [OF demo_line_message]) (simp_all add: demo_line_def demo_request_def)

end
