(* ===== verification/Spec2Isabelle.thy ===== *)
theory Spec2Isabelle
  imports Base64 Node_Threads Result_Monad Demo_Maelstrom
begin

text \<open>
  \<^bold>\<open>Verification of maelstrom-cpp.\<close>

  The program is a node for the Maelstrom workbench: it reads one JSON message per line from standard
  input and writes one JSON message per line to standard output.  \<^verbatim>\<open>src/src/main.cpp\<close> creates a node with
  sixteen worker threads and registers handlers for echo and generate requests; the main thread
  reads lines, parses them into messages and puts a task (message and handler) into a queue; the workers take
  tasks, run the handler and write its response.  JSON is read and written by the bundled header
  \<^verbatim>\<open>src/src/ext/nlohmann/json.hpp\<close>.

  \<^bold>\<open>The theories\<close>, in the order in which they build on each other:

  \<^item> \<^verbatim>\<open>Prelude\<close>: machine integers as words, the ways in which the process can stop (\<open>failure\<close>), sequencing of
    computations that may stop (\<open>ebind\<close>), bytes and characters, checked access to raw buffers, and the
    collections of simplification rules.
  \<^item> \<^verbatim>\<open>Base64\<close>: \<^verbatim>\<open>common/encoding/base64.cpp\<close>, both alphabets, encoders and decoders, with their state as
    records and their loops as recursion over the input.  The locale \<open>sextet_alphabet\<close> states what decoding needs
    of an alphabet.  Shown: decoding inverts encoding for the URL alphabet, the encoder's output is the bit string of
    its input, what the decoders yield on every text, exactly when they overwrite the terminator of their result (which is undefined behaviour), and
    what the padded encoder really writes.
  \<^item> \<^verbatim>\<open>Json_Value\<close>: the value type of \<open>basic_json\<close> with the operations the program calls.  Objects are ordered maps; the
    locale \<open>ordered_map\<close> is their interface, interpreted on the association lists of the model.
  \<^item> \<^verbatim>\<open>Snowflake\<close> and \<^verbatim>\<open>Message\<close>: \<^verbatim>\<open>common/snowflake.cpp\<close> and \<^verbatim>\<open>common/message.cpp\<close>.  Shown: which JSON values are
    accepted as identifiers and as messages, which end the process (in the log output too) or are undefined, what a response looks like, the round
    trips, and that the identifiers are the first outputs of \<open>std::mt19937_64\<close>.
  \<^item> \<^verbatim>\<open>C_Numbers\<close>: \<open>strtoull\<close>, \<open>strtoll\<close> and \<open>strtod\<close> of the C library, on which the lexer relies.
  \<^item> \<^verbatim>\<open>Json_Lexer\<close>, \<^verbatim>\<open>Json_Parser\<close>: \<open>detail::lexer\<close>, \<open>detail::json_sax_dom_parser\<close>, \<open>detail::parser\<close> and \<open>basic_json::parse\<close>.
    \<^verbatim>\<open>Json_Tokens\<close> proves that the scan functions compute a lexical grammar, \<^verbatim>\<open>Json_Parse\<close> relates the pointers of the DOM
    builder to a stack of open containers, and \<^verbatim>\<open>Json_Grammar\<close> shows that \<open>parse\<close> returns exactly what a recursive descent over the
    lexemes returns: for every string it returns, without a failed assertion.
  \<^item> \<^verbatim>\<open>Float_Format\<close>, \<^verbatim>\<open>Json_Serializer\<close>: \<open>detail::to_chars\<close> (Grisu2) and \<open>detail::serializer\<close>.  \<^verbatim>\<open>Json_Escape\<close> proves that escaping accepts
    exactly UTF-8 and never overflows its buffer.  \<^verbatim>\<open>Double_Rounding\<close>, \<^verbatim>\<open>Grisu_Scaling\<close>, \<^verbatim>\<open>Grisu_Digits\<close> and \<^verbatim>\<open>Float_Text\<close> prove Grisu2 correct: the cached
    powers of ten are accurate to half a unit, the scaled boundaries are safe, the digit loops fail no assertion and write at most 17 digits,
    and \<open>strtod\<close> reads the text of every finite double back as the same 64 bits.  \<^verbatim>\<open>Json_Print\<close> combines these: parsing what
    \<open>operator<<\<close> writes for a value gives the value back.  The locale \<open>json_codec\<close> states what the messages rely on and is interpreted on the library.
  \<^item> \<^verbatim>\<open>Node\<close>: \<^verbatim>\<open>common/node.cpp\<close> and \<^verbatim>\<open>main.cpp\<close> as sequential functions on the node: handlers, the init protocol, dispatch,
    and what a worker does with a task.  Shown: from an input line to the line written in reply for each request type, exactly
    which lines end the process or are undefined, and which lines become tasks.
  \<^item> \<^verbatim>\<open>Node_Threads\<close>: \<open>Node::run\<close> and \<open>Node::worker_loop\<close> as a transition system with the mutex, the condition variable (spurious wake-ups
    included) and the atomic state; each access of \<open>Node::init\<close> to the unprotected names of the node is a step of its own, and \<open>handler_alone\<close> shows that
    these steps, taken without interruption, are the handler of \<^verbatim>\<open>Node\<close>.  The locale \<open>thread_invariant\<close> is the contract of an invariant and is interpreted on
    four of them (locks and queue, order of the input, answers, identity of the node); \<open>decreasing_steps\<close> is the contract of a
    terminating system.  Shown: mutual exclusion, order, exactly-once handling and termination on every run, the answers on
    standard output, the states in which the system can be stuck, that the identity of the node is stable with one init request, and
    two concurrency defects as reachable states (a lost wake-up, and overlapping init requests).
  \<^item> \<^verbatim>\<open>Result_Monad\<close>: \<^verbatim>\<open>common/monad/result.h\<close>.
  \<^item> \<^verbatim>\<open>Demo_Maelstrom\<close>: the demonstration program of \<^verbatim>\<open>src/demo/c++\<close>.  It uses \<open>boost::json\<close>, which is not in the repository: the
    functions called are a record parameter, their documented behaviour is the locale \<open>boost_laws\<close>, and the locale is interpreted on
    the JSON values of this development.

  \<^bold>\<open>Conventions.\<close>  A C++ class is a record or a datatype with the source's names; \<open>uint64_t\<close> is a 64-bit word; \<open>double\<close> is its bit
  pattern; \<open>char\<close> buffers are strings with checked access, and an access outside, or a non-zero write to the terminator of a \<open>std::string\<close>, is the failure \<open>Undefined_behaviour\<close>.  The program is
  compiled without exceptions and with assertions, so every assertion, throw and escaping library exception is a value
  of \<open>failure\<close> that ends the process.  Random numbers are arguments.  A loop is a recursive function.

  \<^bold>\<open>Bounds.\<close>  \<open>normalize_loop\<close> is given 63 iterations, which suffice for every significand that is not zero (\<open>normalize_loop_spec\<close>).
  \<open>fractional_digits\<close> ends with the buffer by definition; that it ends within 17 digits is proved.  \<open>scan_tokens\<close> and \<open>lex_tokens\<close> list the first \<open>n\<close>
  tokens for any \<open>n\<close>.  The thread system needs no bound: a run on \<open>n\<close> lines without spurious wake-ups has at most \<open>16 n + 133\<close> steps (\<open>run_finite\<close>).
  The position counters of the lexer and the exponents in Grisu2 are unbounded integers; they stay below \<open>2\<^sup>6\<^sup>4\<close> and \<open>2\<^sup>3\<^sup>1\<close>.

  \<^bold>\<open>Not modelled.\<close>  The parts of \<^verbatim>\<open>json.hpp\<close> that the program never instantiates: CBOR, MessagePack, UBJSON and BSON, JSON pointers, patches,
  iterators, comparison, the callback parser and the SAX acceptor; type traits and macros, which exist at compile time only.  The move
  constructor and the macro \<open>ERROR\<close> of \<^verbatim>\<open>result.h\<close>, which cannot be instantiated; \<^verbatim>\<open>option.h\<close> and \<^verbatim>\<open>monad/error.h\<close>, which are empty; \<open>exit_illegal_state\<close>, which
  aborts and has no caller; log output to \<open>std::clog\<close> except where it can end the process (a JSON value written by \<open>dispatch_message\<close>, \<open>worker_loop\<close> and
  \<open>Snowflake::from_json\<close>).  In the thread system a test or an assignment of a name of the node is one step; what C++ permits beyond such interleavings when
  unsynchronised accesses collide is not refined further.  The
  outcome of \<open>std::random_device\<close> is an argument (\<open>std::mt19937_64\<close>, seeded with it, is modelled in \<^verbatim>\<open>Snowflake\<close>).
  Maelstrom itself and the demonstrations in other languages are not part of the C++ program.
\<close>

end
